(* ===== verification/Prelude.thy ===== *)
theory Prelude
  imports Main "HOL-Library.Word"
begin

section \<open>Shared types, collections and generic lemmas\<close>

text \<open>
  The types every component of the model uses, the \<^theory_text>\<open>named_theorems\<close> the
  component theories add their facts to, and the generic lemmas on lists and words they
  share. JavaScript strings are \<^typ>\<open>string\<close> (one \<^typ>\<open>char\<close> per
  code unit, so code units above 255 have no counterpart), Node
  buffers are lists of bytes, and the fixed-width fields of the wire format are machine words.
\<close>

type_synonym byte = "8 word"
type_synonym bytes = "byte list"
type_synonym u32 = "32 word"
type_synonym u64 = "64 word"

text \<open>
  Collections: \<open>wire_simps\<close> rewrites a writer or a reader operation, \<open>inv_intros\<close> holds
  the preservation lemmas of the components' invariants, \<open>step_defs\<close> the definitions an
  operation's proof unfolds.
\<close>

named_theorems wire_simps
named_theorems inv_intros
named_theorems step_defs

subsection \<open>Decimal rendering\<close>

text \<open>
  A number inside a JavaScript template literal is rendered in decimal. The integers the
  code renders (lengths, ids, status codes) are exact in a double.
\<close>

definition digit_char :: "nat \<Rightarrow> char" where
  "digit_char d = char_of (48 + d)"

fun show_nat :: "nat \<Rightarrow> string" where
  "show_nat n = (if n < 10 then [digit_char n] else show_nat (n div 10) @ [digit_char (n mod 10)])"

declare show_nat.simps [simp del]

definition show_int :: "int \<Rightarrow> string" where
  "show_int i = (if i < 0 then ''-'' @ show_nat (nat (- i)) else show_nat (nat i))"

text \<open>The value of a string of decimal digits; it reads back what \<^const>\<open>show_nat\<close> renders.\<close>

definition read_nat :: "string \<Rightarrow> nat" where
  "read_nat s = foldl (\<lambda>n c. 10 * n + (of_char c - 48)) 0 s"

lemma read_show_nat: "read_nat (show_nat n) = n"
proof (induction n rule: show_nat.induct)
  case (1 n)
  show ?case
  proof (cases "n < 10")
    case True
    then show ?thesis by (subst show_nat.simps) (simp add: digit_char_def read_nat_def)
  next
    case False
    have "(n mod 10 + 48) mod 256 = n mod 10 + 48" by simp
    moreover have "foldl (\<lambda>n c. 10 * n + (of_char c - 48)) 0 (show_nat (n div 10)) = n div 10"
      using "1.IH" False by (simp add: read_nat_def)
    ultimately show ?thesis
      using False by (subst show_nat.simps) (simp add: digit_char_def read_nat_def add.commute)
  qed
qed

lemma show_nat_inj: "show_nat m = show_nat n \<longleftrightarrow> m = n"
  by (metis read_show_nat)

definition is_digit :: "char \<Rightarrow> bool" where
  "is_digit c \<longleftrightarrow> 48 \<le> (of_char c :: nat) \<and> (of_char c :: nat) \<le> 57"

lemma show_nat_digits: "show_nat n \<noteq> [] \<and> list_all is_digit (show_nat n)"
proof (induction n rule: show_nat.induct)
  case (1 n)
  have "is_digit (digit_char (n mod 10))"
    using mod_less_divisor [of 10 n] by (simp add: is_digit_def digit_char_def)
  with 1 show ?case by (cases "n < 10") (subst show_nat.simps, simp)+
qed

lemma minus_not_digit: "\<not> is_digit CHR ''-''"
  by (simp add: is_digit_def)

lemma show_int_inj: "show_int i = show_int j \<longleftrightarrow> i = j"
proof -
  have "show_nat n \<noteq> CHR ''-'' # s" for n s
    using show_nat_digits [of n] minus_not_digit by auto
  then show ?thesis by (auto simp: show_int_def show_nat_inj split: if_splits dest: sym)
qed

subsection \<open>Lists\<close>

lemma take_drop_prefix [simp]:
  "take (length xs) (xs @ ys) = xs" "drop (length xs) (xs @ ys) = ys"
  by simp_all

lemma append_take_drop_cong: "a = take n xs \<Longrightarrow> b = drop n xs \<Longrightarrow> a @ b = xs"
  by simp

subsection \<open>Running a step function over a list of events\<close>

text \<open>
  Every stateful component is a step function from an event and a state to the next state
  and what the step emits. \<open>run_steps\<close> runs it over a list of events and collects what was
  emitted, in order.
\<close>

fun run_steps :: "('e \<Rightarrow> 's \<Rightarrow> 's \<times> 'o list) \<Rightarrow> 'e list \<Rightarrow> 's \<Rightarrow> 's \<times> 'o list" where
  "run_steps f [] s = (s, [])"
| "run_steps f (e # es) s =
     (let (s1, o1) = f e s; (s2, o2) = run_steps f es s1 in (s2, o1 @ o2))"

lemma run_steps_Cons:
  "f e s = (s1, os1) \<Longrightarrow> run_steps f es s1 = (s2, os2) \<Longrightarrow> run_steps f (e # es) s = (s2, os1 @ os2)"
  by simp

lemma run_steps_append:
  "run_steps f (xs @ ys) s =
     (let (s1, o1) = run_steps f xs s; (s2, o2) = run_steps f ys s1 in (s2, o1 @ o2))"
  by (induction xs arbitrary: s) (auto simp: Let_def split: prod.splits)

text \<open>An invariant of one step is an invariant of every run.\<close>

lemma run_steps_invariant:
  assumes step: "\<And>e s. I s \<Longrightarrow> I (fst (f e s))"
    and start: "I s"
  shows "I (fst (run_steps f es s))"
  using start
proof (induction es arbitrary: s)
  case (Cons e es)
  from step [OF Cons.prems] have "I (fst (run_steps f es (fst (f e s))))" by (rule Cons.IH)
  then show ?case by (simp add: Let_def split_def)
qed simp

text \<open>
  A measure that every step conserves up to what it takes in and what it emits is conserved
  by every run; the stream laws of the transport are instances of it.
\<close>

lemma run_steps_conserved:
  assumes step: "\<And>e s. \<phi> s @ inp e = out (snd (f e s)) @ \<phi> (fst (f e s))"
    and out: "\<And>xs ys. out (xs @ ys) = out xs @ out ys" "out [] = []"
  shows "\<phi> s @ concat (map inp es) = out (snd (run_steps f es s)) @ \<phi> (fst (run_steps f es s))"
proof (induction es arbitrary: s)
  case (Cons e es)
  have "\<phi> s @ concat (map inp (e # es)) = (\<phi> s @ inp e) @ concat (map inp es)" by simp
  also have "\<dots> = out (snd (f e s)) @ (\<phi> (fst (f e s)) @ concat (map inp es))"
    by (simp add: step)
  also note Cons.IH [of "fst (f e s)"]
  finally show ?case by (simp add: Let_def split_def out)
qed (simp add: out)

text \<open>The same for a quantity whose order does not matter: a multiset or a count.\<close>

lemma run_steps_balance:
  fixes \<phi> :: "'s \<Rightarrow> 'm :: comm_monoid_add"
  assumes step: "\<And>e s. \<phi> s + inp e = out (snd (f e s)) + \<phi> (fst (f e s))"
    and out: "\<And>xs ys. out (xs @ ys) = out xs + out ys" "out [] = 0"
  shows "\<phi> s + sum_list (map inp es) = out (snd (run_steps f es s)) + \<phi> (fst (run_steps f es s))"
proof (induction es arbitrary: s)
  case (Cons e es)
  have "\<phi> s + sum_list (map inp (e # es)) = (\<phi> s + inp e) + sum_list (map inp es)"
    by (simp add: add.assoc)
  also have "\<dots> = out (snd (f e s)) + (\<phi> (fst (f e s)) + sum_list (map inp es))"
    by (simp add: step add.assoc)
  also note Cons.IH [of "fst (f e s)"]
  finally show ?case by (simp add: Let_def split_def out add.assoc)
qed (simp add: out)

text \<open>
  An invariant that also speaks of what has happened: of the events so far and of what they
  emitted.
\<close>

lemma run_steps_log:
  assumes step: "\<And>es os s e s' os'. P es os s \<Longrightarrow> f e s = (s', os') \<Longrightarrow> P (es @ [e]) (os @ os') s'"
    and start: "P es0 os0 s"
  shows "P (es0 @ es) (os0 @ snd (run_steps f es s)) (fst (run_steps f es s))"
  using start
proof (induction es arbitrary: es0 os0 s)
  case (Cons e es)
  obtain s1 o1 where s1: "f e s = (s1, o1)" by fastforce
  from Cons.IH [OF step [OF Cons.prems s1]] s1 show ?case by (simp add: Let_def split_def)
qed simp

subsection \<open>A process\<close>

text \<open>
  What a program does to its process: lines on the console, and how it ends. \<open>argument\<close> is
  \<open>process.argv[i] ?? d\<close>.
\<close>

datatype process_output =
    Print string
  | PrintError string
  | Exit nat
  | Crash string   \<comment> \<open>an error that nothing handles\<close>
  | Killed         \<comment> \<open>a signal without a handler\<close>

definition argument :: "string list \<Rightarrow> nat \<Rightarrow> string \<Rightarrow> string" where
  "argument argv i d = (if i < length argv then argv ! i else d)"

abbreviation quote :: "string \<Rightarrow> string" where
  "quote s \<equiv> CHR 0x22 # s @ [CHR 0x22]"

end
