(* ===== verification/Connection_Interface.thy ===== *)
theory Connection_Interface
  imports Prelude
begin

section \<open>The interface of a connection and its contract\<close>

text \<open>
  \<open>sdk/js/src/transport/types.ts\<close> declares the interface \<open>IConnection\<close> (\<open>send\<close>, \<open>recv\<close>,
  \<open>close\<close>, \<open>isConnected\<close>) that the framing layer is written against, and the error class
  \<open>TransportError\<close>. A record of operations over an abstract connection state \<open>'c\<close> models the
  interface. The contract is stated against an abstract byte stream with at most one reader:
  each operation of the connection, seen through \<open>view\<close>, is the stream's operation.
\<close>

record transport_error =
  err_message :: string
  err_code :: string

definition TransportError :: "string \<Rightarrow> string \<Rightarrow> transport_error" where
  "TransportError m c = \<lparr>err_message = m, err_code = c\<rparr>"

definition connection_closed :: transport_error where
  "connection_closed = TransportError ''Connection closed'' ''ECONNRESET''"

definition not_connected :: transport_error where
  "not_connected = TransportError ''Not connected'' ''ENOTCONN''"

text \<open>
  A \<open>recv\<close> promise is settled at once or pending; a \<open>send\<close> promise is rejected at once or
  pending until the socket has taken the bytes.
\<close>

datatype recv_result = Now bytes | Fail transport_error | Pending
datatype send_result = SFail transport_error | SPending

record 'c iconnection =
  ic_send :: "bytes \<Rightarrow> 'c \<Rightarrow> 'c \<times> send_result"
  ic_recv :: "nat \<Rightarrow> 'c \<Rightarrow> 'c \<times> recv_result"
  ic_close :: "'c \<Rightarrow> 'c"
  ic_isConnected :: "'c \<Rightarrow> bool"

text \<open>
  What happens to a connection from outside: bytes arrive, or it goes down with an error. If
  a \<open>recv\<close> promise was pending, the event may settle it.
\<close>

record 'c socket_events =
  se_arrive :: "bytes \<Rightarrow> 'c \<Rightarrow> 'c \<times> (transport_error + bytes) option"
  se_hangup :: "transport_error \<Rightarrow> 'c \<Rightarrow> 'c \<times> (transport_error + bytes) option"

subsection \<open>The abstract byte stream\<close>

record stream =
  s_buf :: bytes         \<comment> \<open>arrived and not yet read\<close>
  s_want :: "nat option" \<comment> \<open>what the pending reader waits for\<close>
  s_up :: bool
  s_sent :: bytes        \<comment> \<open>handed to the socket\<close>

definition spec_recv :: "nat \<Rightarrow> stream \<Rightarrow> stream \<times> recv_result" where
  "spec_recv n s =
     (if n \<le> length (s_buf s) then (s\<lparr>s_buf := drop n (s_buf s)\<rparr>, Now (take n (s_buf s)))
      else if \<not> s_up s then (s, Fail connection_closed)
      else (s\<lparr>s_want := Some n\<rparr>, Pending))"

definition spec_arrive :: "bytes \<Rightarrow> stream \<Rightarrow> stream \<times> (transport_error + bytes) option" where
  "spec_arrive d s = (case s_want s of
     None \<Rightarrow> (s\<lparr>s_buf := s_buf s @ d\<rparr>, None)
   | Some n \<Rightarrow>
       if length (s_buf s @ d) < n then (s\<lparr>s_buf := s_buf s @ d\<rparr>, None)
       else (s\<lparr>s_buf := drop n (s_buf s @ d), s_want := None\<rparr>, Some (Inr (take n (s_buf s @ d)))))"

definition spec_hangup ::
    "transport_error \<Rightarrow> stream \<Rightarrow> stream \<times> (transport_error + bytes) option" where
  "spec_hangup e s =
     (s\<lparr>s_up := False, s_want := None\<rparr>, map_option (\<lambda>_. Inl e) (s_want s))"

definition spec_send :: "bytes \<Rightarrow> stream \<Rightarrow> stream \<times> send_result" where
  "spec_send d s = (if s_up s then (s\<lparr>s_sent := s_sent s @ d\<rparr>, SPending) else (s, SFail not_connected))"

lemma spec_arrive_served:
  assumes "spec_arrive d s = (s', Some r)" "s_want s = Some n"
  shows "\<exists>h. r = Inr h \<and> length h = n \<and> s_buf s @ d = h @ s_buf s' \<and> s_want s' = None
    \<and> s_up s' = s_up s"
proof -
  from assms have "r = Inr (take n (s_buf s @ d))" "n \<le> length (s_buf s @ d)"
    "s' = s\<lparr>s_buf := drop n (s_buf s @ d), s_want := None\<rparr>"
    by (auto simp: spec_arrive_def simp del: take_append drop_append split: if_splits)
  then show ?thesis
    by (intro exI [of _ "take n (s_buf s @ d)"]) (simp del: take_append drop_append)
qed

subsection \<open>The contract\<close>

locale stream_connection =
  fixes ic :: "'c iconnection"
    and se :: "'c socket_events"
    and view :: "'c \<Rightarrow> stream"
    and valid :: "'c \<Rightarrow> bool"
  assumes recv_refines: "valid c \<Longrightarrow> s_want (view c) = None \<Longrightarrow> ic_recv ic n c = (c', r) \<Longrightarrow>
            valid c' \<and> spec_recv n (view c) = (view c', r)"
    and arrive_refines: "valid c \<Longrightarrow> se_arrive se d c = (c', a) \<Longrightarrow>
            valid c' \<and> spec_arrive d (view c) = (view c', a)"
    and hangup_refines: "valid c \<Longrightarrow> se_hangup se e c = (c', a) \<Longrightarrow>
            valid c' \<and> spec_hangup e (view c) = (view c', a)"
    and send_refines: "valid c \<Longrightarrow> ic_send ic d c = (c', q) \<Longrightarrow>
            valid c' \<and> spec_send d (view c) = (view c', q)"
    and close_refines: "valid c \<Longrightarrow> valid (ic_close ic c) \<and>
            view (ic_close ic c) = (view c)\<lparr>s_up := False\<rparr>"
    and connected_refines: "valid c \<Longrightarrow> ic_isConnected ic c = s_up (view c)"

text \<open>The laws as rewriting rules for the view of the next state.\<close>

context stream_connection
begin

lemma recv_view:
  assumes "valid c" "s_want (view c) = None" "ic_recv ic n c = (c', r)"
  shows "valid c'" "view c' = fst (spec_recv n (view c))" "r = snd (spec_recv n (view c))"
  using recv_refines [OF assms] by (auto simp: prod_eq_iff)

lemma arrive_view:
  assumes "valid c" "se_arrive se d c = (c', a)"
  shows "valid c'" "view c' = fst (spec_arrive d (view c))" "a = snd (spec_arrive d (view c))"
  using arrive_refines [OF assms] by (auto simp: prod_eq_iff)

lemma hangup_view:
  assumes "valid c" "se_hangup se e c = (c', a)"
  shows "valid c'" "view c' = fst (spec_hangup e (view c))" "a = snd (spec_hangup e (view c))"
  using hangup_refines [OF assms] by (auto simp: prod_eq_iff)

lemma send_view:
  assumes "valid c" "ic_send ic d c = (c', q)"
  shows "valid c'" "view c' = fst (spec_send d (view c))" "q = snd (spec_send d (view c))"
  using send_refines [OF assms] by (auto simp: prod_eq_iff)

end

end
