(* ===== verification/Transport.thy ===== *)
theory Transport
  imports Connection_Interface "HOL-Library.Multiset"
begin

section \<open>Unix socket connections\<close>

text \<open>
  The class \<open>UnixSocketConnection\<close> of \<open>sdk/js/src/transport/unix-socket.ts\<close> and the error
  type of \<open>transport/types.ts\<close>. A connection is a buffer of bytes that arrived, a connected
  flag and the queue of \<open>recv\<close> promises that still wait. The socket itself belongs to Node:
  its events (\<open>data\<close>, \<open>close\<close>, \<open>error\<close>, a completed \<open>write\<close>) are inputs of the model, and
  what the code does to it (\<open>write\<close>, \<open>destroy\<close>) and to its promises and callbacks is emitted
  as a list of effects, in the order the code performs them. A promise is named by a token
  that the caller of \<open>recv\<close> or \<open>send\<close> chooses.
\<close>

subsection \<open>Data\<close>

text \<open>Node's \<open>ErrnoException\<close>: an error whose \<open>code\<close> may be absent.\<close>

record errno_exception =
  errno_message :: string
  errno_code :: "string option"

record waiter =
  need :: nat
  token :: nat

record unix_conn =
  buffer :: bytes
  connected :: bool
  waiters :: "waiter list"
  onDisconnect :: bool \<comment> \<open>whether the owner has set the callback\<close>

datatype effect =
    Resolve nat bytes             \<comment> \<open>a \<open>recv\<close> promise resolves with bytes\<close>
  | Reject nat transport_error    \<comment> \<open>a \<open>recv\<close> promise rejects\<close>
  | SendOk nat                    \<comment> \<open>a \<open>send\<close> promise resolves\<close>
  | SendFail nat transport_error  \<comment> \<open>a \<open>send\<close> promise rejects\<close>
  | SocketWrite nat bytes         \<comment> \<open>\<open>socket.write(data, cb)\<close>\<close>
  | SocketDestroy                 \<comment> \<open>\<open>socket.destroy()\<close>\<close>
  | CallOnDisconnect              \<comment> \<open>the owner's callback runs\<close>

definition wrap_errno :: "errno_exception \<Rightarrow> transport_error" where
  "wrap_errno e = TransportError (errno_message e)
     (case errno_code e of Some c \<Rightarrow> c | None \<Rightarrow> ''EUNKNOWN'')"

subsection \<open>Operations\<close>

text \<open>The connection the constructor makes, on \<open>connect\<close> as on \<open>fromSocket\<close>.\<close>

definition new_connection :: unix_conn where
  "new_connection = \<lparr>buffer = [], connected = True, waiters = [], onDisconnect = False\<rparr>"

text \<open>\<open>fromSocket\<close>, of a socket that is connected.\<close>

definition fromSocket :: unix_conn where
  "fromSocket = new_connection"

text \<open>
  \<open>UnixSocketConnection.connect\<close>: its promise is settled by the first of the socket's events, the
  callback of \<open>createConnection\<close> or an error, and by no later one.
\<close>

datatype socket_opening = SocketConnected | SocketFailed errno_exception

fun connect_socket :: "socket_opening list \<Rightarrow> (errno_exception + unix_conn) option" where
  "connect_socket [] = None"
| "connect_socket (SocketConnected # es) = Some (Inr new_connection)"
| "connect_socket (SocketFailed err # es) = Some (Inl err)"

definition splice :: "nat \<Rightarrow> unix_conn \<Rightarrow> bytes \<times> unix_conn" where
  "splice n c = (take n (buffer c), c\<lparr>buffer := drop n (buffer c)\<rparr>)"

function drainWaiters :: "unix_conn \<Rightarrow> unix_conn \<times> effect list" where
  "drainWaiters c =
     (case waiters c of
        [] \<Rightarrow> (c, [])
      | w # ws \<Rightarrow>
          if length (buffer c) < need w then (c, [])
          else (let (out, c1) = splice (need w) (c\<lparr>waiters := ws\<rparr>);
                    (c2, es) = drainWaiters c1
                in (c2, Resolve (token w) out # es)))"
  by pat_completeness auto
termination
  by (relation "measure (\<lambda>c. length (waiters c))") (auto simp: splice_def)

declare drainWaiters.simps [simp del]

definition on_data :: "bytes \<Rightarrow> unix_conn \<Rightarrow> unix_conn \<times> effect list" where
  "on_data chunk c = drainWaiters (c\<lparr>buffer := buffer c @ chunk\<rparr>)"

text \<open>What the \<open>close\<close> and \<open>error\<close> handlers share: reject every waiter, run the callback.\<close>

definition fail_waiters :: "transport_error \<Rightarrow> unix_conn \<Rightarrow> unix_conn \<times> effect list" where
  "fail_waiters err c =
     (c\<lparr>connected := False, waiters := []\<rparr>,
      map (\<lambda>w. Reject (token w) err) (waiters c)
        @ (if onDisconnect c then [CallOnDisconnect] else []))"

definition on_close :: "unix_conn \<Rightarrow> unix_conn \<times> effect list" where
  "on_close c = fail_waiters connection_closed c"

definition on_error :: "errno_exception \<Rightarrow> unix_conn \<Rightarrow> unix_conn \<times> effect list" where
  "on_error err c = fail_waiters (wrap_errno err) c"

definition send :: "nat \<Rightarrow> bytes \<Rightarrow> unix_conn \<Rightarrow> unix_conn \<times> effect list" where
  "send t data c =
     (if \<not> connected c then (c, [SendFail t not_connected])
      else (c, [SocketWrite t data]))"

text \<open>The callback of \<open>socket.write\<close>.\<close>

definition write_callback ::
    "nat \<Rightarrow> errno_exception option \<Rightarrow> unix_conn \<Rightarrow> unix_conn \<times> effect list" where
  "write_callback t err c =
     (c, [case err of Some e \<Rightarrow> SendFail t (wrap_errno e) | None \<Rightarrow> SendOk t])"

definition recv :: "nat \<Rightarrow> nat \<Rightarrow> unix_conn \<Rightarrow> unix_conn \<times> effect list" where
  "recv t n c =
     (if n \<le> length (buffer c) then (let (out, c1) = splice n c in (c1, [Resolve t out]))
      else if \<not> connected c then (c, [Reject t connection_closed])
      else (c\<lparr>waiters := waiters c @ [\<lparr>need = n, token = t\<rparr>]\<rparr>, []))"

definition close :: "unix_conn \<Rightarrow> unix_conn \<times> effect list" where
  "close c = (c\<lparr>connected := False\<rparr>, [SocketDestroy])"

definition isConnected :: "unix_conn \<Rightarrow> bool" where
  "isConnected c = connected c"

text \<open>One step per socket event and per call of the class's methods.\<close>

datatype conn_event =
    Data bytes
  | Closed
  | Errored errno_exception
  | Written nat "errno_exception option"
  | DoSend nat bytes
  | DoRecv nat nat \<comment> \<open>token, length\<close>
  | DoClose

fun conn_step :: "conn_event \<Rightarrow> unix_conn \<Rightarrow> unix_conn \<times> effect list" where
  "conn_step (Data chunk) c = on_data chunk c"
| "conn_step Closed c = on_close c"
| "conn_step (Errored e) c = on_error e c"
| "conn_step (Written t e) c = write_callback t e c"
| "conn_step (DoSend t data) c = send t data c"
| "conn_step (DoRecv t n) c = recv t n c"
| "conn_step DoClose c = close c"

abbreviation conn_run :: "conn_event list \<Rightarrow> unix_conn \<Rightarrow> unix_conn \<times> effect list" where
  "conn_run \<equiv> run_steps conn_step"

lemmas [step_defs] =
  on_data_def on_close_def on_error_def fail_waiters_def send_def write_callback_def
  recv_def close_def splice_def Let_def

subsection \<open>Draining\<close>

lemma drainWaiters_Nil [simp]: "waiters c = [] \<Longrightarrow> drainWaiters c = (c, [])"
  by (subst drainWaiters.simps) simp

lemma drainWaiters_short [simp]:
  "waiters c = w # ws \<Longrightarrow> length (buffer c) < need w \<Longrightarrow> drainWaiters c = (c, [])"
  by (subst drainWaiters.simps) simp

lemma drainWaiters_step:
  assumes "waiters c = w # ws" "need w \<le> length (buffer c)"
  shows "drainWaiters c =
    (let (c2, es) = drainWaiters (c\<lparr>waiters := ws, buffer := drop (need w) (buffer c)\<rparr>)
     in (c2, Resolve (token w) (take (need w) (buffer c)) # es))"
  using assms by (subst drainWaiters.simps) (simp add: splice_def Let_def split_def)

text \<open>
  The induction every fact about draining uses: nothing waits, the first waiter needs more
  than is buffered, or it is served and the rest is drained.
\<close>

lemma drain_induct [case_names Done Short Serve]:
  assumes "\<And>c. waiters c = [] \<Longrightarrow> P c"
    and "\<And>c w ws. waiters c = w # ws \<Longrightarrow> length (buffer c) < need w \<Longrightarrow> P c"
    and "\<And>c w ws. waiters c = w # ws \<Longrightarrow> need w \<le> length (buffer c) \<Longrightarrow>
           P (c\<lparr>waiters := ws, buffer := drop (need w) (buffer c)\<rparr>) \<Longrightarrow> P c"
  shows "P c"
proof (induction "length (waiters c)" arbitrary: c)
  case 0
  then show ?case by (intro assms(1)) simp
next
  case (Suc n)
  then obtain w ws where w: "waiters c = w # ws" by (cases "waiters c") auto
  with Suc have "P (c\<lparr>waiters := ws, buffer := drop (need w) (buffer c)\<rparr>)" by simp
  with w show ?case
    by (cases "length (buffer c) < need w") (auto intro: assms(2,3))
qed

lemma drain_conserved:
  "drainWaiters c = (c', es) \<Longrightarrow>
   concat (map (\<lambda>e. case e of Resolve t bs \<Rightarrow> bs | _ \<Rightarrow> []) es) @ buffer c' = buffer c"
  by (induction c arbitrary: c' es rule: drain_induct)
    (auto simp: drainWaiters_step Let_def split: prod.splits)

text \<open>The queue is served from its front, in order, each waiter with as many bytes as it asked for.\<close>

lemma drain_fifo:
  "drainWaiters c = (c', es) \<Longrightarrow>
   \<exists>served. waiters c = served @ waiters c' \<and>
     list_all2 (\<lambda>w e. \<exists>bs. e = Resolve (token w) bs \<and> length bs = need w) served es"
proof (induction c arbitrary: c' es rule: drain_induct)
  case (Serve c w ws)
  let ?c1 = "c\<lparr>waiters := ws, buffer := drop (need w) (buffer c)\<rparr>"
  obtain es1 where d: "drainWaiters ?c1 = (c', es1)"
    and es: "es = Resolve (token w) (take (need w) (buffer c)) # es1"
    using Serve.prems by (auto simp: drainWaiters_step [OF Serve.hyps(1,2)] Let_def split: prod.splits)
  from Serve.IH [OF d] obtain served where
    s: "ws = served @ waiters c'"
      "list_all2 (\<lambda>w e. \<exists>bs. e = Resolve (token w) bs \<and> length bs = need w) served es1"
    by auto
  show ?case
    by (rule exI [of _ "w # served"]) (use s es Serve.hyps in auto)
qed auto

lemma drain_connected: "drainWaiters c = (c', es) \<Longrightarrow> connected c' = connected c"
  by (induction c arbitrary: c' es rule: drain_induct)
    (fastforce simp: drainWaiters_step Let_def split: prod.splits)+

lemma drain_callback: "drainWaiters c = (c', es) \<Longrightarrow> onDisconnect c' = onDisconnect c"
  by (induction c arbitrary: c' es rule: drain_induct)
    (fastforce simp: drainWaiters_step Let_def split: prod.splits)+

subsection \<open>Invariant: no waiter starves\<close>

text \<open>
  The waiter at the front of the queue always needs more than is buffered: whenever enough
  bytes are there, its promise has been resolved.
\<close>

definition conn_ok :: "unix_conn \<Rightarrow> bool" where
  "conn_ok c \<longleftrightarrow> (case waiters c of [] \<Rightarrow> True | w # _ \<Rightarrow> length (buffer c) < need w)"

lemma conn_ok_new [inv_intros]: "conn_ok new_connection"
  by (simp add: conn_ok_def new_connection_def)

lemma conn_ok_drain [inv_intros]: "conn_ok (fst (drainWaiters c))"
  by (induction c rule: drain_induct)
    (auto simp: conn_ok_def drainWaiters_step Let_def split_def)

lemma conn_ok_recv [inv_intros]: "conn_ok c \<Longrightarrow> conn_ok (fst (recv t n c))"
  by (auto simp: conn_ok_def step_defs split: list.splits)

lemma conn_ok_fail [inv_intros]: "conn_ok (fst (fail_waiters e c))"
  by (simp add: conn_ok_def fail_waiters_def)

lemma conn_ok_connected [simp]: "conn_ok (c\<lparr>connected := b\<rparr>) = conn_ok c"
  by (simp add: conn_ok_def split: list.split)

lemma conn_ok_step [inv_intros]: "conn_ok c \<Longrightarrow> conn_ok (fst (conn_step e c))"
  by (cases e) (simp_all add: inv_intros on_data_def on_close_def on_error_def send_def
    write_callback_def close_def)

lemma conn_ok_run: "conn_ok c \<Longrightarrow> conn_ok (fst (conn_run es c))"
  by (rule run_steps_invariant) (rule conn_ok_step)

text \<open>Draining after two chunks is draining after both.\<close>

lemma drain_more:
  "drainWaiters (c\<lparr>buffer := buffer c @ xs\<rparr>) =
     (let (c1, es1) = drainWaiters c; (c2, es2) = drainWaiters (c1\<lparr>buffer := buffer c1 @ xs\<rparr>)
      in (c2, es1 @ es2))"
proof (induction c rule: drain_induct)
  case (Serve c w ws)
  let ?c = "c\<lparr>waiters := ws, buffer := drop (need w) (buffer c)\<rparr>"
  have "drainWaiters (c\<lparr>buffer := buffer c @ xs\<rparr>)
    = (let (c2, es) = drainWaiters (?c\<lparr>buffer := buffer ?c @ xs\<rparr>)
       in (c2, Resolve (token w) (take (need w) (buffer c)) # es))"
    using Serve by (subst drainWaiters_step [of _ w ws]) (simp_all add: Let_def split_def)
  with Serve show ?case
    by (subst drainWaiters_step [of c w ws]) (simp_all add: Let_def split_def)
qed simp_all

lemma conn_ok_drained: "conn_ok c \<Longrightarrow> drainWaiters c = (c, [])"
  by (cases "waiters c") (simp_all add: conn_ok_def)

lemma data_chunks:
  assumes "conn_ok c"
  shows "conn_run (map Data chunks) c = on_data (concat chunks) c"
  using assms
proof (induction chunks arbitrary: c)
  case Nil
  then show ?case by (simp add: on_data_def conn_ok_drained)
next
  case (Cons x chunks)
  obtain c1 o1 where x: "on_data x c = (c1, o1)" by fastforce
  then have "conn_ok c1" using conn_ok_step [OF Cons.prems, of "Data x"] by simp
  from Cons.IH [OF this] x drain_more [of "c\<lparr>buffer := buffer c @ x\<rparr>" "concat chunks"]
  show ?case by (simp add: on_data_def Let_def split_def)
qed

subsection \<open>The byte stream\<close>

text \<open>What the socket delivered, and what the \<open>recv\<close> promises were resolved with.\<close>

definition event_bytes :: "conn_event \<Rightarrow> bytes" where
  "event_bytes e = (case e of Data d \<Rightarrow> d | _ \<Rightarrow> [])"

definition delivered :: "effect list \<Rightarrow> bytes" where
  "delivered es = concat (map (\<lambda>e. case e of Resolve t bs \<Rightarrow> bs | _ \<Rightarrow> []) es)"

lemma delivered_append [simp]: "delivered (xs @ ys) = delivered xs @ delivered ys"
  by (simp add: delivered_def)

lemma delivered_Nil [simp]: "delivered [] = []"
  by (simp add: delivered_def)

lemma delivered_rejects [simp]: "delivered (map (\<lambda>w. Reject (f w) e) ws) = []"
  by (induction ws) (simp_all add: delivered_def)

lemma conn_step_conserved:
  "buffer c @ event_bytes e = delivered (snd (conn_step e c)) @ buffer (fst (conn_step e c))"
proof (cases e)
  case (Data d)
  obtain c' es where d: "drainWaiters (c\<lparr>buffer := buffer c @ d\<rparr>) = (c', es)" by fastforce
  from drain_conserved [OF d] d Data show ?thesis
    by (simp add: on_data_def event_bytes_def delivered_def)
next
  case Closed
  then show ?thesis by (simp add: step_defs event_bytes_def) (simp add: delivered_def)
next
  case (Errored x)
  then show ?thesis by (simp add: step_defs event_bytes_def) (simp add: delivered_def)
qed (auto simp: step_defs event_bytes_def delivered_def split: option.splits)

lemma conn_run_conserved:
  "buffer c @ concat (map event_bytes es) = delivered (snd (conn_run es c)) @ buffer (fst (conn_run es c))"
  by (rule run_steps_conserved [where \<phi> = buffer]) (simp_all add: conn_step_conserved)

subsection \<open>Settlement of the promises\<close>

definition recv_token :: "conn_event \<Rightarrow> nat multiset" where
  "recv_token e = (case e of DoRecv t n \<Rightarrow> {#t#} | _ \<Rightarrow> {#})"

definition settled :: "effect list \<Rightarrow> nat multiset" where
  "settled es = mset (concat (map (\<lambda>e. case e of Resolve t bs \<Rightarrow> [t] | Reject t x \<Rightarrow> [t] | _ \<Rightarrow> []) es))"

definition waiting :: "unix_conn \<Rightarrow> nat multiset" where
  "waiting c = mset (map token (waiters c))"

lemma settled_append [simp]: "settled (xs @ ys) = settled xs + settled ys"
  by (simp add: settled_def)

lemma settled_Nil [simp]: "settled [] = {#}"
  by (simp add: settled_def)

lemma settled_rejects [simp]: "settled (map (\<lambda>w. Reject (f w) e) ws) = mset (map f ws)"
  by (induction ws) (simp_all add: settled_def)

lemma drain_settled: "drainWaiters c = (c', es) \<Longrightarrow> waiting c = settled es + waiting c'"
  by (induction c arbitrary: c' es rule: drain_induct)
    (auto simp: drainWaiters_step Let_def waiting_def settled_def split: prod.splits)

lemma conn_step_settled:
  "waiting c + recv_token e = settled (snd (conn_step e c)) + waiting (fst (conn_step e c))"
proof (cases e)
  case (Data d)
  obtain c' es where d: "drainWaiters (c\<lparr>buffer := buffer c @ d\<rparr>) = (c', es)" by fastforce
  from drain_settled [OF d] d Data show ?thesis
    by (simp add: on_data_def recv_token_def waiting_def)
next
  case Closed
  then show ?thesis by (simp add: step_defs recv_token_def) (simp add: settled_def waiting_def)
next
  case (Errored x)
  then show ?thesis by (simp add: step_defs recv_token_def) (simp add: settled_def waiting_def)
qed (auto simp: step_defs recv_token_def settled_def waiting_def split: option.splits)

lemma conn_run_settled:
  "waiting c + sum_list (map recv_token es)
     = settled (snd (conn_run es c)) + waiting (fst (conn_run es c))"
  by (rule run_steps_balance [where \<phi> = waiting]) (simp_all add: conn_step_settled)

subsection \<open>The connection as the provider of the stream contract\<close>

text \<open>
  A connection with the log of the effects it has produced, used under a token for its \<open>recv\<close>
  and \<open>send\<close> promises; what an operation did to its promise is read off the effects it emitted.
  The single reader of the framing layer uses token 0.
\<close>

type_synonym logged_conn = "unix_conn \<times> effect list"

definition recv_result_of :: "effect list \<Rightarrow> recv_result" where
  "recv_result_of es = (case es of
     Resolve t bs # _ \<Rightarrow> Now bs | Reject t e # _ \<Rightarrow> Fail e | _ \<Rightarrow> Pending)"

definition send_result_of :: "effect list \<Rightarrow> send_result" where
  "send_result_of es = (case es of SendFail t e # _ \<Rightarrow> SFail e | _ \<Rightarrow> SPending)"

definition settlement_of :: "effect list \<Rightarrow> (transport_error + bytes) option" where
  "settlement_of es = (case es of
     Resolve t bs # _ \<Rightarrow> Some (Inr bs) | Reject t e # _ \<Rightarrow> Some (Inl e) | _ \<Rightarrow> None)"

definition logged ::
    "(unix_conn \<Rightarrow> unix_conn \<times> effect list) \<Rightarrow> (effect list \<Rightarrow> 'r) \<Rightarrow> logged_conn \<Rightarrow> logged_conn \<times> 'r" where
  "logged f g c = (let (c1, es) = f (fst c) in ((c1, snd c @ es), g es))"

definition token_iconnection :: "nat \<Rightarrow> logged_conn iconnection" where
  "token_iconnection t = \<lparr>
     ic_send = (\<lambda>d. logged (send t d) send_result_of),
     ic_recv = (\<lambda>n. logged (recv t n) recv_result_of),
     ic_close = (\<lambda>c. fst (logged close (\<lambda>_. ()) c)),
     ic_isConnected = (\<lambda>c. isConnected (fst c))\<rparr>"

definition unix_iconnection :: "logged_conn iconnection" where
  "unix_iconnection = token_iconnection 0"

definition unix_events :: "logged_conn socket_events" where
  "unix_events = \<lparr>
     se_arrive = (\<lambda>d. logged (on_data d) settlement_of),
     se_hangup = (\<lambda>e. logged (fail_waiters e) settlement_of)\<rparr>"

definition written :: "effect list \<Rightarrow> bytes" where
  "written es = concat (map (\<lambda>e. case e of SocketWrite t d \<Rightarrow> d | _ \<Rightarrow> []) es)"

definition unix_view :: "logged_conn \<Rightarrow> stream" where
  "unix_view c = \<lparr>s_buf = buffer (fst c),
     s_want = (case waiters (fst c) of [] \<Rightarrow> None | w # _ \<Rightarrow> Some (need w)),
     s_up = connected (fst c), s_sent = written (snd c)\<rparr>"

text \<open>At most one \<open>recv\<close> is outstanding, and it waits only while it has to.\<close>

definition single_reader :: "logged_conn \<Rightarrow> bool" where
  "single_reader c \<longleftrightarrow> conn_ok (fst c) \<and> length (waiters (fst c)) \<le> 1"

lemma written_simps [simp]:
  "written [] = []" "written (SocketWrite t d # es) = d @ written es"
  "written (Resolve t d # es) = written es" "written (Reject t e # es) = written es"
  "written (SendFail t e # es) = written es" "written (SendOk t # es) = written es"
  "written (SocketDestroy # es) = written es" "written (CallOnDisconnect # es) = written es"
  "written (es @ fs) = written es @ written fs"
  by (simp_all add: written_def)

lemmas provider_defs =
  unix_iconnection_def token_iconnection_def unix_events_def unix_view_def single_reader_def logged_def
  recv_result_of_def send_result_of_def settlement_of_def

text \<open>A queue of at most one waiter drains in one step.\<close>

lemma drain_single:
  assumes "waiters c = [w]"
  shows "drainWaiters c =
    (if length (buffer c) < need w then (c, [])
     else (c\<lparr>waiters := [], buffer := drop (need w) (buffer c)\<rparr>,
           [Resolve (token w) (take (need w) (buffer c))]))"
  using assms by (auto simp: drainWaiters_step not_less)

lemma single_waiter_cases:
  assumes "length (waiters c) \<le> 1"
  obtains "waiters c = []" | w where "waiters c = [w]"
  using assms by (cases "waiters c") auto

interpretation by_token: stream_connection "token_iconnection t" unix_events unix_view single_reader for t
proof
  fix c n c' r
  assume "single_reader c" "s_want (unix_view c) = None" "ic_recv (token_iconnection t) n c = (c', r)"
  then show "single_reader c' \<and> spec_recv n (unix_view c) = (unix_view c', r)"
    by (auto simp: provider_defs spec_recv_def recv_def splice_def conn_ok_def Let_def
      split: list.splits if_splits)
next
  fix c d c' a
  assume "single_reader c" "se_arrive unix_events d c = (c', a)"
  moreover from this(1) have "length (waiters (fst c)) \<le> 1" by (simp add: single_reader_def)
  ultimately show "single_reader c' \<and> spec_arrive d (unix_view c) = (unix_view c', a)"
    by (elim single_waiter_cases)
      (auto simp: provider_defs spec_arrive_def on_data_def drain_single conn_ok_def split: if_splits)
next
  fix c e c' a
  assume "single_reader c" "se_hangup unix_events e c = (c', a)"
  moreover from this(1) have "length (waiters (fst c)) \<le> 1" by (simp add: single_reader_def)
  ultimately show "single_reader c' \<and> spec_hangup e (unix_view c) = (unix_view c', a)"
    by (elim single_waiter_cases)
      (auto simp: provider_defs spec_hangup_def fail_waiters_def conn_ok_def split: if_splits)
next
  fix c d c' q
  assume "single_reader c" "ic_send (token_iconnection t) d c = (c', q)"
  then show "single_reader c' \<and> spec_send d (unix_view c) = (unix_view c', q)"
    by (auto simp: provider_defs spec_send_def send_def split: if_splits)
qed (auto simp: provider_defs close_def isConnected_def)

interpretation unix: stream_connection unix_iconnection unix_events unix_view single_reader
  unfolding unix_iconnection_def by (rule by_token.stream_connection_axioms)

subsection \<open>Properties\<close>

text \<open>
  C18. The connection is a byte stream: whatever the interleaving of socket events and calls,
  the bytes the \<open>recv\<close> promises resolved with, in the order they resolved, followed by
  what is still buffered, are exactly the bytes the socket delivered. Nothing is lost,
  duplicated or reordered.
\<close>

theorem transport_stream_conserved:
  "delivered (snd (conn_run es new_connection)) @ buffer (fst (conn_run es new_connection))
     = concat (map event_bytes es)"
  using conn_run_conserved [of new_connection es] by (simp add: new_connection_def)

text \<open>
  Every \<open>recv\<close> promise is settled once: the tokens of all \<open>recv\<close> calls are those whose
  promise was resolved or rejected plus those still waiting; a waiting promise needs more
  bytes than are buffered (for the first in the queue); and after the socket's close event
  nothing waits any more.
\<close>

lemma transport_settles_once:
  "sum_list (map recv_token es)
     = settled (snd (conn_run es new_connection)) + waiting (fst (conn_run es new_connection))
   \<and> conn_ok (fst (conn_run es new_connection))
   \<and> waiting (fst (conn_run (es @ [Closed]) new_connection)) = {#}"
proof (intro conjI)
  show "sum_list (map recv_token es)
     = settled (snd (conn_run es new_connection)) + waiting (fst (conn_run es new_connection))"
    using conn_run_settled [of new_connection es] by (simp add: new_connection_def waiting_def)
  show "conn_ok (fst (conn_run es new_connection))"
    by (simp add: conn_ok_run conn_ok_new)
  show "waiting (fst (conn_run (es @ [Closed]) new_connection)) = {#}"
    by (simp add: run_steps_append Let_def split_def step_defs waiting_def)
qed

text \<open>
  C29. How the socket cuts the stream does not matter: in any state a connection can reach, a
  run of chunks has exactly the effects, in order, and leaves exactly the state of one chunk
  with all their bytes.
\<close>

theorem chunking_irrelevant:
  "conn_run (map Data chunks) (fst (conn_run es new_connection))
     = on_data (concat chunks) (fst (conn_run es new_connection))"
  by (rule data_chunks [OF conn_ok_run [OF conn_ok_new]])

end
