(* ===== verification/Wire_Constants.thy ===== *)
theory Wire_Constants
  imports Prelude
begin

section \<open>The enums of the wire protocol\<close>

text \<open>
  The three enums of \<open>proto/ibridger\<close> as \<open>sdk/js/src/generated/proto.js\<close> builds them: an
  object from names to numbers whose prototype maps numbers back to names. Each is the list of
  its entries; \<open>enum_value\<close> is a read of the object by name, \<open>enum_name\<close> a read by number.
  Numbers are 32-bit, as protobuf enums are on the wire.
\<close>

type_synonym enum = "(string \<times> u32) list"

definition enum_value :: "enum \<Rightarrow> string \<Rightarrow> u32 option" where
  "enum_value e n = map_of e n"

definition enum_name :: "enum \<Rightarrow> u32 \<Rightarrow> string option" where
  "enum_name e v = map_of (map (\<lambda>(n, v). (v, n)) e) v"

definition MessageType :: enum where
  "MessageType = [(''REQUEST'', 0), (''RESPONSE'', 1), (''EVENT'', 2), (''ERROR'', 3)]"

definition StatusCode :: enum where
  "StatusCode =
     [(''OK'', 0), (''UNKNOWN_ERROR'', 1), (''NOT_FOUND'', 2), (''INVALID_ARGUMENT'', 3),
      (''INTERNAL'', 4), (''TIMEOUT'', 5)]"

definition WireConstant :: enum where
  "WireConstant =
     [(''WIRE_CONSTANT_UNSPECIFIED'', 0), (''MAX_FRAME_SIZE'', 16777216),
      (''DEFAULT_TIMEOUT_MS'', 30000)]"

text \<open>The members the code names.\<close>

abbreviation REQUEST :: u32 where "REQUEST \<equiv> 0"
abbreviation RESPONSE :: u32 where "RESPONSE \<equiv> 1"
abbreviation ERROR :: u32 where "ERROR \<equiv> 3"
abbreviation OK :: u32 where "OK \<equiv> 0"
abbreviation NOT_FOUND :: u32 where "NOT_FOUND \<equiv> 2"
abbreviation INTERNAL :: u32 where "INTERNAL \<equiv> 4"

definition MAX_FRAME_SIZE :: nat where
  "MAX_FRAME_SIZE = unat (the (enum_value WireConstant ''MAX_FRAME_SIZE''))"

definition DEFAULT_TIMEOUT_MS :: nat where
  "DEFAULT_TIMEOUT_MS = unat (the (enum_value WireConstant ''DEFAULT_TIMEOUT_MS''))"

lemma MAX_FRAME_SIZE_value: "MAX_FRAME_SIZE = 16777216"
  by (simp add: MAX_FRAME_SIZE_def enum_value_def WireConstant_def)

lemma DEFAULT_TIMEOUT_MS_value: "DEFAULT_TIMEOUT_MS = 30000"
  by (simp add: DEFAULT_TIMEOUT_MS_def enum_value_def WireConstant_def)

text \<open>The named members are the enum's entries.\<close>

lemma enum_members:
  "enum_value MessageType ''REQUEST'' = Some REQUEST"
  "enum_value MessageType ''RESPONSE'' = Some RESPONSE"
  "enum_value MessageType ''ERROR'' = Some ERROR"
  "enum_value StatusCode ''OK'' = Some OK"
  "enum_value StatusCode ''NOT_FOUND'' = Some NOT_FOUND"
  "enum_value StatusCode ''INTERNAL'' = Some INTERNAL"
  by (simp_all add: enum_value_def MessageType_def StatusCode_def)

text \<open>Where names and numbers are both distinct, reading by name and by number are inverse.\<close>

definition enum_ok :: "enum \<Rightarrow> bool" where
  "enum_ok e \<longleftrightarrow> distinct (map fst e) \<and> distinct (map snd e)"

lemma enum_inverse:
  assumes "enum_ok e"
  shows "enum_value e n = Some v \<longleftrightarrow> enum_name e v = Some n"
proof -
  have "distinct (map fst (map (\<lambda>(n, v). (v, n)) e))"
    using assms by (simp add: enum_ok_def comp_def split_def)
  moreover have "distinct (map fst e)" using assms by (simp add: enum_ok_def)
  ultimately show ?thesis
    by (auto simp: enum_value_def enum_name_def)
qed

lemma enums_ok: "enum_ok MessageType" "enum_ok StatusCode" "enum_ok WireConstant"
  by (simp_all add: enum_ok_def MessageType_def StatusCode_def WireConstant_def)

end
