(* ===== verification/Framing.thy ===== *)
theory Framing
  imports Transport Wire_Constants
begin

section \<open>Length-prefixed frames\<close>

text \<open>
  The class \<open>FramedConnection\<close> of \<open>sdk/js/src/protocol/framing.ts\<close>, over any connection
  with the interface \<open>IConnection\<close> of \<open>transport/types.ts\<close>. An \<open>async\<close> method runs until it
  awaits a promise that is not settled; it then returns \<open>Blocked\<close> (or \<open>SBlocked\<close>) with the
  point where it stopped, and the \<open>_resume\<close> function continues it from there with the
  promise's outcome.
\<close>

subsection \<open>The header\<close>

definition writeUInt32BE :: "nat \<Rightarrow> bytes" where
  "writeUInt32BE n =
     [of_nat (n div 2 ^ 24), of_nat (n div 2 ^ 16), of_nat (n div 2 ^ 8), of_nat n]"

text \<open>\<open>readUInt32BE\<close> throws a \<open>RangeError\<close> on a buffer of less than four bytes (\<open>None\<close>).\<close>

definition readUInt32BE :: "bytes \<Rightarrow> nat option" where
  "readUInt32BE bs = (case bs of
     b0 # b1 # b2 # b3 # _ \<Rightarrow>
       Some (unat b0 * 2 ^ 24 + unat b1 * 2 ^ 16 + unat b2 * 2 ^ 8 + unat b3)
   | _ \<Rightarrow> None)"

definition range_error :: transport_error where
  "range_error = TransportError ''Attempt to access memory outside buffer bounds''
     ''ERR_BUFFER_OUT_OF_BOUNDS''"

definition frame_too_large :: "string \<Rightarrow> nat \<Rightarrow> transport_error" where
  "frame_too_large what n =
     TransportError (what @ show_nat n @ '' > '' @ show_nat MAX_FRAME_SIZE) ''EMSGSIZE''"

subsection \<open>sendFrame\<close>

datatype send_point = SentHeader bytes | SentBody
datatype send_outcome = SDone | SThrew transport_error | SBlocked send_point

definition await_send :: "send_point \<Rightarrow> 'c \<times> send_result \<Rightarrow> 'c \<times> send_outcome" where
  "await_send k r = (case r of (c, SFail e) \<Rightarrow> (c, SThrew e) | (c, SPending) \<Rightarrow> (c, SBlocked k))"

definition sendFrame :: "'c iconnection \<Rightarrow> bytes \<Rightarrow> 'c \<Rightarrow> 'c \<times> send_outcome" where
  "sendFrame ic data c =
     (if length data > MAX_FRAME_SIZE
      then (c, SThrew (frame_too_large ''Frame too large: '' (length data)))
      else await_send (SentHeader data) (ic_send ic (writeUInt32BE (length data)) c))"

definition sendFrame_resume ::
    "'c iconnection \<Rightarrow> send_point \<Rightarrow> transport_error option \<Rightarrow> 'c \<Rightarrow> 'c \<times> send_outcome" where
  "sendFrame_resume ic k err c =
     (case err of
        Some e \<Rightarrow> (c, SThrew e)
      | None \<Rightarrow> (case k of
          SentHeader data \<Rightarrow>
            if length data > 0 then await_send SentBody (ic_send ic data c) else (c, SDone)
        | SentBody \<Rightarrow> (c, SDone)))"

text \<open>The whole call, when its writes settle with the outcomes \<open>rs\<close>, one after the other.\<close>

fun send_all ::
    "'c iconnection \<Rightarrow> transport_error option list \<Rightarrow> 'c \<times> send_outcome \<Rightarrow> 'c \<times> send_outcome" where
  "send_all ic (r # rs) (c, SBlocked k) = send_all ic rs (sendFrame_resume ic k r c)"
| "send_all ic rs x = x"

subsection \<open>recvFrame\<close>

datatype recv_point = AwaitHeader | AwaitPayload
datatype recv_outcome = Got bytes | Threw transport_error | Blocked recv_point

definition recv_payload :: "'c \<times> recv_result \<Rightarrow> 'c \<times> recv_outcome" where
  "recv_payload r = (case r of
     (c, Now bs) \<Rightarrow> (c, Got bs)
   | (c, Fail e) \<Rightarrow> (c, Threw e)
   | (c, Pending) \<Rightarrow> (c, Blocked AwaitPayload))"

definition recv_header :: "'c iconnection \<Rightarrow> bytes \<Rightarrow> 'c \<Rightarrow> 'c \<times> recv_outcome" where
  "recv_header ic header c = (case readUInt32BE header of
     None \<Rightarrow> (c, Threw range_error)
   | Some len \<Rightarrow>
       if len > MAX_FRAME_SIZE
       then (c, Threw (frame_too_large ''Incoming frame too large: '' len))
       else if len = 0 then (c, Got [])
       else recv_payload (ic_recv ic len c))"

definition recvFrame :: "'c iconnection \<Rightarrow> 'c \<Rightarrow> 'c \<times> recv_outcome" where
  "recvFrame ic c = (case ic_recv ic 4 c of
     (c1, Now header) \<Rightarrow> recv_header ic header c1
   | (c1, Fail e) \<Rightarrow> (c1, Threw e)
   | (c1, Pending) \<Rightarrow> (c1, Blocked AwaitHeader))"

definition recvFrame_resume ::
    "'c iconnection \<Rightarrow> recv_point \<Rightarrow> transport_error + bytes \<Rightarrow> 'c \<Rightarrow> 'c \<times> recv_outcome" where
  "recvFrame_resume ic k r c = (case r of
     Inl e \<Rightarrow> (c, Threw e)
   | Inr bs \<Rightarrow> (case k of AwaitHeader \<Rightarrow> recv_header ic bs c | AwaitPayload \<Rightarrow> (c, Got bs)))"

definition framed_close :: "'c iconnection \<Rightarrow> 'c \<Rightarrow> 'c" where
  "framed_close ic c = ic_close ic c"

definition framed_isConnected :: "'c iconnection \<Rightarrow> 'c \<Rightarrow> bool" where
  "framed_isConnected ic c = ic_isConnected ic c"

subsection \<open>The wire image of a frame\<close>

definition encode_frame :: "bytes \<Rightarrow> bytes" where
  "encode_frame data = writeUInt32BE (length data) @ data"

definition frame_ok :: "bytes \<Rightarrow> bool" where
  "frame_ok data \<longleftrightarrow> length data \<le> MAX_FRAME_SIZE"

lemma length_writeUInt32BE [simp]: "length (writeUInt32BE n) = 4"
  by (simp add: writeUInt32BE_def)

lemma unat_byte: "unat (of_nat n :: byte) = n mod 256"
  by (simp add: unat_of_nat)

lemma read_writeUInt32BE:
  assumes "n < 2 ^ 32"
  shows "readUInt32BE (writeUInt32BE n @ bs) = Some n"
proof -
  define a b d where "a = n div 256" and "b = a div 256" and "d = b div 256"
  have "n = a * 256 + n mod 256" "a = b * 256 + a mod 256" "b = d * 256 + b mod 256"
    by (simp_all add: a_def b_def d_def)
  then have "d * 16777216 + b mod 256 * 65536 + a mod 256 * 256 + n mod 256 = n"
    by linarith
  moreover have "d mod 256 = d" using assms by (simp add: a_def b_def d_def div_mult2_eq)
  moreover have "n div 16777216 = d" "n div 65536 = b" "n div 256 = a"
    by (simp_all add: a_def b_def d_def div_mult2_eq)
  ultimately show ?thesis
    by (simp add: readUInt32BE_def writeUInt32BE_def unat_byte)
qed

lemma writeUInt32BE_inj:
  assumes "writeUInt32BE m @ xs = writeUInt32BE n @ ys" "m < 2 ^ 32" "n < 2 ^ 32"
  shows "m = n \<and> xs = ys"
proof -
  have "Some m = Some n"
    using read_writeUInt32BE [OF assms(2), of xs] read_writeUInt32BE [OF assms(3), of ys] assms(1)
    by simp
  with assms(1) show ?thesis by simp
qed

lemma frame_size_lt: "frame_ok f \<Longrightarrow> length f < 2 ^ 32"
  by (simp add: frame_ok_def MAX_FRAME_SIZE_value)

text \<open>
  Frames are self-delimiting: two streams that start with the frames \<open>fs\<close> and \<open>gs\<close> and one of
  which is a prefix of the other agree on their common frames.
\<close>

lemma encode_frame_cancel:
  assumes "encode_frame f @ xs = encode_frame g @ ys" "frame_ok f" "frame_ok g"
  shows "f = g \<and> xs = ys"
proof -
  have "writeUInt32BE (length f) @ (f @ xs) = writeUInt32BE (length g) @ (g @ ys)"
    using assms(1) by (simp add: encode_frame_def)
  from writeUInt32BE_inj [OF this] assms(2,3) have "length f = length g" "f @ xs = g @ ys"
    by (simp_all add: frame_size_lt [simplified])
  then show ?thesis by simp
qed

lemma encode_frames_prefix:
  assumes "concat (map encode_frame fs) @ rest = concat (map encode_frame gs)"
    and "list_all frame_ok fs" "list_all frame_ok gs"
  shows "\<exists>hs. gs = fs @ hs \<and> rest = concat (map encode_frame hs)"
  using assms
proof (induction fs arbitrary: gs)
  case (Cons f fs)
  then obtain g gs' where gs: "gs = g # gs'"
    by (cases gs) (auto simp: encode_frame_def writeUInt32BE_def)
  with Cons.prems have "f = g \<and> concat (map encode_frame fs) @ rest = concat (map encode_frame gs')"
    by (intro encode_frame_cancel) simp_all
  with Cons.IH [of gs'] Cons.prems gs show ?case by auto
qed simp

lemma readUInt32BE_4: "length h = 4 \<Longrightarrow> \<exists>n. readUInt32BE h = Some n"
  by (cases h rule: remdups_adj.cases; cases "tl (tl h)" rule: remdups_adj.cases)
    (simp_all add: readUInt32BE_def)

lemma write_readUInt32BE:
  assumes "readUInt32BE h = Some n" "length h = 4"
  shows "h = writeUInt32BE n \<and> n < 2 ^ 32"
proof -
  from assms obtain b0 b1 b2 b3 where h: "h = [b0, b1, b2, b3]"
    by (auto simp: readUInt32BE_def split: list.splits)
  have b: "unat b0 < 256" "unat b1 < 256" "unat b2 < 256" "unat b3 < 256"
    using unsigned_less [of b0] unsigned_less [of b1] unsigned_less [of b2] unsigned_less [of b3] by simp_all
  have n: "n = ((unat b0 * 256 + unat b1) * 256 + unat b2) * 256 + unat b3"
    using assms(1) h by (simp add: readUInt32BE_def)
  with b have d: "n div 256 = (unat b0 * 256 + unat b1) * 256 + unat b2"
    "n div 65536 = unat b0 * 256 + unat b1" "n div 16777216 = unat b0"
    by simp_all
  have w: "of_nat (x * 256 + unat y) = y" for x and y :: byte
  proof -
    have "unat y < 256" using unsigned_less [of y] by simp
    then have "unat (of_nat (x * 256 + unat y) :: byte) = unat y"
      by (simp only: unat_byte) simp
    then show ?thesis by (simp only: word_unat_eq_iff)
  qed
  have "of_nat (n div 16777216) = b0" "of_nat (n div 65536) = b1"
    "of_nat (n div 256) = b2" "of_nat n = b3"
    unfolding d using w by (simp, simp only: w, simp only: w, simp only: n w)
  moreover have "n < 2 ^ 32" using n b by simp
  ultimately show ?thesis using h by (simp add: writeUInt32BE_def)
qed

subsection \<open>A single reader on a connection\<close>

text \<open>
  What the owner of a \<open>FramedConnection\<close> sees: it calls \<open>recvFrame\<close> when no call is
  outstanding and gets a frame, an error, or a promise; the socket's events resume the
  outstanding call. A call that threw ends the reader (the dispatch loop breaks).
\<close>

record 'c reader =
  rd_conn :: 'c
  rd_point :: "recv_point option" \<comment> \<open>where the outstanding call stopped\<close>
  rd_dead :: bool

datatype reader_event = RecvFrame | Arrive bytes | Hangup transport_error

definition reader_note :: "'c \<times> recv_outcome \<Rightarrow> 'c reader \<times> (transport_error + bytes) list" where
  "reader_note r = (case r of
     (c, Got f) \<Rightarrow> (\<lparr>rd_conn = c, rd_point = None, rd_dead = False\<rparr>, [Inr f])
   | (c, Threw e) \<Rightarrow> (\<lparr>rd_conn = c, rd_point = None, rd_dead = True\<rparr>, [Inl e])
   | (c, Blocked k) \<Rightarrow> (\<lparr>rd_conn = c, rd_point = Some k, rd_dead = False\<rparr>, []))"

definition reader_settle ::
    "'c iconnection \<Rightarrow> 'c \<times> (transport_error + bytes) option \<Rightarrow> 'c reader
       \<Rightarrow> 'c reader \<times> (transport_error + bytes) list" where
  "reader_settle ic ca s = (case ca of
     (c, None) \<Rightarrow> (s\<lparr>rd_conn := c\<rparr>, [])
   | (c, Some r) \<Rightarrow> (case rd_point s of
        None \<Rightarrow> (s\<lparr>rd_conn := c\<rparr>, [])
      | Some k \<Rightarrow> reader_note (recvFrame_resume ic k r c)))"

fun reader_step ::
    "'c iconnection \<Rightarrow> 'c socket_events \<Rightarrow> reader_event \<Rightarrow> 'c reader
       \<Rightarrow> 'c reader \<times> (transport_error + bytes) list" where
  "reader_step ic se RecvFrame s =
     (if rd_dead s \<or> rd_point s \<noteq> None then (s, [])
      else reader_note (recvFrame ic (rd_conn s)))"
| "reader_step ic se (Arrive d) s = reader_settle ic (se_arrive se d (rd_conn s)) s"
| "reader_step ic se (Hangup e) s = reader_settle ic (se_hangup se e (rd_conn s)) s"

definition arrived :: "reader_event \<Rightarrow> bytes" where
  "arrived e = (case e of Arrive d \<Rightarrow> d | _ \<Rightarrow> [])"

definition is_hangup :: "reader_event \<Rightarrow> bool" where
  "is_hangup e = (case e of Hangup x \<Rightarrow> True | _ \<Rightarrow> False)"

definition got_frames :: "(transport_error + bytes) list \<Rightarrow> bytes list" where
  "got_frames os = concat (map (\<lambda>r. case r of Inr f \<Rightarrow> [f] | Inl e \<Rightarrow> []) os)"

lemma got_frames_simps [simp]:
  "got_frames [] = []" "got_frames (Inr f # os) = f # got_frames os"
  "got_frames (Inl e # os) = got_frames os"
  "got_frames (os @ ps) = got_frames os @ got_frames ps"
  by (simp_all add: got_frames_def)

text \<open>
  The invariant, about the bytes that arrived and the frames got so far: the frames are whole
  and account for the arrived bytes up to the residue, which is what is buffered, preceded by
  the header already read when the call waits for a payload; a waiting call needs more bytes
  than are buffered. A reader that stopped has seen the connection go down or an oversized
  header.
\<close>

definition oversized_header :: "bytes \<Rightarrow> bool" where
  "oversized_header bs \<longleftrightarrow> (\<exists>n rest. bs = writeUInt32BE n @ rest \<and> MAX_FRAME_SIZE < n \<and> n < 2 ^ 32)"

definition reader_inv ::
    "('c \<Rightarrow> stream) \<Rightarrow> bool \<Rightarrow> bytes \<Rightarrow> bytes list \<Rightarrow> 'c reader \<Rightarrow> bool" where
  "reader_inv view hung inp fs s \<longleftrightarrow> list_all frame_ok fs \<and> s_up (view (rd_conn s)) = (\<not> hung) \<and>
     (let v = view (rd_conn s); got = concat (map encode_frame fs) in
      case rd_point s of
        None \<Rightarrow> s_want v = None \<and>
          (if rd_dead s
           then \<exists>rest. inp = got @ rest \<and> (hung \<or> oversized_header rest)
           else inp = got @ s_buf v)
      | Some AwaitHeader \<Rightarrow> \<not> rd_dead s \<and> s_want v = Some 4 \<and> length (s_buf v) < 4 \<and>
          inp = got @ s_buf v
      | Some AwaitPayload \<Rightarrow> \<not> rd_dead s \<and>
          (\<exists>n. s_want v = Some n \<and> 0 < n \<and> n \<le> MAX_FRAME_SIZE \<and> length (s_buf v) < n \<and>
               inp = got @ writeUInt32BE n @ s_buf v))"

lemma oversized_header_append: "oversized_header xs \<Longrightarrow> oversized_header (xs @ ys)"
  by (auto simp: oversized_header_def)

text \<open>No stream of well-formed frames starts with an oversized header.\<close>

lemma oversized_not_frames:
  assumes "oversized_header rest" "rest @ later = concat (map encode_frame hs)"
    "list_all frame_ok hs"
  shows False
proof -
  from assms(1) obtain n r where r: "rest = writeUInt32BE n @ r" "MAX_FRAME_SIZE < n" "n < 2 ^ 32"
    by (auto simp: oversized_header_def)
  with assms(2) obtain h hs' where hs: "hs = h # hs'"
    by (cases hs) (auto simp: writeUInt32BE_def)
  with assms(2) r have "writeUInt32BE n @ (r @ later)
      = writeUInt32BE (length h) @ (h @ concat (map encode_frame hs'))"
    by (simp add: encode_frame_def)
  from writeUInt32BE_inj [OF this r(3)] hs assms(3) have "n = length h"
    by (simp add: frame_size_lt [simplified])
  with hs assms(3) r(2) show False by (simp add: frame_ok_def)
qed

text \<open>
  The residue of a waiting reader is what has arrived and is in no frame yet; a waiting
  reader's residue holds no whole frame.
\<close>

definition residue :: "('c \<Rightarrow> stream) \<Rightarrow> 'c reader \<Rightarrow> bytes" where
  "residue view s = (case rd_point s of
     Some AwaitPayload \<Rightarrow> writeUInt32BE (the (s_want (view (rd_conn s)))) @ s_buf (view (rd_conn s))
   | _ \<Rightarrow> s_buf (view (rd_conn s)))"

lemma residue_inv:
  assumes "reader_inv view hung inp fs s" "rd_point s \<noteq> None"
  shows "inp = concat (map encode_frame fs) @ residue view s"
  using assms
  by (auto simp: reader_inv_def Let_def residue_def split: option.splits recv_point.splits)

lemma residue_short:
  assumes "reader_inv view hung inp fs s" "rd_point s \<noteq> None"
    and "residue view s = encode_frame h @ rest" "frame_ok h"
  shows False
proof (cases "rd_point s")
  case (Some k)
  show ?thesis
  proof (cases k)
    case AwaitHeader
    with Some assms(1,3) have "length (encode_frame h @ rest) < 4"
      by (auto simp: reader_inv_def Let_def residue_def)
    then show False by (simp add: encode_frame_def)
  next
    case AwaitPayload
    with Some assms(1) obtain n where n: "s_want (view (rd_conn s)) = Some n"
      "n \<le> MAX_FRAME_SIZE" "length (s_buf (view (rd_conn s))) < n"
      by (auto simp: reader_inv_def Let_def)
    with Some AwaitPayload assms(3) have
      "writeUInt32BE n @ s_buf (view (rd_conn s)) = writeUInt32BE (length h) @ (h @ rest)"
      by (simp add: residue_def encode_frame_def)
    from writeUInt32BE_inj [OF this] n(2) assms(4) have
      "n = length h" "s_buf (view (rd_conn s)) = h @ rest"
      by (simp_all add: frame_size_lt [simplified] MAX_FRAME_SIZE_value)
    with n(3) show False by simp
  qed
qed (use assms(2) in simp)

subsection \<open>The reader on any connection that keeps the contract\<close>

context stream_connection
begin

text \<open>
  Reading the payload, and then the header, from a connection where nothing is pending:
  whatever comes back, the invariant holds of the reader that results.
\<close>

lemma recv_payload_inv:
  assumes "valid c" "s_want (view c) = None" "list_all frame_ok fs" "s_up (view c) = (\<not> hung)"
    and inp: "inp = concat (map encode_frame fs) @ writeUInt32BE n @ s_buf (view c)"
    and n: "0 < n" "n \<le> MAX_FRAME_SIZE"
    and res: "reader_note (recv_payload (ic_recv ic n c)) = (s, os)"
  shows "valid (rd_conn s) \<and> reader_inv view hung inp (fs @ got_frames os) s"
proof -
  obtain c' r where r: "ic_recv ic n c = (c', r)" by fastforce
  show ?thesis
    using recv_view [OF assms(1,2) r] assms(2-4) n res inp r
    by (auto simp: reader_note_def recv_payload_def spec_recv_def reader_inv_def Let_def
      frame_ok_def encode_frame_def split: if_splits)
qed

lemma recv_header_inv:
  assumes "valid c" "s_want (view c) = None" "list_all frame_ok fs" "s_up (view c) = (\<not> hung)"
    and "length h = 4"
    and inp: "inp = concat (map encode_frame fs) @ h @ s_buf (view c)"
    and res: "reader_note (recv_header ic h c) = (s, os)"
  shows "valid (rd_conn s) \<and> reader_inv view hung inp (fs @ got_frames os) s"
proof -
  from \<open>length h = 4\<close> obtain n where rd: "readUInt32BE h = Some n"
    using readUInt32BE_4 by blast
  from write_readUInt32BE [OF this \<open>length h = 4\<close>]
  have h: "h = writeUInt32BE n" "n < 2 ^ 32" by auto
  consider "n > MAX_FRAME_SIZE" | "n = 0" | "0 < n" "n \<le> MAX_FRAME_SIZE" by linarith
  then show ?thesis
  proof cases
    case 1
    then have "oversized_header (h @ s_buf (view c))"
      using h unfolding oversized_header_def by blast
    with 1 assms rd show ?thesis
      by (auto simp: recv_header_def reader_note_def reader_inv_def Let_def)
  next
    case 2
    with assms rd h show ?thesis
      by (auto simp: recv_header_def reader_note_def reader_inv_def Let_def frame_ok_def
        encode_frame_def)
  next
    case 3
    with res rd have "reader_note (recv_payload (ic_recv ic n c)) = (s, os)"
      by (simp add: recv_header_def)
    with 3 assms(1-4) inp h show ?thesis by (intro recv_payload_inv) auto
  qed
qed

lemma recvFrame_inv:
  assumes "valid c" "s_want (view c) = None" "list_all frame_ok fs" "s_up (view c) = (\<not> hung)"
    and inp: "inp = concat (map encode_frame fs) @ s_buf (view c)"
    and res: "reader_note (recvFrame ic c) = (s, os)"
  shows "valid (rd_conn s) \<and> reader_inv view hung inp (fs @ got_frames os) s"
proof -
  obtain c' r where r: "ic_recv ic 4 c = (c', r)" by fastforce
  note v = recv_view [OF assms(1,2) r]
  show ?thesis
  proof (cases r)
    case (Now h)
    with v assms(2,4) have h: "length h = 4" "s_buf (view c) = h @ s_buf (view c')"
      "s_want (view c') = None" "s_up (view c') = (\<not> hung)"
      by (auto simp: spec_recv_def split: if_splits)
    have "reader_note (recv_header ic h c') = (s, os)"
      using res r Now by (simp add: recvFrame_def)
    with v(1) h assms(3) inp show ?thesis by (intro recv_header_inv) auto
  qed (use v assms(2-4) inp res r in \<open>auto simp: recvFrame_def reader_note_def spec_recv_def
    reader_inv_def Let_def split: if_splits\<close>)
qed

text \<open>One step of the reader, for each event.\<close>

lemma reader_settle_inv:
  assumes "valid (rd_conn s)" and inv: "reader_inv view hung inp fs s"
    and res: "reader_settle ic (se_arrive se d (rd_conn s)) s = (s', os)"
  shows "valid (rd_conn s') \<and> reader_inv view hung (inp @ d) (fs @ got_frames os) s'"
proof -
  obtain c' a where a: "se_arrive se d (rd_conn s) = (c', a)" by fastforce
  note v = arrive_view [OF assms(1) a]
  have res': "reader_settle ic (c', a) s = (s', os)" using res a by simp
  show ?thesis
  proof (cases "rd_point s")
    case None
    with inv v res' show ?thesis
      by (auto simp: reader_inv_def Let_def reader_settle_def spec_arrive_def
        oversized_header_append)
  next
    case (Some k)
    show ?thesis
    proof (cases k)
      case AwaitHeader
      with Some inv have i: "s_want (view (rd_conn s)) = Some 4" "list_all frame_ok fs"
        "inp = concat (map encode_frame fs) @ s_buf (view (rd_conn s))" "\<not> rd_dead s"
        "s_up (view (rd_conn s)) = (\<not> hung)"
        by (auto simp: reader_inv_def Let_def)
      show ?thesis
      proof (cases a)
        case None
        with v i res' Some AwaitHeader show ?thesis
          by (auto simp: reader_inv_def Let_def reader_settle_def spec_arrive_def split: if_splits)
      next
        case a': (Some r)
        with v(2,3) have "spec_arrive d (view (rd_conn s)) = (view c', Some r)"
          by (simp add: prod_eq_iff)
        from spec_arrive_served [OF this i(1)] i(5) obtain h where h: "r = Inr h" "length h = 4"
          "s_buf (view (rd_conn s)) @ d = h @ s_buf (view c')" "s_want (view c') = None"
          "s_up (view c') = (\<not> hung)"
          by auto
        have "reader_note (recv_header ic h c') = (s', os)"
          using res' a' h(1) Some AwaitHeader
          by (simp add: reader_settle_def recvFrame_resume_def)
        with v(1) h i(2,3) show ?thesis by (intro recv_header_inv) auto
      qed
    next
      case AwaitPayload
      with Some inv v res' show ?thesis
        by (auto simp: reader_inv_def Let_def reader_settle_def spec_arrive_def reader_note_def
          recvFrame_resume_def frame_ok_def encode_frame_def split: if_splits)
    qed
  qed
qed

lemma reader_hangup_inv:
  assumes "valid (rd_conn s)" and inv: "reader_inv view hung inp fs s"
    and res: "reader_settle ic (se_hangup se e (rd_conn s)) s = (s', os)"
  shows "valid (rd_conn s') \<and> reader_inv view True inp (fs @ got_frames os) s'"
proof -
  obtain c' a where a: "se_hangup se e (rd_conn s) = (c', a)" by fastforce
  show ?thesis
    using hangup_view [OF assms(1) a] inv res a
    by (auto simp: reader_inv_def Let_def reader_settle_def spec_hangup_def reader_note_def
      recvFrame_resume_def split: option.splits recv_point.splits if_splits)
qed

lemma reader_step_inv:
  assumes "valid (rd_conn s)" "reader_inv view hung inp fs s"
    and res: "reader_step ic se e s = (s', os)"
  shows "valid (rd_conn s') \<and>
    reader_inv view (hung \<or> is_hangup e) (inp @ arrived e) (fs @ got_frames os) s'"
proof (cases e)
  case RecvFrame
  show ?thesis
  proof (cases "rd_dead s \<or> rd_point s \<noteq> None")
    case True
    with RecvFrame assms show ?thesis by (simp add: is_hangup_def arrived_def)
  next
    case False
    with assms(2) have "s_want (view (rd_conn s)) = None" "list_all frame_ok fs"
      "s_up (view (rd_conn s)) = (\<not> hung)"
      "inp = concat (map encode_frame fs) @ s_buf (view (rd_conn s))"
      by (auto simp: reader_inv_def Let_def)
    moreover have "reader_note (recvFrame ic (rd_conn s)) = (s', os)"
      using res RecvFrame False by auto
    ultimately have "valid (rd_conn s') \<and> reader_inv view hung inp (fs @ got_frames os) s'"
      by (intro recvFrame_inv [OF assms(1)])
    with RecvFrame show ?thesis by (simp add: is_hangup_def arrived_def)
  qed
next
  case (Arrive d)
  with reader_settle_inv [OF assms(1,2), of d s' os] res show ?thesis
    by (simp add: is_hangup_def arrived_def)
next
  case (Hangup x)
  with reader_hangup_inv [OF assms(1,2), of x s' os] res show ?thesis
    by (simp add: is_hangup_def arrived_def)
qed

lemma reader_run_inv:
  assumes "valid (rd_conn s)" "reader_inv view hung inp fs s"
  shows "reader_inv view (hung \<or> list_ex is_hangup es) (inp @ concat (map arrived es))
           (fs @ got_frames (snd (run_steps (reader_step ic se) es s)))
           (fst (run_steps (reader_step ic se) es s))"
  using assms
proof (induction es arbitrary: s hung inp fs)
  case (Cons e es)
  obtain s1 o1 where s1: "reader_step ic se e s = (s1, o1)" by fastforce
  from reader_step_inv [OF Cons.prems this] have
    "valid (rd_conn s1)"
    "reader_inv view (hung \<or> is_hangup e) (inp @ arrived e) (fs @ got_frames o1) s1"
    by auto
  from Cons.IH [OF this] s1 show ?case by (simp add: Let_def split_def disj_assoc)
qed simp

text \<open>Sending: the promises of the two writes settle with the outcomes \<open>rs\<close>.\<close>

lemma send_done:
  assumes "valid c" and res: "send_all ic rs (sendFrame ic data c) = (c', SDone)"
  shows "frame_ok data \<and> valid c' \<and> s_sent (view c') = s_sent (view c) @ encode_frame data"
proof -
  have ok: "frame_ok data"
    using res by (cases "length data > MAX_FRAME_SIZE")
      (auto simp: sendFrame_def frame_ok_def )
  obtain c1 q1 where c1: "ic_send ic (writeUInt32BE (length data)) c = (c1, q1)" by fastforce
  obtain c2 q2 where c2: "ic_send ic data c1 = (c2, q2)" by fastforce
  note v1 = send_view [OF assms(1) c1]
  note v2 = send_view [OF v1(1) c2]
  show ?thesis
    using ok res c1 c2 v1 v2
    by (cases rs; cases "tl rs")
      (auto simp: sendFrame_def frame_ok_def await_send_def sendFrame_resume_def spec_send_def
        encode_frame_def  split: option.splits if_splits)
qed

lemma send_succeeds:
  assumes "valid c" "s_up (view c)" "frame_ok data"
  shows "\<exists>c'. send_all ic [None, None] (sendFrame ic data c) = (c', SDone)"
proof -
  obtain c1 q1 where c1: "ic_send ic (writeUInt32BE (length data)) c = (c1, q1)" by fastforce
  obtain c2 q2 where c2: "ic_send ic data c1 = (c2, q2)" by fastforce
  note v1 = send_view [OF assms(1) c1]
  note v2 = send_view [OF v1(1) c2]
  show ?thesis
    using assms c1 c2 v1 v2
    by (auto simp: sendFrame_def frame_ok_def await_send_def sendFrame_resume_def spec_send_def
        )
qed

text \<open>
  A reader on a connection on which nothing has arrived: the frames it gets are the first of
  those sent, however the stream is cut and whenever the calls are made.
\<close>

lemma frames_prefix:
  assumes "valid c" "view c = \<lparr>s_buf = [], s_want = None, s_up = True, s_sent = x\<rparr>"
    and stream: "concat (map arrived es) @ later = concat (map encode_frame gs)"
    and gs: "list_all frame_ok gs"
    and run: "run_steps (reader_step ic se) es \<lparr>rd_conn = c, rd_point = None, rd_dead = False\<rparr> = (s, os)"
  shows "\<exists>hs. gs = got_frames os @ hs \<and>
    reader_inv view (list_ex is_hangup es) (concat (map arrived es)) (got_frames os) s"
proof -
  let ?s0 = "\<lparr>rd_conn = c, rd_point = None, rd_dead = False\<rparr>"
  have "reader_inv view False [] [] ?s0" using assms(2) by (simp add: reader_inv_def)
  from reader_run_inv [of ?s0 False "[]" "[]" es, OF _ this] assms(1) run
  have inv: "reader_inv view (list_ex is_hangup es) (concat (map arrived es)) (got_frames os) s"
    by simp
  then obtain rest where "concat (map arrived es) = concat (map encode_frame (got_frames os)) @ rest"
    by (auto simp: reader_inv_def Let_def split: option.splits recv_point.splits if_splits)
  moreover from inv have "list_all frame_ok (got_frames os)" by (simp add: reader_inv_def)
  ultimately have "\<exists>hs. gs = got_frames os @ hs \<and> rest @ later = concat (map encode_frame hs)"
    using stream gs by (intro encode_frames_prefix) simp_all
  with inv show ?thesis by blast
qed

lemma frames_complete:
  assumes "valid c" "view c = \<lparr>s_buf = [], s_want = None, s_up = True, s_sent = x\<rparr>"
    and stream: "concat (map arrived es) = concat (map encode_frame gs)"
    and gs: "list_all frame_ok gs"
    and run: "run_steps (reader_step ic se) es \<lparr>rd_conn = c, rd_point = None, rd_dead = False\<rparr> = (s, os)"
    and waits: "rd_point s \<noteq> None"
  shows "got_frames os = gs"
proof -
  from frames_prefix [OF assms(1,2) _ gs run, of "[]"] stream obtain hs where
    hs: "gs = got_frames os @ hs"
    and inv: "reader_inv view (list_ex is_hangup es) (concat (map arrived es)) (got_frames os) s"
    by auto
  have "hs = []"
  proof (cases hs)
    case (Cons h hs')
    with hs gs have ok: "frame_ok h" by simp
    have "residue view s = encode_frame h @ concat (map encode_frame hs')"
      using residue_inv [OF inv waits] stream hs Cons by simp
    from residue_short [OF inv waits this ok] show ?thesis ..
  qed
  with hs show ?thesis by simp
qed

text \<open>A reader of well-formed frames stops only when the connection goes down.\<close>

lemma reader_alive:
  assumes "valid c" "view c = \<lparr>s_buf = [], s_want = None, s_up = True, s_sent = x\<rparr>"
    and stream: "concat (map arrived es) @ later = concat (map encode_frame gs)"
    and gs: "list_all frame_ok gs"
    and run: "run_steps (reader_step ic se) es \<lparr>rd_conn = c, rd_point = None, rd_dead = False\<rparr> = (s, os)"
    and up: "\<not> list_ex is_hangup es"
  shows "\<not> rd_dead s"
proof
  assume dead: "rd_dead s"
  from frames_prefix [OF assms(1,2) stream gs run] obtain hs where
    hs: "gs = got_frames os @ hs"
    and inv: "reader_inv view False (concat (map arrived es)) (got_frames os) s"
    using up by auto
  with dead obtain rest where rest: "oversized_header rest"
    "concat (map arrived es) = concat (map encode_frame (got_frames os)) @ rest"
    by (auto simp: reader_inv_def Let_def split: option.splits recv_point.splits)
  with stream hs have "rest @ later = concat (map encode_frame hs)" by simp
  moreover from hs gs have "list_all frame_ok hs" by simp
  ultimately show False using rest(1) oversized_not_frames by blast
qed

end

subsection \<open>The reader and the sender on a Unix socket connection\<close>

definition unix_reader ::
    "reader_event list \<Rightarrow> logged_conn reader \<times> (transport_error + bytes) list" where
  "unix_reader es = run_steps (reader_step unix_iconnection unix_events) es
     \<lparr>rd_conn = (new_connection, []), rd_point = None, rd_dead = False\<rparr>"

definition unix_send ::
    "transport_error option list \<Rightarrow> bytes \<Rightarrow> logged_conn \<Rightarrow> logged_conn \<times> send_outcome" where
  "unix_send rs data c = send_all unix_iconnection rs (sendFrame unix_iconnection data c)"

lemma new_connection_view:
  "single_reader (new_connection, [])"
  "unix_view (new_connection, []) = \<lparr>s_buf = [], s_want = None, s_up = True, s_sent = []\<rparr>"
  by (simp_all add: single_reader_def conn_ok_new unix_view_def) (simp_all add: new_connection_def)

subsection \<open>Properties\<close>

text \<open>
  The header is lossless: \<open>readUInt32BE\<close> reads back every length \<open>writeUInt32BE\<close> writes,
  and every four header bytes are the encoding of the length read from them.
\<close>

lemma header_roundtrip:
  "(n < 2 ^ 32 \<longrightarrow> readUInt32BE (writeUInt32BE n) = Some n) \<and>
   (length h = 4 \<longrightarrow> (\<exists>m. readUInt32BE h = Some m \<and> writeUInt32BE m = h \<and> m < 2 ^ 32))"
proof (intro conjI impI)
  show "readUInt32BE (writeUInt32BE n) = Some n" if "n < 2 ^ 32"
    using read_writeUInt32BE [OF that, of "[]"] by simp
  show "\<exists>m. readUInt32BE h = Some m \<and> writeUInt32BE m = h \<and> m < 2 ^ 32" if "length h = 4"
    using readUInt32BE_4 [OF that] write_readUInt32BE [OF _ that] by blast
qed

text \<open>
  C11. Frames survive the stream: on a Unix socket connection, whatever chunks the socket
  delivers a sequence of well-formed frames in, and however the \<open>recvFrame\<close> calls interleave
  with the chunks and with a disconnection, the frames received are the first frames that were
  sent, whole and in order; a frame cut off by a disconnection is never delivered.
\<close>

theorem framing_no_partial_frame:
  assumes "list_all frame_ok gs"
    and "concat (map arrived es) @ later = concat (map encode_frame gs)"
  shows "\<exists>hs. gs = got_frames (snd (unix_reader es)) @ hs"
  using unix.frames_prefix [OF new_connection_view assms(2,1), of "fst (unix_reader es)"
      "snd (unix_reader es)"]
  by (auto simp: unix_reader_def)

theorem framing_no_partial_frame_witness:
  "\<exists>hs. [[7, 8], [9]] =
     got_frames (snd (unix_reader
       [RecvFrame, Arrive [0, 0], Arrive [0, 2, 7], Arrive [8, 0, 0], RecvFrame, Arrive [0],
        Hangup connection_closed])) @ hs"
proof -
  have "list_all frame_ok [[7, 8], [9]]" by (simp add: frame_ok_def MAX_FRAME_SIZE_value)
  moreover have "concat (map arrived [RecvFrame, Arrive [0, 0], Arrive [0, 2, 7],
      Arrive [8, 0, 0], RecvFrame, Arrive [0], Hangup connection_closed]) @ [1, 9]
    = concat (map encode_frame [[7, 8], [9]])"
    by (simp add: arrived_def encode_frame_def writeUInt32BE_def)
  ultimately show ?thesis by (rule framing_no_partial_frame)
qed

text \<open>
  Framing is complete: when all the bytes of a sequence of well-formed frames have
  arrived on a connection that is up and the reader waits for more, it has received exactly
  those frames, in whatever chunks they came, and it has not failed.
\<close>

lemma framing_complete:
  assumes "list_all frame_ok gs"
    and "concat (map arrived es) = concat (map encode_frame gs)"
    and "\<not> list_ex is_hangup es"
    and "rd_point (fst (unix_reader es)) \<noteq> None"
  shows "got_frames (snd (unix_reader es)) = gs \<and> \<not> rd_dead (fst (unix_reader es))"
proof
  let ?r = "unix_reader es"
  have run: "run_steps (reader_step unix_iconnection unix_events) es
      \<lparr>rd_conn = (new_connection, []), rd_point = None, rd_dead = False\<rparr> = (fst ?r, snd ?r)"
    by (simp add: unix_reader_def)
  show "got_frames (snd ?r) = gs"
    by (rule unix.frames_complete [OF new_connection_view assms(2,1) run assms(4)])
  show "\<not> rd_dead (fst ?r)"
    using unix.reader_alive [OF new_connection_view _ assms(1) run assms(3), of "[]"] assms(2)
    by simp
qed

text \<open>
  A \<open>sendFrame\<close> that returns has written exactly the frame: the header with the payload's
  length, then the payload. On a connection that is up it returns once the socket has taken
  its writes. A payload over \<open>MAX_FRAME_SIZE\<close> is refused with \<open>EMSGSIZE\<close> before anything is
  written.
\<close>

lemma sendFrame_exact:
  assumes "single_reader c"
  shows "(unix_send rs data c = (c', SDone) \<longrightarrow>
        written (snd c') = written (snd c) @ encode_frame data \<and> length data \<le> MAX_FRAME_SIZE) \<and>
     (connected (fst c) \<and> length data \<le> MAX_FRAME_SIZE \<longrightarrow>
        (\<exists>c1. unix_send [None, None] data c = (c1, SDone))) \<and>
     (length data > MAX_FRAME_SIZE \<longrightarrow>
        unix_send rs data c = (c, SThrew (frame_too_large ''Frame too large: '' (length data))))"
  using unix.send_done [OF assms, of rs data c'] unix.send_succeeds [OF assms, of data]
  by (auto simp: unix_send_def unix_view_def frame_ok_def sendFrame_def)

end
