(* ===== verification/JS_Object.thy ===== *)
theory JS_Object
  imports Prelude
begin

section \<open>Plain JavaScript objects\<close>

text \<open>
  The \<open>metadata\<close> of an envelope is a plain object from strings to strings. A plain object is
  modelled as the list of its own properties in the order of \<open>Object.keys\<close>: the keys that are array
  indices first, in ascending numeric order, then the others in the order they were created
  (ECMAScript, OrdinaryOwnPropertyKeys). Assigning a value to the key \<open>__proto__\<close> of a plain
  object calls the inherited setter, which creates no own property (it ignores a primitive value, and
  makes an object the prototype, which own properties do not show).
\<close>

type_synonym string_map = "(string \<times> string) list"

text \<open>The canonical decimal rendering of a number below \<open>2 ^ 32 - 1\<close>.\<close>

definition is_array_index :: "string \<Rightarrow> bool" where
  "is_array_index k \<longleftrightarrow> k \<noteq> [] \<and> list_all is_digit k \<and>
     (k = ''0'' \<or> hd k \<noteq> CHR ''0'') \<and> read_nat k < 2 ^ 32 - 1"

fun insert_index :: "string \<Rightarrow> 'v \<Rightarrow> (string \<times> 'v) list \<Rightarrow> (string \<times> 'v) list" where
  "insert_index k v [] = [(k, v)]"
| "insert_index k v ((k', v') # ob) =
     (if is_array_index k' \<and> read_nat k' < read_nat k then (k', v') # insert_index k v ob
      else (k, v) # (k', v') # ob)"

definition js_set :: "string \<Rightarrow> 'v \<Rightarrow> (string \<times> 'v) list \<Rightarrow> (string \<times> 'v) list" where
  "js_set k v ob =
     (if k = ''__proto__'' then ob
      else if k \<in> set (map fst ob) then map (\<lambda>(k', v'). if k' = k then (k', v) else (k', v')) ob
      else if is_array_index k then insert_index k v ob
      else ob @ [(k, v)])"

text \<open>Reading an own property.\<close>

definition js_get :: "(string \<times> 'v) list \<Rightarrow> string \<Rightarrow> 'v option" where
  "js_get ob k = map_of ob k"

text \<open>Copying an object property by property, as the decoder fills \<open>metadata\<close>.\<close>

definition js_copy :: "(string \<times> 'v) list \<Rightarrow> (string \<times> 'v) list \<Rightarrow> (string \<times> 'v) list" where
  "js_copy src ob = fold (\<lambda>(k, v). js_set k v) src ob"

subsection \<open>The order of own properties\<close>

definition js_object :: "(string \<times> 'v) list \<Rightarrow> bool" where
  "js_object ob \<longleftrightarrow> distinct (map fst ob) \<and>
     sorted_wrt (\<lambda>k k'. is_array_index k' \<longrightarrow> is_array_index k \<and> read_nat k < read_nat k') (map fst ob)"

lemma js_object_Nil [simp]: "js_object []"
  by (simp add: js_object_def)

lemma js_object_prefix: "js_object (xs @ ys) \<Longrightarrow> js_object xs"
  by (auto simp: js_object_def sorted_wrt_append)

lemma insert_index_get:
  "k \<notin> set (map fst ob) \<Longrightarrow> js_get (insert_index k v ob) = (js_get ob)(k \<mapsto> v)"
  by (induction ob) (auto simp: js_get_def fun_eq_iff)

lemma js_get_update:
  "js_get (map (\<lambda>(k', v'). if k' = k then (k', v) else (k', v')) ob) =
     (if k \<in> set (map fst ob) then (js_get ob)(k \<mapsto> v) else js_get ob)"
  by (induction ob) (auto simp: js_get_def fun_eq_iff)

lemma js_get_set:
  "js_get (js_set k v ob) = (if k = ''__proto__'' then js_get ob else (js_get ob)(k \<mapsto> v))"
  by (auto simp: js_set_def js_get_update insert_index_get)
    (auto simp: js_get_def fun_eq_iff map_add_def dest: map_of_SomeD intro: rev_image_eqI
      split: option.splits)

lemma insert_index_last:
  "list_all (\<lambda>(k', v'). is_array_index k' \<and> read_nat k' < read_nat k) ob \<Longrightarrow>
   insert_index k v ob = ob @ [(k, v)]"
  by (induction ob) auto

text \<open>Setting the next property of an object in key order appends it.\<close>

lemma js_set_next:
  assumes "js_object (ob @ [(k, v)])" "k \<noteq> ''__proto__''"
  shows "js_set k v ob = ob @ [(k, v)]"
proof (cases "is_array_index k")
  case True
  with assms(1) have "list_all (\<lambda>(k', v'). is_array_index k' \<and> read_nat k' < read_nat k) ob"
    by (auto simp: js_object_def sorted_wrt_append list_all_iff)
  with True assms show ?thesis
    by (auto simp: js_set_def insert_index_last js_object_def)
next
  case False
  with assms show ?thesis by (auto simp: js_set_def js_object_def)
qed

text \<open>Copying an object gives the same object, properties and order, but for \<open>__proto__\<close>.\<close>

lemma js_copy_object:
  assumes "js_object src"
  shows "js_copy src [] = filter (\<lambda>(k, v). k \<noteq> ''__proto__'') src"
  using assms
proof (induction src rule: rev_induct)
  case Nil
  show ?case by (simp add: js_copy_def)
next
  case (snoc kv src)
  obtain k v where kv: "kv = (k, v)" by fastforce
  let ?f = "\<lambda>(k, v). k \<noteq> ''__proto__''"
  have IH: "js_copy src [] = filter ?f src"
    using snoc by (blast intro: js_object_prefix)
  have sub: "js_object (filter ?f src @ [(k, v)])"
    using snoc.prems kv by (auto simp: js_object_def sorted_wrt_append distinct_map_filter
      sorted_wrt_map intro: sorted_wrt_filter)
  have "js_copy (src @ [kv]) [] = js_set k v (filter ?f src)"
    using IH kv by (simp add: js_copy_def)
  also have "\<dots> = filter ?f (src @ [kv])"
    using js_set_next [OF sub] kv by (cases "k = ''__proto__''") (simp_all add: js_set_def)
  finally show ?case .
qed

end
