(* ===== verification/Wire_Runtime.thy ===== *)
theory Wire_Runtime
  imports Prelude
begin

section \<open>The protobuf runtime the generated code is written against\<close>

text \<open>
  The generated message classes call \<open>Writer\<close> and \<open>Reader\<close> of the package
  \<open>protobufjs/minimal\<close>, which is not in the repository. Both are parameters of the model: a
  record of the operations the generated code calls, over an abstract writer state \<open>'w\<close> and
  over readers with the public fields \<open>buf\<close>, \<open>pos\<close> and \<open>len\<close>. A read either throws (\<open>Inl\<close>
  the message) or gives the value and the advanced reader. The locale \<open>protobuf_runtime\<close>
  states what their documentation promises.
\<close>

record pb_reader =
  r_buf :: bytes
  r_pos :: nat
  r_len :: nat

record reader_ops =
  R_create :: "bytes \<Rightarrow> pb_reader"
  R_uint32 :: "pb_reader \<Rightarrow> string + (u32 \<times> pb_reader)"
  R_int32 :: "pb_reader \<Rightarrow> string + (u32 \<times> pb_reader)"
  R_uint64 :: "pb_reader \<Rightarrow> string + (u64 \<times> pb_reader)"
  R_int64 :: "pb_reader \<Rightarrow> string + (u64 \<times> pb_reader)"
  R_string :: "pb_reader \<Rightarrow> string + (string \<times> pb_reader)"
  R_bytes :: "pb_reader \<Rightarrow> string + (bytes \<times> pb_reader)"
  R_skipType :: "u32 \<Rightarrow> pb_reader \<Rightarrow> string + pb_reader"

record 'w writer_ops =
  W_create :: 'w
  W_uint32 :: "u32 \<Rightarrow> 'w \<Rightarrow> 'w"
  W_int32 :: "u32 \<Rightarrow> 'w \<Rightarrow> 'w"
  W_uint64 :: "u64 \<Rightarrow> 'w \<Rightarrow> 'w"
  W_int64 :: "u64 \<Rightarrow> 'w \<Rightarrow> 'w"
  W_string :: "string \<Rightarrow> 'w \<Rightarrow> 'w"
  W_bytes :: "bytes \<Rightarrow> 'w \<Rightarrow> 'w"
  W_fork :: "'w \<Rightarrow> 'w"
  W_ldelim :: "'w \<Rightarrow> 'w"
  W_finish :: "'w \<Rightarrow> bytes"

text \<open>How each kind of value is laid out on the wire.\<close>

record encodings =
  enc_uint32 :: "u32 \<Rightarrow> bytes"
  enc_int32 :: "u32 \<Rightarrow> bytes"
  enc_uint64 :: "u64 \<Rightarrow> bytes"
  enc_int64 :: "u64 \<Rightarrow> bytes"
  enc_string :: "string \<Rightarrow> bytes"
  enc_bytes :: "bytes \<Rightarrow> bytes"

text \<open>A reader over a whole buffer, at a position.\<close>

definition at :: "bytes \<Rightarrow> nat \<Rightarrow> pb_reader" where
  "at b p = \<lparr>r_buf = b, r_pos = p, r_len = length b\<rparr>"

lemma at_simps [simp]: "r_buf (at b p) = b" "r_pos (at b p) = p" "r_len (at b p) = length b"
  "(at b p)\<lparr>r_pos := q\<rparr> = at b q"
  by (simp_all add: at_def)

text \<open>Appending to the innermost open section of a writer.\<close>

definition put :: "bytes \<Rightarrow> bytes list \<Rightarrow> bytes list" where
  "put b s = (case s of [] \<Rightarrow> [b] | c # cs \<Rightarrow> (c @ b) # cs)"

definition close_section :: "(u32 \<Rightarrow> bytes) \<Rightarrow> bytes list \<Rightarrow> bytes list" where
  "close_section e s = (case s of
     [] \<Rightarrow> []
   | [b] \<Rightarrow> [e (of_nat (length b)) @ b]
   | b # c # cs \<Rightarrow> (c @ e (of_nat (length b)) @ b) # cs)"

lemma put_put [simp]: "put b (put a s) = put (a @ b) s"
  by (simp add: put_def split: list.splits)

lemma put_Cons [simp]: "put b (c # s) = (c @ b) # s"
  by (simp add: put_def)

lemma put_neq_Nil [simp]: "put b s \<noteq> []"
  by (simp add: put_def split: list.splits)

text \<open>
  A read of one kind of value: it gives back what was written and advances past it. A read
  that succeeds stays in its buffer and moves forward; \<open>strict\<close> ones consume at least a byte.
\<close>

definition reads ::
    "(pb_reader \<Rightarrow> string + ('v \<times> pb_reader)) \<Rightarrow> ('v \<Rightarrow> bytes) \<Rightarrow> ('v \<Rightarrow> bool) \<Rightarrow> bool" where
  "reads rd e P \<longleftrightarrow> (\<forall>pre v post. P v \<longrightarrow>
     rd (at (pre @ e v @ post) (length pre))
       = Inr (v, at (pre @ e v @ post) (length pre + length (e v))))"

definition forward :: "pb_reader \<Rightarrow> pb_reader \<Rightarrow> bool" where
  "forward r r' \<longleftrightarrow> r_buf r' = r_buf r \<and> r_len r' = r_len r \<and> r_pos r \<le> r_pos r' \<and> r_pos r' \<le> r_len r"

definition advances :: "(pb_reader \<Rightarrow> string + ('v \<times> pb_reader)) \<Rightarrow> bool" where
  "advances rd \<longleftrightarrow> (\<forall>r v r'. rd r = Inr (v, r') \<longrightarrow> forward r r')"

lemma forward_trans: "forward r s \<Longrightarrow> forward s t \<Longrightarrow> forward r t"
  by (auto simp: forward_def)

locale protobuf_runtime =
  fixes W :: "'w writer_ops"
    and R :: reader_ops
    and E :: encodings
    and sections :: "'w \<Rightarrow> bytes list"
  assumes create: "sections (W_create W) = [[]]"
    and put_uint32: "sections (W_uint32 W v w) = put (enc_uint32 E v) (sections w)"
    and put_int32: "sections (W_int32 W v w) = put (enc_int32 E v) (sections w)"
    and put_uint64: "sections (W_uint64 W u w) = put (enc_uint64 E u) (sections w)"
    and put_int64: "sections (W_int64 W u w) = put (enc_int64 E u) (sections w)"
    and put_string: "sections (W_string W x w) = put (enc_string E x) (sections w)"
    and put_bytes: "sections (W_bytes W y w) = put (enc_bytes E y) (sections w)"
    and fork: "sections (W_fork W w) = [] # sections w"
    and ldelim: "sections (W_ldelim W w) = close_section (enc_uint32 E) (sections w)"
    and finish: "W_finish W w = hd (sections w)"
    and create_reader: "R_create R b = at b 0"
    and reads_uint32: "reads (R_uint32 R) (enc_uint32 E) (\<lambda>_. True)"
    and reads_int32: "reads (R_int32 R) (enc_int32 E) (\<lambda>_. True)"
    and reads_uint64: "reads (R_uint64 R) (enc_uint64 E) (\<lambda>_. True)"
    and reads_int64: "reads (R_int64 R) (enc_int64 E) (\<lambda>_. True)"
    and reads_string: "reads (R_string R) (enc_string E) (\<lambda>x. length x < 2 ^ 30)"
    and reads_bytes: "reads (R_bytes R) (enc_bytes E) (\<lambda>y. length y < 2 ^ 32)"
    and advances: "advances (R_uint32 R)" "advances (R_int32 R)" "advances (R_uint64 R)"
      "advances (R_int64 R)" "advances (R_string R)" "advances (R_bytes R)"
    and advances_strictly: "R_uint32 R r = Inr (v, r') \<Longrightarrow> r_pos r < r_pos r'"
    and skip_forward: "R_skipType R t r = Inr r' \<Longrightarrow> forward r r'"
begin

lemmas writer_laws =
  create put_uint32 put_int32 put_uint64 put_int64 put_string put_bytes fork ldelim finish

lemma uint32_nonempty: "enc_uint32 E v \<noteq> []"
proof
  assume e: "enc_uint32 E v = []"
  have "R_uint32 R (at ([] @ enc_uint32 E v @ []) (length ([] :: bytes)))
      = Inr (v, at ([] @ enc_uint32 E v @ []) (length ([] :: bytes) + length (enc_uint32 E v)))"
    using reads_uint32 unfolding reads_def by blast
  from advances_strictly [OF this] e show False by simp
qed

end

end
