(* ===== verification/Wire_Format.thy ===== *)
theory Wire_Format
  imports Wire_Runtime
begin

section \<open>The protobuf wire format as an instance of the runtime\<close>

text \<open>
  A writer and a reader for the proto3 wire format of the protobuf documentation: base-128
  varints, little end first; negative \<open>int32\<close> values sign-extended to 64 bits; strings in
  UTF-8 and bytes with a length prefix; unknown fields skipped by wire type, groups included.
  It discharges the laws of \<open>protobuf_runtime\<close> for a concrete runtime, on which the witnesses
  of the properties evaluate. Strings hold code points below 256 (the \<^typ>\<open>char\<close> type).
\<close>

subsection \<open>Varints\<close>

fun varint :: "nat \<Rightarrow> bytes" where
  "varint n = (if n < 128 then [of_nat n] else of_nat (n mod 128 + 128) # varint (n div 128))"

declare varint.simps [simp del]

fun read_varint :: "nat \<Rightarrow> bytes \<Rightarrow> (nat \<times> nat) option" where
  "read_varint 0 bs = None"
| "read_varint (Suc f) [] = None"
| "read_varint (Suc f) (b # bs) =
     (if unat b < 128 then Some (unat b, 1)
      else map_option (\<lambda>(v, k). (unat b - 128 + 128 * v, Suc k)) (read_varint f bs))"

lemma unat_of_nat_byte: "n < 256 \<Longrightarrow> unat (of_nat n :: byte) = n"
  by (simp add: unat_of_nat)

lemma read_varint_varint:
  "n < 128 ^ f \<Longrightarrow> 0 < f \<Longrightarrow> read_varint f (varint n @ post) = Some (n, length (varint n))"
proof (induction n arbitrary: f rule: varint.induct)
  case (1 n)
  then obtain f' where f: "f = Suc f'" by (cases f) auto
  show ?case
  proof (cases "n < 128")
    case True
    with f show ?thesis by (simp add: varint.simps [of n] unat_of_nat)
  next
    case False
    with "1.prems" f have "n div 128 < 128 ^ f'" by (simp add: less_mult_imp_div_less)
    moreover from this False have "0 < f'" by (cases f') auto
    ultimately have "read_varint f' (varint (n div 128) @ post)
        = Some (n div 128, length (varint (n div 128)))"
      using "1.IH" False by simp
    moreover have "unat (of_nat (n mod 128 + 128) :: byte) = n mod 128 + 128"
      by (rule unat_of_nat_byte) simp
    ultimately show ?thesis
      using False f by (simp add: varint.simps [of n])
  qed
qed

lemma read_varint_bound: "read_varint f bs = Some (v, k) \<Longrightarrow> 0 < k \<and> k \<le> length bs"
  by (induction f bs arbitrary: v k rule: read_varint.induct) (auto split: if_splits)

lemma pow_128: "n < 2 ^ 64 \<Longrightarrow> n < 128 ^ 10" for n :: nat
  by simp

subsection \<open>Length-delimited values\<close>

definition delimited :: "bytes \<Rightarrow> bytes" where
  "delimited bs = varint (length bs) @ bs"

definition read_delimited :: "bytes \<Rightarrow> (bytes \<times> nat) option" where
  "read_delimited bs = (case read_varint 10 bs of
     None \<Rightarrow> None
   | Some (n, k) \<Rightarrow> (let m = n mod 2 ^ 32 in
       if k + m \<le> length bs then Some (take m (drop k bs), k + m) else None))"

lemma read_delimited_delimited:
  assumes "length bs < 2 ^ 32"
  shows "read_delimited (delimited bs @ post) = Some (bs, length (delimited bs))"
proof -
  have "read_varint 10 (varint (length bs) @ (bs @ post)) = Some (length bs, length (varint (length bs)))"
    using assms by (intro read_varint_varint) simp_all
  with assms show ?thesis by (simp add: read_delimited_def delimited_def Let_def)
qed

lemma read_delimited_bound: "read_delimited bs = Some (v, k) \<Longrightarrow> 0 < k \<and> k \<le> length bs"
  by (auto simp: read_delimited_def Let_def dest!: read_varint_bound
    split: option.splits prod.splits if_splits)

fun utf8 :: "string \<Rightarrow> bytes" where
  "utf8 [] = []"
| "utf8 (c # cs) =
     (let n = of_char c :: nat in
      (if n < 128 then [of_nat n] else [of_nat (192 + n div 64), of_nat (128 + n mod 64)]) @ utf8 cs)"

text \<open>Sequences of more than two bytes are above the model's characters and read as \<open>?\<close>.\<close>

fun utf8_decode :: "bytes \<Rightarrow> string" where
  "utf8_decode [] = []"
| "utf8_decode [b] = [if unat b < 128 then char_of (unat b) else CHR ''?'']"
| "utf8_decode (b # b' # bs) =
     (if unat b < 128 then char_of (unat b) # utf8_decode (b' # bs)
      else if 192 \<le> unat b \<and> unat b < 196 then
        char_of ((unat b - 192) * 64 + (unat b' - 128)) # utf8_decode bs
      else CHR ''?'' # utf8_decode (b' # bs))"

lemma utf8_decode_ascii: "unat b < 128 \<Longrightarrow> utf8_decode (b # bs) = char_of (unat b) # utf8_decode bs"
  by (cases bs) simp_all

lemma utf8_pair:
  assumes "n < 256"
  shows "unat (of_nat (192 + n div 64) :: byte) = 192 + n div 64"
    and "unat (of_nat (128 + n mod 64) :: byte) = 128 + n mod 64"
proof -
  have "192 + n div 64 < 256" "128 + n mod 64 < 256" using assms by linarith+
  then show "unat (of_nat (192 + n div 64) :: byte) = 192 + n div 64"
    "unat (of_nat (128 + n mod 64) :: byte) = 128 + n mod 64"
    by (simp_all only: unat_of_nat_byte)
qed

lemma utf8_decode_utf8: "utf8_decode (utf8 s) = s"
proof (induction s)
  case (Cons c s)
  have c: "(of_char c :: nat) < 256" by (rule nat_of_char_less_256)
  show ?case
  proof (cases "(of_char c :: nat) < 128")
    case True
    with Cons show ?thesis by (simp add: Let_def utf8_decode_ascii unat_of_nat)
  next
    case False
    let ?n = "of_char c :: nat"
    note b = utf8_pair [OF c]
    have "?n div 64 < 4" using c by linarith
    moreover have "char_of (?n div 64 * 64 + ?n mod 64) = c" by simp
    ultimately show ?thesis using False Cons b by (simp add: Let_def)
  qed
qed simp

lemma length_utf8: "length (utf8 s) \<le> 2 * length s"
  by (induction s) (auto simp: Let_def)

subsection \<open>Skipping unknown fields\<close>

fun skip_wire :: "nat \<Rightarrow> nat \<Rightarrow> bytes \<Rightarrow> nat option"
  and skip_group :: "nat \<Rightarrow> bytes \<Rightarrow> nat option" where
  "skip_wire 0 t bs = None"
| "skip_wire (Suc f) t bs =
     (if t = 0 then map_option snd (read_varint 10 bs)
      else if t = 1 then (if 8 \<le> length bs then Some 8 else None)
      else if t = 2 then map_option snd (read_delimited bs)
      else if t = 3 then skip_group f bs
      else if t = 5 then (if 4 \<le> length bs then Some 4 else None)
      else None)"
| "skip_group 0 bs = None"
| "skip_group (Suc f) bs = (case read_varint 10 bs of
     None \<Rightarrow> None
   | Some (v, k) \<Rightarrow>
       if v mod 8 = 4 then Some k
       else (case skip_wire f (v mod 8) (drop k bs) of
          None \<Rightarrow> None
        | Some j \<Rightarrow> map_option (\<lambda>i. k + j + i) (skip_group f (drop (k + j) bs))))"

lemma skip_bound:
  "skip_wire f t bs = Some k \<Longrightarrow> k \<le> length bs"
  "skip_group f bs = Some k \<Longrightarrow> k \<le> length bs"
proof (induction f t bs and f bs arbitrary: k and k rule: skip_wire_skip_group.induct)
  case (2 f t bs)
  then show ?case
    by (auto split: if_splits dest: read_varint_bound read_delimited_bound)
next
  case (4 f bs)
  then show ?case
    by (fastforce split: option.splits if_splits dest: read_varint_bound)
qed simp_all

subsection \<open>The runtime\<close>

definition out_of_range :: string where
  "out_of_range = ''index out of range''"

definition rest_of :: "pb_reader \<Rightarrow> bytes" where
  "rest_of r = drop (r_pos r) (take (r_len r) (r_buf r))"

definition read_with ::
    "(bytes \<Rightarrow> ('v \<times> nat) option) \<Rightarrow> pb_reader \<Rightarrow> string + ('v \<times> pb_reader)" where
  "read_with p r = (case p (rest_of r) of
     None \<Rightarrow> Inl out_of_range
   | Some (v, k) \<Rightarrow> Inr (v, r\<lparr>r_pos := r_pos r + k\<rparr>))"

definition number_reader :: "bytes \<Rightarrow> ('n :: len word \<times> nat) option" where
  "number_reader bs = map_option (\<lambda>(n, k). (of_nat n, k)) (read_varint 10 bs)"

definition wire_reader :: reader_ops where
  "wire_reader = \<lparr>
     R_create = (\<lambda>b. at b 0),
     R_uint32 = read_with number_reader,
     R_int32 = read_with number_reader,
     R_uint64 = read_with number_reader,
     R_int64 = read_with number_reader,
     R_string = read_with (\<lambda>bs. map_option (\<lambda>(v, k). (utf8_decode v, k)) (read_delimited bs)),
     R_bytes = read_with read_delimited,
     R_skipType = (\<lambda>t r. if r_pos r > r_len r then Inl out_of_range else
        case skip_wire (2 * length (rest_of r) + 2) (unat t) (rest_of r) of
          None \<Rightarrow> Inl (''invalid wire type or offset'')
        | Some k \<Rightarrow> Inr (r\<lparr>r_pos := r_pos r + k\<rparr>))\<rparr>"

definition wire_encodings :: encodings where
  "wire_encodings = \<lparr>
     enc_uint32 = (\<lambda>v. varint (unat v)),
     enc_int32 = (\<lambda>v. varint (unat (scast v :: u64))),
     enc_uint64 = (\<lambda>v. varint (unat v)),
     enc_int64 = (\<lambda>v. varint (unat v)),
     enc_string = (\<lambda>s. delimited (utf8 s)),
     enc_bytes = delimited\<rparr>"

text \<open>The writer keeps the bytes of its open sections, the innermost first.\<close>

definition wire_writer :: "bytes list writer_ops" where
  "wire_writer = \<lparr>
     W_create = [[]],
     W_uint32 = (\<lambda>v. put (enc_uint32 wire_encodings v)),
     W_int32 = (\<lambda>v. put (enc_int32 wire_encodings v)),
     W_uint64 = (\<lambda>v. put (enc_uint64 wire_encodings v)),
     W_int64 = (\<lambda>v. put (enc_int64 wire_encodings v)),
     W_string = (\<lambda>s. put (enc_string wire_encodings s)),
     W_bytes = (\<lambda>b. put (enc_bytes wire_encodings b)),
     W_fork = (\<lambda>w. [] # w),
     W_ldelim = close_section (enc_uint32 wire_encodings),
     W_finish = hd\<rparr>"

lemma rest_of_at: "rest_of (at (pre @ e @ post) (length pre)) = e @ post"
  by (simp add: rest_of_def)

lemma read_with_reads:
  assumes "\<And>v post. P v \<Longrightarrow> p (e v @ post) = Some (v, length (e v))"
  shows "reads (read_with p) e P"
  using assms by (simp add: reads_def read_with_def rest_of_at)

lemma read_with_forward:
  assumes "\<And>bs v k. p bs = Some (v, k) \<Longrightarrow> 0 < k \<and> k \<le> length bs"
    and "read_with p r = Inr (v, r')"
  shows "forward r r' \<and> r_pos r < r_pos r'"
proof -
  from assms(2) obtain k where k: "p (rest_of r) = Some (v, k)" "r' = r\<lparr>r_pos := r_pos r + k\<rparr>"
    by (auto simp: read_with_def split: option.splits)
  with assms(1) [OF k(1)] show ?thesis by (auto simp: forward_def rest_of_def)
qed

lemma read_with_advances:
  assumes "\<And>bs v k. p bs = Some (v, k) \<Longrightarrow> 0 < k \<and> k \<le> length bs"
  shows "advances (read_with p)"
  using read_with_forward [of p] assms by (auto simp: advances_def)

lemma number_reader_bound: "number_reader bs = Some (v, k) \<Longrightarrow> 0 < k \<and> k \<le> length bs"
  by (auto simp: number_reader_def dest: read_varint_bound)

lemma number_reader_varint:
  "n < 2 ^ 64 \<Longrightarrow> number_reader (varint n @ post) = Some (of_nat n, length (varint n))"
  by (simp add: number_reader_def read_varint_varint)

lemma unat_u64: "unat (x :: u64) < 2 ^ 64" and unat_u32: "unat (y :: u32) < 2 ^ 32"
  using unsigned_less [of x] unsigned_less [of y] by simp_all

lemma ucast_scast_u32: "(of_nat (unat (scast (v :: u32) :: u64)) :: u32) = v"
proof -
  have "(ucast (scast v :: u64) :: u32) = v"
    by (rule bit_word_eqI) (simp add: bit_unsigned_iff bit_signed_iff)
  then show ?thesis by (simp add: unsigned_of_nat)
qed

lemma reads_number:
  assumes "\<And>v. (of_nat (unat (f v :: u64)) :: 'n :: len word) = v"
  shows "reads (read_with number_reader) (\<lambda>v :: 'n word. varint (unat (f v))) P"
proof (rule read_with_reads)
  fix v :: "'n word" and post
  have "number_reader (varint (unat (f v)) @ post)
      = Some (of_nat (unat (f v)) :: 'n word, length (varint (unat (f v))))"
    by (rule number_reader_varint [OF unat_u64])
  then show "number_reader (varint (unat (f v)) @ post) = Some (v, length (varint (unat (f v))))"
    by (simp only: assms)
qed

lemma reads_wire_uint32: "reads (read_with number_reader) (\<lambda>v :: u32. varint (unat v)) P"
proof (rule read_with_reads)
  fix v :: u32 and post
  have "unat v < 2 ^ 64" using unat_u32 [of v] by simp
  then show "number_reader (varint (unat v) @ post) = Some (v, length (varint (unat v)))"
    by (simp add: number_reader_varint)
qed

lemma utf8_short: "length x < 2 ^ 30 \<Longrightarrow> length (utf8 x) < 2 ^ 32"
  using length_utf8 [of x] by simp

interpretation wire: protobuf_runtime wire_writer wire_reader wire_encodings "\<lambda>w. w"
proof
  show "reads (R_uint32 wire_reader) (enc_uint32 wire_encodings) (\<lambda>_. True)"
    by (simp add: wire_reader_def wire_encodings_def reads_wire_uint32)
  show "reads (R_int32 wire_reader) (enc_int32 wire_encodings) (\<lambda>_. True)"
    using reads_number [OF ucast_scast_u32, of "\<lambda>_. True"]
    by (simp add: wire_reader_def wire_encodings_def)
  show "reads (R_uint64 wire_reader) (enc_uint64 wire_encodings) (\<lambda>_. True)"
    "reads (R_int64 wire_reader) (enc_int64 wire_encodings) (\<lambda>_. True)"
    using reads_number [of "\<lambda>v. v :: u64" "\<lambda>_. True"] by (simp_all add: wire_reader_def wire_encodings_def)
  show "reads (R_string wire_reader) (enc_string wire_encodings) (\<lambda>x. length x < 2 ^ 30)"
    by (auto simp: wire_reader_def wire_encodings_def read_delimited_delimited utf8_short
      utf8_decode_utf8 simp del: power_numeral intro!: read_with_reads)
  show "reads (R_bytes wire_reader) (enc_bytes wire_encodings) (\<lambda>y. length y < 2 ^ 32)"
    by (simp add: wire_reader_def wire_encodings_def read_with_reads read_delimited_delimited)
  show "advances (R_uint32 wire_reader)" "advances (R_int32 wire_reader)"
    "advances (R_uint64 wire_reader)" "advances (R_int64 wire_reader)"
    "advances (R_string wire_reader)" "advances (R_bytes wire_reader)"
    by (auto simp: wire_reader_def intro!: read_with_advances
      dest: number_reader_bound read_delimited_bound)
  show "r_pos r < r_pos r'" if "R_uint32 wire_reader r = Inr (v, r')" for r v r'
  proof -
    from that have "read_with number_reader r = Inr (v, r')" by (simp add: wire_reader_def)
    from read_with_forward [OF _ this] number_reader_bound show ?thesis by blast
  qed
  show "forward r r'" if "R_skipType wire_reader t r = Inr r'" for t r r'
  proof -
    from that obtain k where pos: "r_pos r \<le> r_len r"
      and k: "skip_wire (2 * length (rest_of r) + 2) (unat t) (rest_of r) = Some k"
      and r': "r' = r\<lparr>r_pos := r_pos r + k\<rparr>"
      by (auto simp: wire_reader_def simp del: skip_wire.simps split: if_splits option.splits)
    from skip_bound(1) [OF k] pos r' show ?thesis by (auto simp: forward_def rest_of_def)
  qed
qed (simp_all add: wire_writer_def wire_reader_def)

subsection \<open>Sizes\<close>

lemma length_varint: "n < 128 ^ k \<Longrightarrow> 0 < k \<Longrightarrow> length (varint n) \<le> k"
proof (induction n arbitrary: k rule: varint.induct)
  case (1 n)
  then obtain k' where k: "k = Suc k'" by (cases k) auto
  show ?case
  proof (cases "n < 128")
    case False
    with "1.prems" k have "n div 128 < 128 ^ k'" by (simp add: less_mult_imp_div_less)
    moreover from this False have "0 < k'" by (cases k') auto
    ultimately show ?thesis using "1.IH" False k by (simp add: varint.simps [of n])
  qed (use k in \<open>simp add: varint.simps [of n]\<close>)
qed

lemma length_enc_uint32: "length (enc_uint32 wire_encodings v) \<le> 5"
proof -
  have "unat v < 128 ^ 5" using unat_u32 [of v] by simp
  then show ?thesis by (simp add: wire_encodings_def length_varint)
qed

lemma length_enc_string:
  assumes "length s < 2 ^ 30"
  shows "length (enc_string wire_encodings s) \<le> 5 + 2 * length s"
proof -
  have "length (utf8 s) < 128 ^ 5" using utf8_short [OF assms] by simp
  from length_varint [OF this] length_utf8 [of s] show ?thesis
    by (simp add: wire_encodings_def delimited_def)
qed

end
