(* ===== verification/Decoding.thy ===== *)
theory Decoding
  imports Wire_Runtime "HOL-Library.Monad_Syntax"
begin

unbundle bit_operations_syntax

section \<open>The loop of every generated decoder\<close>

text \<open>
  Each \<open>decode\<close> of \<open>sdk/js/src/generated/proto.js\<close> is the same loop around a \<open>switch\<close> on the
  field number: while the reader is before the end, read a tag and let the switch read that
  field into the message. The switch is the parameter \<open>fld\<close>; a read may throw (\<open>Inl\<close>). The
  reader is a parameter too, so nothing bounds the loop in advance: it is a partial function,
  \<open>None\<close> where it would not return, and the runtime's laws give that it always returns.
\<close>

type_synonym 'm decoded = "(string + ('m \<times> pb_reader)) option"

partial_function (option) decode_loop ::
    "(u32 \<Rightarrow> pb_reader \<Rightarrow> 'm \<Rightarrow> 'm decoded) \<Rightarrow> reader_ops \<Rightarrow> nat \<Rightarrow> u32 option
       \<Rightarrow> pb_reader \<Rightarrow> 'm \<Rightarrow> 'm decoded" where
  "decode_loop fld R limit error r m =
     (if r_pos r < limit then
        (case R_uint32 R r of
           Inl e \<Rightarrow> Some (Inl e)
         | Inr (tag, r1) \<Rightarrow>
             if error = Some tag then Some (Inr (m, r1))
             else (case fld tag r1 m of
                 None \<Rightarrow> None
               | Some (Inl e) \<Rightarrow> Some (Inl e)
               | Some (Inr (m', r2)) \<Rightarrow> decode_loop fld R limit error r2 m'))
      else Some (Inr (m, r)))"

text \<open>One \<open>case\<close> of a switch: read a value and store it, or skip an unknown field.\<close>

definition read_into ::
    "(pb_reader \<Rightarrow> string + ('v \<times> pb_reader)) \<Rightarrow> ('v \<Rightarrow> 'm) \<Rightarrow> pb_reader \<Rightarrow> 'm decoded" where
  "read_into rd store r = (case rd r of
     Inl e \<Rightarrow> Some (Inl e)
   | Inr (v, r') \<Rightarrow> Some (Inr (store v, r')))"

definition skip_field :: "reader_ops \<Rightarrow> u32 \<Rightarrow> pb_reader \<Rightarrow> 'm \<Rightarrow> 'm decoded" where
  "skip_field R tag r m = (case R_skipType R (tag AND 7) r of
     Inl e \<Rightarrow> Some (Inl e)
   | Inr r' \<Rightarrow> Some (Inr (m, r')))"

text \<open>The field number of a tag: \<open>tag >>> 3\<close>.\<close>

definition field_number :: "u32 \<Rightarrow> u32" where
  "field_number tag = drop_bit 3 tag"

text \<open>A decoder is given bytes, or a reader it continues.\<close>

datatype source = OfBytes bytes | OfReader pb_reader

definition open_reader :: "reader_ops \<Rightarrow> source \<Rightarrow> pb_reader" where
  "open_reader R src = (case src of OfBytes b \<Rightarrow> R_create R b | OfReader r \<Rightarrow> r)"

definition decode_message ::
    "(u32 \<Rightarrow> pb_reader \<Rightarrow> 'm \<Rightarrow> 'm decoded) \<Rightarrow> 'm \<Rightarrow> reader_ops \<Rightarrow> source \<Rightarrow> nat option
       \<Rightarrow> u32 option \<Rightarrow> 'm decoded" where
  "decode_message fld blank R src len error =
     (let r = open_reader R src;
          limit = (case len of None \<Rightarrow> r_len r | Some n \<Rightarrow> r_pos r + n)
      in decode_loop fld R limit error r blank)"

definition decode_delimited ::
    "(u32 \<Rightarrow> pb_reader \<Rightarrow> 'm \<Rightarrow> 'm decoded) \<Rightarrow> 'm \<Rightarrow> reader_ops \<Rightarrow> source \<Rightarrow> 'm decoded" where
  "decode_delimited fld blank R src = (case R_uint32 R (open_reader R src) of
     Inl e \<Rightarrow> Some (Inl e)
   | Inr (n, r) \<Rightarrow> decode_message fld blank R (OfReader r) (Some (unat n)) None)"

text \<open>The message alone, as the callers of \<open>decode(bytes)\<close> see it.\<close>

definition decoded_value :: "'m decoded \<Rightarrow> (string + 'm) option" where
  "decoded_value d = map_option (map_sum id fst) d"

text \<open>Encoding an optional field: nothing is written where the message has no own property.\<close>

definition write_opt :: "'v option \<Rightarrow> ('v \<Rightarrow> 'w \<Rightarrow> 'w) \<Rightarrow> 'w \<Rightarrow> 'w" where
  "write_opt x f w = (case x of None \<Rightarrow> w | Some v \<Rightarrow> f v w)"

lemmas [wire_simps] = read_into_def skip_field_def write_opt_def

subsection \<open>Every decoder returns\<close>

text \<open>The same buffer, not before; with \<open>forward\<close> also not past its end.\<close>

definition onward :: "pb_reader \<Rightarrow> pb_reader \<Rightarrow> bool" where
  "onward r r' \<longleftrightarrow> r_pos r \<le> r_pos r' \<and> r_buf r' = r_buf r \<and> r_len r' = r_len r"

lemma onward_refl [simp]: "onward r r" and onward_trans: "onward r s \<Longrightarrow> onward s t \<Longrightarrow> onward r t"
  and forward_onward: "forward r s \<Longrightarrow> onward r s"
  by (auto simp: onward_def forward_def)

text \<open>A read that returns and never moves the reader back; a switch made of such reads.\<close>

definition returns_on :: "pb_reader \<Rightarrow> 'm decoded \<Rightarrow> bool" where
  "returns_on r d \<longleftrightarrow> (\<exists>x. d = Some x \<and> (\<forall>m' r'. x = Inr (m', r') \<longrightarrow> onward r r'))"

lemma returns_on_simps [simp]:
  "returns_on r (Some (Inl e))" "returns_on r (Some (Inr (m, r'))) \<longleftrightarrow> onward r r'"
  by (auto simp: returns_on_def)

lemma returns_onE:
  assumes "returns_on r d"
  obtains (throws) e where "d = Some (Inl e)" | (gives) m' r' where "d = Some (Inr (m', r'))" "onward r r'"
proof -
  obtain x where "d = Some x" "\<And>m' r'. x = Inr (m', r') \<Longrightarrow> onward r r'"
    using assms unfolding returns_on_def by blast
  then show ?thesis using throws gives by (cases x) auto
qed

definition field_total :: "(u32 \<Rightarrow> pb_reader \<Rightarrow> 'm \<Rightarrow> 'm decoded) \<Rightarrow> bool" where
  "field_total fld \<longleftrightarrow> (\<forall>tag r m. returns_on r (fld tag r m))"

context protobuf_runtime
begin

lemma decode_loop_total:
  assumes "field_total fld"
  shows "returns_on r (decode_loop fld R limit error r m)"
proof (induction "limit - r_pos r" arbitrary: r m rule: less_induct)
  case less
  show ?case
  proof (cases "r_pos r < limit \<and> (\<exists>t r1. R_uint32 R r = Inr (t, r1) \<and> error \<noteq> Some t)")
    case False
    then show ?thesis
      using advances(1)
      by (subst decode_loop.simps) (auto simp: advances_def intro: forward_onward split: sum.splits)
  next
    case True
    then obtain t r1 where t: "r_pos r < limit" "R_uint32 R r = Inr (t, r1)" "error \<noteq> Some t"
      by blast
    have f1: "onward r r1" "r_pos r < r_pos r1"
      using t(2) advances(1) advances_strictly by (auto simp: advances_def intro: forward_onward)
    have "returns_on r1 (fld t r1 m)"
      using assms unfolding field_total_def by blast
    then show ?thesis
    proof (cases rule: returns_onE)
      case (throws e)
      with t show ?thesis by (subst decode_loop.simps) simp
    next
      case (gives m2 r2)
      have less2: "limit - r_pos r2 < limit - r_pos r"
        using f1(2) gives(2) t(1) unfolding onward_def by linarith
      have step: "decode_loop fld R limit error r m = decode_loop fld R limit error r2 m2"
        using t gives(1) by (subst decode_loop.simps) simp
      from less [OF less2, of m2] show ?thesis unfolding step
        by (cases rule: returns_onE)
          (auto intro: onward_trans [OF onward_trans [OF f1(1) gives(2)]])
    qed
  qed
qed

lemma read_into_total [inv_intros]: "advances rd \<Longrightarrow> returns_on r (read_into rd store r)"
  by (auto simp: returns_on_def read_into_def advances_def intro: forward_onward split: sum.splits)

lemma skip_field_total [inv_intros]: "returns_on r (skip_field R tag r m)"
  using skip_forward by (auto simp: returns_on_def skip_field_def intro: forward_onward split: sum.splits)

lemma decode_message_total: "field_total fld \<Longrightarrow> \<exists>x. decode_message fld m0 R src len error = Some x"
  using decode_loop_total by (metis decode_message_def returns_on_def)

lemma decode_delimited_total:
  assumes "field_total fld"
  shows "\<exists>x. decode_delimited fld m0 R src = Some x"
  using decode_message_total [OF assms]
  by (auto simp: decode_delimited_def split_def split: sum.split)

end

subsection \<open>Decoding what was written\<close>

text \<open>
  A field as the encoder writes it: its tag, the bytes of its value, and what decoding it
  does to the message. A message is written as the list of its fields.
\<close>

type_synonym 'm field = "u32 \<times> bytes \<times> ('m \<Rightarrow> 'm)"

definition wire_bytes :: "encodings \<Rightarrow> 'm field list \<Rightarrow> bytes" where
  "wire_bytes E fs = concat (map (\<lambda>(t, b, u). enc_uint32 E t @ b) fs)"

definition apply_fields :: "'m field list \<Rightarrow> 'm \<Rightarrow> 'm" where
  "apply_fields fs m = fold (\<lambda>(t, b, u). u) fs m"

definition field_ok :: "(u32 \<Rightarrow> pb_reader \<Rightarrow> 'm \<Rightarrow> 'm decoded) \<Rightarrow> 'm field \<Rightarrow> bool" where
  "field_ok fld f \<longleftrightarrow> (case f of (t, b, u) \<Rightarrow> \<forall>pre post m.
     fld t (at (pre @ b @ post) (length pre)) m
       = Some (Inr (u m, at (pre @ b @ post) (length pre + length b))))"

text \<open>The field written for an optional property.\<close>

definition opt_field :: "u32 \<Rightarrow> ('v \<Rightarrow> bytes) \<Rightarrow> ('v \<Rightarrow> 'm \<Rightarrow> 'm) \<Rightarrow> 'v option \<Rightarrow> 'm field list" where
  "opt_field t e u x = (case x of None \<Rightarrow> [] | Some v \<Rightarrow> [(t, e v, u v)])"

definition opt_bytes :: "encodings \<Rightarrow> u32 \<Rightarrow> ('v \<Rightarrow> bytes) \<Rightarrow> 'v option \<Rightarrow> bytes" where
  "opt_bytes E t e x = (case x of None \<Rightarrow> [] | Some v \<Rightarrow> enc_uint32 E t @ e v)"

lemma wire_bytes_opt: "wire_bytes E (opt_field t e u x) = opt_bytes E t e x"
  by (simp add: wire_bytes_def opt_field_def opt_bytes_def split: option.split)

lemma wire_bytes_map: "wire_bytes E (map (\<lambda>x. (t, b x, u x)) xs) = concat (map (\<lambda>x. enc_uint32 E t @ b x) xs)"
  by (simp add: wire_bytes_def comp_def)

lemma wire_bytes_simps [simp]:
  "wire_bytes E [] = []" "wire_bytes E (fs @ gs) = wire_bytes E fs @ wire_bytes E gs"
  "wire_bytes E ((t, b, u) # fs) = enc_uint32 E t @ b @ wire_bytes E fs"
  by (simp_all add: wire_bytes_def)

lemma apply_fields_simps [simp]:
  "apply_fields [] m = m" "apply_fields ((t, b, u) # fs) m = apply_fields fs (u m)"
  "apply_fields (fs @ gs) m = apply_fields gs (apply_fields fs m)"
  by (simp_all add: apply_fields_def)

lemma field_okD:
  assumes "field_ok fld (t, b, u)"
  shows "fld t (at (pre @ b @ post) (length pre)) m
    = Some (Inr (u m, at (pre @ b @ post) (length pre + length b)))"
  using assms unfolding field_ok_def by simp

lemma field_ok_read:
  assumes "reads rd e P" "P v" "\<And>r m. fld t r m = read_into rd (\<lambda>v. u v m) r"
  shows "field_ok fld (t, e v, u v)"
  using assms by (simp add: field_ok_def read_into_def reads_def)

lemma field_ok_opt:
  assumes "reads rd e P" "P (default_of x)" "\<And>v. x = Some v \<Longrightarrow> default_of x = v"
    and "\<And>r m. fld t r m = read_into rd (\<lambda>v. u v m) r"
  shows "list_all (field_ok fld) (opt_field t e u x)"
proof (cases x)
  case (Some v)
  then have "P v" using assms(2,3) by metis
  with Some assms(1,4) show ?thesis by (simp add: opt_field_def field_ok_read)
qed (simp add: opt_field_def)

lemma put_Nil: "s \<noteq> [] \<Longrightarrow> put [] s = s"
  by (simp add: put_def split: list.split)

context protobuf_runtime
begin

text \<open>Writing an optional property appends the bytes of its field.\<close>

lemma put_opt:
  assumes "\<And>v w. sections (f v w) = put (e v) (sections w)" "sections w \<noteq> []"
  shows "sections (write_opt x (\<lambda>v w. f v (W_uint32 W t w)) w) = put (opt_bytes E t e x) (sections w)"
  using assms(2) by (cases x) (simp_all add: write_opt_def opt_bytes_def put_Nil assms(1) put_uint32)

lemmas put_opts = put_opt [of "W_int32 W", OF put_int32] put_opt [of "W_uint64 W", OF put_uint64]
  put_opt [of "W_int64 W", OF put_int64] put_opt [of "W_string W", OF put_string]
  put_opt [of "W_bytes W", OF put_bytes]

lemma decode_loop_fields:
  assumes "list_all (field_ok fld) fs"
  shows "decode_loop fld R (length pre + length (wire_bytes E fs)) None
      (at (pre @ wire_bytes E fs @ post) (length pre)) m
    = Some (Inr (apply_fields fs m,
        at (pre @ wire_bytes E fs @ post) (length pre + length (wire_bytes E fs))))"
  using assms
proof (induction fs arbitrary: pre m)
  case Nil
  show ?case by (subst decode_loop.simps) simp
next
  case (Cons f fs)
  obtain t b u where f: "f = (t, b, u)" by (cases f)
  let ?buf = "pre @ wire_bytes E (f # fs) @ post"
  let ?n = "length pre + length (wire_bytes E (f # fs))"
  have tag: "R_uint32 R (at ?buf (length pre)) = Inr (t, at ?buf (length pre + length (enc_uint32 E t)))"
    using reads_uint32 f by (simp add: reads_def)
  have val: "fld t (at ((pre @ enc_uint32 E t) @ b @ (wire_bytes E fs @ post))
        (length (pre @ enc_uint32 E t))) m
      = Some (Inr (u m, at ((pre @ enc_uint32 E t) @ b @ (wire_bytes E fs @ post))
        (length (pre @ enc_uint32 E t) + length b)))"
    using Cons.prems f by (intro field_okD) simp
  have "0 < length (enc_uint32 E t)" using uint32_nonempty by simp
  then have "length pre < ?n" using f by simp
  then have "decode_loop fld R ?n None (at ?buf (length pre)) m
      = decode_loop fld R ?n None (at ?buf (length pre + length (enc_uint32 E t) + length b)) (u m)"
    using tag val f by (subst decode_loop.simps) simp
  also have "\<dots> = decode_loop fld R
      (length (pre @ enc_uint32 E t @ b) + length (wire_bytes E fs)) None
      (at ((pre @ enc_uint32 E t @ b) @ wire_bytes E fs @ post) (length (pre @ enc_uint32 E t @ b))) (u m)"
    using f by (simp add: add.assoc)
  also have "\<dots> = Some (Inr (apply_fields fs (u m),
      at ((pre @ enc_uint32 E t @ b) @ wire_bytes E fs @ post)
        (length (pre @ enc_uint32 E t @ b) + length (wire_bytes E fs))))"
    using Cons.prems by (intro Cons.IH) simp
  finally show ?case using f by (simp add: add.assoc)
qed

text \<open>A whole message, and a length-prefixed one at the start of a buffer.\<close>

lemma decode_written:
  assumes "list_all (field_ok fld) fs" "sections w = [wire_bytes E fs]"
  shows "decode_message fld m0 R (OfBytes (W_finish W w)) None None
    = Some (Inr (apply_fields fs m0, at (wire_bytes E fs) (length (wire_bytes E fs))))"
  using decode_loop_fields [OF assms(1), of "[]" "[]" m0] assms(2)
  by (simp add: decode_message_def open_reader_def finish create_reader)

lemma decode_written_delimited:
  assumes "list_all (field_ok fld) fs" "sections w = [wire_bytes E fs]"
    and "length (wire_bytes E fs) < 2 ^ 32"
  shows "decode_delimited fld m0 R (OfBytes (W_finish W (W_ldelim W w) @ post))
    = Some (Inr (apply_fields fs m0,
        at (W_finish W (W_ldelim W w) @ post) (length (W_finish W (W_ldelim W w)))))"
proof -
  let ?n = "of_nat (length (wire_bytes E fs)) :: u32"
  let ?p = "enc_uint32 E ?n"
  have fin: "W_finish W (W_ldelim W w) = ?p @ wire_bytes E fs"
    using assms(2) by (simp add: finish ldelim close_section_def)
  have "R_uint32 R (at ([] @ ?p @ (wire_bytes E fs @ post)) (length ([] :: bytes)))
      = Inr (?n, at ([] @ ?p @ (wire_bytes E fs @ post)) (length ([] :: bytes) + length ?p))"
    using reads_uint32 unfolding reads_def by blast
  moreover have "unat ?n = length (wire_bytes E fs)"
    using assms(3) by (simp add: unat_of_nat)
  ultimately show ?thesis
    using decode_loop_fields [OF assms(1), of ?p post m0]
    by (simp add: decode_delimited_def decode_message_def open_reader_def create_reader fin Let_def)
qed

end

end
