(* ===== verification/Envelope.thy ===== *)
theory Envelope
  imports Decoding JS_Object Wire_Constants Wire_Format
begin

section \<open>The Envelope message (\<open>sdk/js/src/generated/proto.js\<close>)\<close>

text \<open>
  The message every frame carries. A message object is the record of its own properties, each
  optional; reading a property that is not own gives the prototype's default. Numbers are kept
  at the width of their field: enums as 32-bit words, \<open>requestId\<close> as a 64-bit word.
\<close>

record envelope =
  e_type :: "u32 option"
  e_requestId :: "u64 option"
  e_serviceName :: "string option"
  e_methodName :: "string option"
  e_payload :: "bytes option"
  e_status :: "u32 option"
  e_errorMessage :: "string option"
  e_metadata :: "string_map option"

text \<open>The constructor without properties, and with: \<open>metadata\<close> is always an own property.\<close>

definition no_envelope_properties :: envelope where
  "no_envelope_properties = \<lparr>e_type = None, e_requestId = None, e_serviceName = None,
     e_methodName = None, e_payload = None, e_status = None, e_errorMessage = None,
     e_metadata = None\<rparr>"

definition Envelope_new :: "envelope \<Rightarrow> envelope" where
  "Envelope_new properties = properties\<lparr>e_metadata := Some (case e_metadata properties of
     None \<Rightarrow> [] | Some ob \<Rightarrow> ob)\<rparr>"

definition Envelope_create :: "envelope \<Rightarrow> envelope" where
  "Envelope_create properties = Envelope_new properties"

text \<open>Property reads, with the defaults of \<open>Envelope.prototype\<close>.\<close>

definition default :: "'a \<Rightarrow> 'a option \<Rightarrow> 'a" where
  "default d x = (case x of None \<Rightarrow> d | Some v \<Rightarrow> v)"

definition get_type :: "envelope \<Rightarrow> u32" where "get_type m = default 0 (e_type m)"
definition get_requestId :: "envelope \<Rightarrow> u64" where "get_requestId m = default 0 (e_requestId m)"
definition get_serviceName :: "envelope \<Rightarrow> string" where "get_serviceName m = default [] (e_serviceName m)"
definition get_methodName :: "envelope \<Rightarrow> string" where "get_methodName m = default [] (e_methodName m)"
definition get_payload :: "envelope \<Rightarrow> bytes" where "get_payload m = default [] (e_payload m)"
definition get_status :: "envelope \<Rightarrow> u32" where "get_status m = default 0 (e_status m)"
definition get_errorMessage :: "envelope \<Rightarrow> string" where "get_errorMessage m = default [] (e_errorMessage m)"
definition get_metadata :: "envelope \<Rightarrow> string_map" where "get_metadata m = default [] (e_metadata m)"

lemma default_simps [simp]: "default d None = d" "default d (Some v) = v"
  by (simp_all add: default_def)

lemmas envelope_gets = get_type_def get_requestId_def get_serviceName_def get_methodName_def
  get_payload_def get_status_def get_errorMessage_def get_metadata_def

subsection \<open>Encoding\<close>

text \<open>One property of \<open>metadata\<close>: a nested message of key and value.\<close>

definition encode_entry :: "'w writer_ops \<Rightarrow> string \<times> string \<Rightarrow> 'w \<Rightarrow> 'w" where
  "encode_entry W kv w = (case kv of (k, v) \<Rightarrow>
     W_ldelim W (W_string W v (W_uint32 W 18 (W_string W k (W_uint32 W 10
       (W_fork W (W_uint32 W 66 w)))))))"

definition Envelope_encode :: "'w writer_ops \<Rightarrow> envelope \<Rightarrow> 'w option \<Rightarrow> 'w" where
  "Envelope_encode W m writer =
     (let w = (case writer of None \<Rightarrow> W_create W | Some w \<Rightarrow> w);
          w = write_opt (e_type m) (\<lambda>v w. W_int32 W v (W_uint32 W 8 w)) w;
          w = write_opt (e_requestId m) (\<lambda>v w. W_uint64 W v (W_uint32 W 16 w)) w;
          w = write_opt (e_serviceName m) (\<lambda>v w. W_string W v (W_uint32 W 26 w)) w;
          w = write_opt (e_methodName m) (\<lambda>v w. W_string W v (W_uint32 W 34 w)) w;
          w = write_opt (e_payload m) (\<lambda>v w. W_bytes W v (W_uint32 W 42 w)) w;
          w = write_opt (e_status m) (\<lambda>v w. W_int32 W v (W_uint32 W 48 w)) w;
          w = write_opt (e_errorMessage m) (\<lambda>v w. W_string W v (W_uint32 W 58 w)) w
      in write_opt (e_metadata m) (\<lambda>ob w. fold (encode_entry W) ob w) w)"

definition Envelope_encodeDelimited :: "'w writer_ops \<Rightarrow> envelope \<Rightarrow> 'w option \<Rightarrow> 'w" where
  "Envelope_encodeDelimited W m writer = W_ldelim W (Envelope_encode W m writer)"

subsection \<open>Decoding\<close>

text \<open>The inner switch over a metadata entry, and the outer switch.\<close>

definition entry_field ::
    "reader_ops \<Rightarrow> u32 \<Rightarrow> pb_reader \<Rightarrow> string \<times> string \<Rightarrow> (string \<times> string) decoded" where
  "entry_field R tag2 r kv =
     (let n = field_number tag2 in
      if n = 1 then read_into (R_string R) (\<lambda>key. (key, snd kv)) r
      else if n = 2 then read_into (R_string R) (\<lambda>value. (fst kv, value)) r
      else skip_field R tag2 r kv)"

definition set_metadata :: "string \<times> string \<Rightarrow> envelope \<Rightarrow> envelope" where
  "set_metadata kv m = m\<lparr>e_metadata := map_option (js_set (fst kv) (snd kv)) (e_metadata m)\<rparr>"

definition decode_metadata :: "reader_ops \<Rightarrow> pb_reader \<Rightarrow> envelope \<Rightarrow> envelope decoded" where
  "decode_metadata R r m = (case R_uint32 R r of
     Inl e \<Rightarrow> Some (Inl e)
   | Inr (n, r1) \<Rightarrow>
       (case decode_loop (entry_field R) R (unat n + r_pos r1) None r1 ([], []) of
          None \<Rightarrow> None
        | Some (Inl e) \<Rightarrow> Some (Inl e)
        | Some (Inr (kv, r2)) \<Rightarrow> Some (Inr (set_metadata kv m, r2))))"

definition Envelope_field :: "reader_ops \<Rightarrow> u32 \<Rightarrow> pb_reader \<Rightarrow> envelope \<Rightarrow> envelope decoded" where
  "Envelope_field R tag r m =
     (let n = field_number tag in
      if n = 1 then read_into (R_int32 R) (\<lambda>v. m\<lparr>e_type := Some v\<rparr>) r
      else if n = 2 then read_into (R_uint64 R) (\<lambda>v. m\<lparr>e_requestId := Some v\<rparr>) r
      else if n = 3 then read_into (R_string R) (\<lambda>v. m\<lparr>e_serviceName := Some v\<rparr>) r
      else if n = 4 then read_into (R_string R) (\<lambda>v. m\<lparr>e_methodName := Some v\<rparr>) r
      else if n = 5 then read_into (R_bytes R) (\<lambda>v. m\<lparr>e_payload := Some v\<rparr>) r
      else if n = 6 then read_into (R_int32 R) (\<lambda>v. m\<lparr>e_status := Some v\<rparr>) r
      else if n = 7 then read_into (R_string R) (\<lambda>v. m\<lparr>e_errorMessage := Some v\<rparr>) r
      else if n = 8 then decode_metadata R r m
      else skip_field R tag r m)"

definition Envelope_decode ::
    "reader_ops \<Rightarrow> source \<Rightarrow> nat option \<Rightarrow> u32 option \<Rightarrow> envelope decoded" where
  "Envelope_decode R = decode_message (Envelope_field R) (Envelope_new no_envelope_properties) R"

definition Envelope_decodeDelimited :: "reader_ops \<Rightarrow> source \<Rightarrow> envelope decoded" where
  "Envelope_decodeDelimited R = decode_delimited (Envelope_field R) (Envelope_new no_envelope_properties) R"

definition type_url_prefix :: string where
  "type_url_prefix = ''type.googleapis.com''"

definition Envelope_getTypeUrl :: "string option \<Rightarrow> string" where
  "Envelope_getTypeUrl p = default type_url_prefix p @ ''/ibridger.Envelope''"

subsection \<open>The fields of an encoded envelope\<close>

definition entry_fields :: "encodings \<Rightarrow> string \<times> string \<Rightarrow> (string \<times> string) field list" where
  "entry_fields E kv = [(10, enc_string E (fst kv), \<lambda>p. (fst kv, snd p)),
     (18, enc_string E (snd kv), \<lambda>p. (fst p, snd kv))]"

definition entry_bytes :: "encodings \<Rightarrow> string \<times> string \<Rightarrow> bytes" where
  "entry_bytes E kv = (let b = wire_bytes E (entry_fields E kv) in
     enc_uint32 E (of_nat (length b)) @ b)"

definition Envelope_fields :: "encodings \<Rightarrow> envelope \<Rightarrow> envelope field list" where
  "Envelope_fields E m =
     opt_field 8 (enc_int32 E) (\<lambda>v m. m\<lparr>e_type := Some v\<rparr>) (e_type m) @
     opt_field 16 (enc_uint64 E) (\<lambda>v m. m\<lparr>e_requestId := Some v\<rparr>) (e_requestId m) @
     opt_field 26 (enc_string E) (\<lambda>v m. m\<lparr>e_serviceName := Some v\<rparr>) (e_serviceName m) @
     opt_field 34 (enc_string E) (\<lambda>v m. m\<lparr>e_methodName := Some v\<rparr>) (e_methodName m) @
     opt_field 42 (enc_bytes E) (\<lambda>v m. m\<lparr>e_payload := Some v\<rparr>) (e_payload m) @
     opt_field 48 (enc_int32 E) (\<lambda>v m. m\<lparr>e_status := Some v\<rparr>) (e_status m) @
     opt_field 58 (enc_string E) (\<lambda>v m. m\<lparr>e_errorMessage := Some v\<rparr>) (e_errorMessage m) @
     map (\<lambda>kv. (66, entry_bytes E kv, set_metadata kv)) (get_metadata m)"

text \<open>
  What can be sent: strings below \<open>2 ^ 30\<close> characters (so that their bytes have a 32-bit
  length), payload and metadata entries below \<open>2 ^ 32\<close> bytes, and \<open>metadata\<close> in key order, as
  every object lists its keys.
\<close>

definition short :: "string option \<Rightarrow> bool" where
  "short x \<longleftrightarrow> length (default [] x) < 2 ^ 30"

definition entry_ok :: "encodings \<Rightarrow> string \<times> string \<Rightarrow> bool" where
  "entry_ok E kv \<longleftrightarrow> length (fst kv) < 2 ^ 30 \<and> length (snd kv) < 2 ^ 30 \<and>
     length (wire_bytes E (entry_fields E kv)) < 2 ^ 32"

definition Envelope_valid :: "encodings \<Rightarrow> envelope \<Rightarrow> bool" where
  "Envelope_valid E m \<longleftrightarrow> short (e_serviceName m) \<and> short (e_methodName m) \<and>
     short (e_errorMessage m) \<and> length (get_payload m) < 2 ^ 32 \<and>
     js_object (get_metadata m) \<and> list_all (entry_ok E) (get_metadata m)"

text \<open>What the receiver holds: the same own properties, but for a metadata key \<open>__proto__\<close>.\<close>

definition drop_proto :: "envelope \<Rightarrow> envelope" where
  "drop_proto m = m\<lparr>e_metadata := Some (filter (\<lambda>(k, v). k \<noteq> ''__proto__'') (get_metadata m))\<rparr>"

subsection \<open>Round trip\<close>

lemma apply_opt_field:
  "apply_fields (opt_field t e u x) m = (case x of None \<Rightarrow> m | Some v \<Rightarrow> u v m)"
  by (simp add: opt_field_def split: option.split)

lemma apply_metadata:
  "e_metadata m = Some ob \<Longrightarrow>
   apply_fields (map (\<lambda>kv. (66, b kv, set_metadata kv)) kvs) m = m\<lparr>e_metadata := Some (js_copy kvs ob)\<rparr>"
  by (induction kvs arbitrary: m ob) (simp_all add: set_metadata_def js_copy_def split_def)

lemma apply_Envelope_fields:
  assumes "js_object (get_metadata m)"
  shows "apply_fields (Envelope_fields E m) (Envelope_new no_envelope_properties) = drop_proto m"
  using js_copy_object [OF assms]
  by (simp add: Envelope_fields_def apply_opt_field apply_metadata [where ob = "[]"] drop_proto_def
      Envelope_new_def no_envelope_properties_def split: option.split)

lemma short_default: "x = Some v \<Longrightarrow> default d x = v"
  by simp

context protobuf_runtime
begin

lemma sections_entry:
  "sections w \<noteq> [] \<Longrightarrow> sections (encode_entry W kv w) = put (enc_uint32 E 66 @ entry_bytes E kv) (sections w)"
  by (cases kv) (auto simp: encode_entry_def writer_laws close_section_def put_def entry_bytes_def
    entry_fields_def Let_def split: list.split)

lemma sections_entries:
  "sections w \<noteq> [] \<Longrightarrow> sections (fold (encode_entry W) kvs w)
     = put (concat (map (\<lambda>kv. enc_uint32 E 66 @ entry_bytes E kv) kvs)) (sections w)"
  by (induction kvs arbitrary: w) (simp_all add: put_Nil sections_entry)

lemma sections_metadata:
  "sections w \<noteq> [] \<Longrightarrow> sections (write_opt x (fold (encode_entry W)) w)
     = put (concat (map (\<lambda>kv. enc_uint32 E 66 @ entry_bytes E kv) (default [] x))) (sections w)"
  by (cases x) (simp_all add: write_opt_def put_Nil sections_entries)

lemma sections_Envelope_encode:
  "sections (Envelope_encode W m None) = [wire_bytes E (Envelope_fields E m)]"
  by (simp add: Envelope_encode_def Let_def Envelope_fields_def wire_bytes_opt wire_bytes_map
    get_metadata_def sections_metadata put_opts create)

lemma entry_field_ok: "entry_ok E kv \<Longrightarrow> list_all (field_ok (entry_field R)) (entry_fields E kv)"
  unfolding entry_fields_def entry_ok_def
  by (auto intro!: field_ok_read [OF reads_string] simp: entry_field_def field_number_def)

lemma entry_total: "field_total (entry_field R)"
  using advances unfolding field_total_def entry_field_def Let_def
  by (auto intro: inv_intros)

text \<open>A metadata entry read where one was written.\<close>

lemma decode_metadata_entry:
  assumes "entry_ok E kv"
  shows "decode_metadata R (at (pre @ entry_bytes E kv @ post) (length pre)) m
    = Some (Inr (set_metadata kv m,
        at (pre @ entry_bytes E kv @ post) (length pre + length (entry_bytes E kv))))"
proof -
  let ?b = "wire_bytes E (entry_fields E kv)"
  let ?n = "of_nat (length ?b) :: u32"
  let ?buf = "pre @ enc_uint32 E ?n @ ?b @ post"
  have buf: "pre @ entry_bytes E kv @ post = ?buf"
    by (simp add: entry_bytes_def Let_def)
  have n: "unat ?n = length ?b"
    using assms by (simp add: entry_ok_def unat_of_nat)
  have "R_uint32 R (at ?buf (length pre)) = Inr (?n, at ?buf (length pre + length (enc_uint32 E ?n)))"
    using reads_uint32 by (simp add: reads_def)
  moreover have "apply_fields (entry_fields E kv) ([], []) = kv"
    by (simp add: entry_fields_def)
  ultimately show ?thesis
    using decode_loop_fields [OF entry_field_ok [OF assms], of "pre @ enc_uint32 E ?n" post "([], [])"] n
    unfolding buf by (simp add: decode_metadata_def entry_bytes_def Let_def add.commute add.left_commute)
qed

lemma Envelope_fields_ok:
  assumes "Envelope_valid E m"
  shows "list_all (field_ok (Envelope_field R)) (Envelope_fields E m)"
proof -
  note v = assms [unfolded Envelope_valid_def short_def get_payload_def]
  have meta: "list_all (field_ok (Envelope_field R))
      (map (\<lambda>kv. (66, entry_bytes E kv, set_metadata kv)) (get_metadata m))"
    using v decode_metadata_entry
    by (simp add: list_all_iff field_ok_def Envelope_field_def field_number_def)
  show ?thesis
    unfolding Envelope_fields_def list_all_append
    by (intro conjI meta field_ok_opt [OF reads_int32] field_ok_opt [OF reads_uint64]
          field_ok_opt [OF reads_string, where default_of = "default []"]
          field_ok_opt [OF reads_bytes, where default_of = "default []"])
       (use v in \<open>auto simp: Envelope_field_def field_number_def\<close>)
qed

lemma Envelope_field_total: "field_total (Envelope_field R)"
proof -
  have meta: "returns_on r (decode_metadata R r m)" for r m
  proof (cases "R_uint32 R r")
    case (Inr y)
    obtain n r1 where y: "y = (n, r1)" by fastforce
    have "onward r r1"
      using advances(1) Inr y by (auto simp: advances_def intro: forward_onward)
    moreover have "returns_on r1 (decode_loop (entry_field R) R (unat n + r_pos r1) None r1 ([], []))"
      by (rule decode_loop_total [OF entry_total])
    ultimately show ?thesis
      using Inr y by (auto simp: decode_metadata_def elim!: returns_onE intro: onward_trans)
  qed (simp add: decode_metadata_def)
  show ?thesis
    using advances meta unfolding field_total_def Envelope_field_def Let_def
    by (auto intro: inv_intros)
qed

lemma envelope_written:
  assumes "Envelope_valid E m"
  shows "Envelope_decode R (OfBytes (W_finish W (Envelope_encode W m None))) None None
    = Some (Inr (drop_proto m, at (wire_bytes E (Envelope_fields E m))
        (length (wire_bytes E (Envelope_fields E m)))))"
  using decode_written [OF Envelope_fields_ok [OF assms] sections_Envelope_encode] assms
  by (simp add: Envelope_decode_def apply_Envelope_fields Envelope_valid_def)

lemma envelope_written_delimited:
  assumes "Envelope_valid E m" "length (wire_bytes E (Envelope_fields E m)) < 2 ^ 32"
  shows "Envelope_decodeDelimited R (OfBytes (W_finish W (Envelope_encodeDelimited W m None) @ post))
    = Some (Inr (drop_proto m, at (W_finish W (Envelope_encodeDelimited W m None) @ post)
        (length (W_finish W (Envelope_encodeDelimited W m None)))))"
  using decode_written_delimited [OF Envelope_fields_ok [OF assms(1)] sections_Envelope_encode assms(2)] assms(1)
  by (simp add: Envelope_decodeDelimited_def Envelope_encodeDelimited_def apply_Envelope_fields Envelope_valid_def)

lemma encoded_length:
  "length (W_finish W (Envelope_encode W m None)) = length (wire_bytes E (Envelope_fields E m))"
  using sections_Envelope_encode [of m] by (simp add: finish)

end

subsection \<open>Properties\<close>

text \<open>
  C12. For any writer and reader that keep the promises of the protobuf runtime, decoding the
  bytes of an encoded envelope gives back the envelope, every own property with its value and
  every absent one absent, \<open>metadata\<close> with its keys in order; the one thing lost is a metadata
  key \<open>__proto__\<close>, which the decoder's assignment to a plain object ignores. (\<open>metadata\<close> is an own
  property of every instance, so no envelope is without it: \<open>None\<close> decodes to the empty object.)
\<close>

theorem Envelope_roundtrip:
  assumes "protobuf_runtime W R E sections" "Envelope_valid E m"
  shows "decoded_value (Envelope_decode R (OfBytes (W_finish W (Envelope_encode W m None))) None None)
    = Some (Inr (drop_proto m))"
  using protobuf_runtime.envelope_written [OF assms] by (simp add: decoded_value_def)

definition sample_envelope :: envelope where
  "sample_envelope = no_envelope_properties\<lparr>e_type := Some 0, e_requestId := Some 300,
     e_serviceName := Some ''EchoService'', e_methodName := Some ''Echo'', e_payload := Some [1, 2],
     e_metadata := Some [(''7'', ''x''), (''trace'', ''abc''), (''__proto__'', ''lost'')]\<rparr>"

lemma wire_entry_ok:
  assumes "length (fst kv) < 2 ^ 29" "length (snd kv) < 2 ^ 29"
  shows "entry_ok wire_encodings kv"
  using assms length_enc_string [of "fst kv"] length_enc_string [of "snd kv"]
    length_enc_uint32 [of 10] length_enc_uint32 [of 18]
  by (simp add: entry_ok_def entry_fields_def)

lemma sample_envelope_valid: "Envelope_valid wire_encodings sample_envelope"
  by (simp add: Envelope_valid_def sample_envelope_def no_envelope_properties_def short_def
    get_payload_def get_metadata_def wire_entry_ok js_object_def is_array_index_def is_digit_def)

theorem Envelope_roundtrip_witness:
  "decoded_value (Envelope_decode wire_reader
       (OfBytes (W_finish wire_writer (Envelope_encode wire_writer sample_envelope None))) None None)
     = Some (Inr (sample_envelope\<lparr>e_metadata := Some [(''7'', ''x''), (''trace'', ''abc'')]\<rparr>))"
  using Envelope_roundtrip [OF wire.protobuf_runtime_axioms sample_envelope_valid]
  by (simp add: drop_proto_def sample_envelope_def get_metadata_def)

text \<open>
  Length-delimited envelopes can be written one after another: decoding from the start of
  a buffer that holds one, followed by any bytes, gives that envelope and leaves the reader
  exactly at the first byte after it.
\<close>

lemma Envelope_delimited_roundtrip:
  assumes "protobuf_runtime W R E sections" "Envelope_valid E m"
    and "length (W_finish W (Envelope_encode W m None)) < 2 ^ 32"
  shows "Envelope_decodeDelimited R (OfBytes (W_finish W (Envelope_encodeDelimited W m None) @ post))
    = Some (Inr (drop_proto m, at (W_finish W (Envelope_encodeDelimited W m None) @ post)
        (length (W_finish W (Envelope_encodeDelimited W m None)))))"
  using assms(3) protobuf_runtime.envelope_written_delimited [OF assms(1,2)]
  by (simp add: protobuf_runtime.encoded_length [OF assms(1)])

text \<open>
  C30. Decoding always returns: on any bytes, whatever the declared length and stop tag, the
  decoder gives an envelope or throws; it never loops, not even inside a metadata entry whose
  declared length exceeds the buffer.
\<close>

theorem Envelope_decode_returns:
  assumes "protobuf_runtime W R E sections"
  shows "\<exists>x. Envelope_decode R src len error = Some x"
  using protobuf_runtime.decode_message_total [OF assms protobuf_runtime.Envelope_field_total [OF assms]]
  by (simp add: Envelope_decode_def)

theorem Envelope_decode_returns_witness:
  "\<exists>x. Envelope_decode wire_reader (OfBytes [66, 255, 255, 255, 255, 15, 10, 200]) None None = Some x"
  by (rule Envelope_decode_returns [OF wire.protobuf_runtime_axioms])

end
