(* ===== verification/Service_Messages.thy ===== *)
theory Service_Messages
  imports Envelope
begin

section \<open>The messages of the services (\<open>sdk/js/src/generated/proto.js\<close>)\<close>

text \<open>
  \<open>Ping\<close>, \<open>Pong\<close>, \<open>EchoRequest\<close>, \<open>EchoResponse\<close> and \<open>ServiceDescriptor\<close>, as generated from the
  schema: records of optional own properties (a signed 64-bit timestamp is its 64-bit word), an
  encoder and a decoder each. The interface \<open>proto_type\<close> is the \<open>ProtoType\<close> of \<open>rpc/client.ts\<close>,
  by which the client and the typed handlers of the server use any message class.
\<close>

subsection \<open>The interface of a message class\<close>

record 'm proto_type =
  pt_encode :: "'m \<Rightarrow> bytes"
  pt_decode :: "bytes \<Rightarrow> (string + 'm) option"

text \<open>
  Decoding returns on any bytes, a message or an exception, and reads back what was encoded:
  the message itself, \<open>shown\<close> as the constructor completes it.
\<close>

locale proto_class =
  fixes P :: "'m proto_type"
    and sendable :: "'m \<Rightarrow> bool"
    and shown :: "'m \<Rightarrow> 'm"
  assumes decode_returns: "\<exists>x. pt_decode P b = Some x"
    and decode_encode: "sendable m \<Longrightarrow> pt_decode P (pt_encode P m) = Some (Inr (shown m))"

subsection \<open>Ping\<close>

record ping =
  ping_clientId :: "string option"

definition Ping_new :: "ping \<Rightarrow> ping" where
  "Ping_new properties = properties"

definition no_ping_properties :: ping where
  "no_ping_properties = \<lparr>ping_clientId = None\<rparr>"

definition Ping_create :: "ping \<Rightarrow> ping" where
  "Ping_create properties = Ping_new properties"

definition Ping_encode :: "'w writer_ops \<Rightarrow> ping \<Rightarrow> 'w option \<Rightarrow> 'w" where
  "Ping_encode W m writer =
     (let w = (case writer of None \<Rightarrow> W_create W | Some w \<Rightarrow> w)
      in write_opt (ping_clientId m) (\<lambda>v w. W_string W v (W_uint32 W 10 w)) w)"

definition Ping_encodeDelimited :: "'w writer_ops \<Rightarrow> ping \<Rightarrow> 'w option \<Rightarrow> 'w" where
  "Ping_encodeDelimited W m writer = W_ldelim W (Ping_encode W m writer)"

definition Ping_field :: "reader_ops \<Rightarrow> u32 \<Rightarrow> pb_reader \<Rightarrow> ping \<Rightarrow> ping decoded" where
  "Ping_field R tag r m =
     (let n = field_number tag in
      if n = 1 then read_into (R_string R) (\<lambda>v. m\<lparr>ping_clientId := Some v\<rparr>) r
      else skip_field R tag r m)"

definition Ping_decode :: "reader_ops \<Rightarrow> source \<Rightarrow> nat option \<Rightarrow> u32 option \<Rightarrow> ping decoded" where
  "Ping_decode R = decode_message (Ping_field R) (Ping_new no_ping_properties) R"

definition Ping_decodeDelimited :: "reader_ops \<Rightarrow> source \<Rightarrow> ping decoded" where
  "Ping_decodeDelimited R = decode_delimited (Ping_field R) (Ping_new no_ping_properties) R"

definition Ping_getTypeUrl :: "string option \<Rightarrow> string" where
  "Ping_getTypeUrl p = default type_url_prefix p @ ''/ibridger.Ping''"

definition Ping_type :: "'w writer_ops \<Rightarrow> reader_ops \<Rightarrow> ping proto_type" where
  "Ping_type W R = \<lparr>pt_encode = (\<lambda>m. W_finish W (Ping_encode W m None)),
     pt_decode = (\<lambda>b. decoded_value (Ping_decode R (OfBytes b) None None))\<rparr>"

definition Ping_fields :: "encodings \<Rightarrow> ping \<Rightarrow> ping field list" where
  "Ping_fields E m =
     opt_field 10 (enc_string E) (\<lambda>v m. m\<lparr>ping_clientId := Some v\<rparr>) (ping_clientId m)"

definition Ping_sendable :: "ping \<Rightarrow> bool" where
  "Ping_sendable m \<longleftrightarrow> short (ping_clientId m)"

context protobuf_runtime
begin

lemma Ping_sections: "sections (Ping_encode W m None) = [wire_bytes E (Ping_fields E m)]"
  by (simp add: Ping_encode_def Let_def Ping_fields_def wire_bytes_opt put_opts create)

lemma Ping_fields_ok:
  "Ping_sendable m \<Longrightarrow> list_all (field_ok (Ping_field R)) (Ping_fields E m)"
  unfolding Ping_fields_def list_all_append
  by (rule field_ok_opt [OF reads_string, where default_of = "default []"])
     (auto simp: Ping_sendable_def short_def Ping_field_def field_number_def)

lemma Ping_apply: "apply_fields (Ping_fields E m) (Ping_new no_ping_properties) = m"
  by (cases m) (simp add: Ping_fields_def apply_opt_field Ping_new_def no_ping_properties_def split: option.split)

lemma Ping_field_total: "field_total (Ping_field R)"
  using advances unfolding field_total_def Ping_field_def Let_def by (auto intro: inv_intros)

lemma Ping_class: "proto_class (Ping_type W R) Ping_sendable id"
proof
  show "\<exists>x. pt_decode (Ping_type W R) b = Some x" for b
    using decode_message_total [OF Ping_field_total]
    by (simp add: Ping_type_def Ping_decode_def decoded_value_def)
  show "pt_decode (Ping_type W R) (pt_encode (Ping_type W R) m) = Some (Inr (id m))"
    if "Ping_sendable m" for m
    using decode_written [OF Ping_fields_ok [OF that] Ping_sections]
    by (simp add: Ping_type_def Ping_decode_def decoded_value_def Ping_apply)
qed

end

subsection \<open>Pong\<close>

record pong =
  pong_serverId :: "string option"
  pong_timestampMs :: "u64 option"

definition Pong_new :: "pong \<Rightarrow> pong" where
  "Pong_new properties = properties"

definition no_pong_properties :: pong where
  "no_pong_properties = \<lparr>pong_serverId = None, pong_timestampMs = None\<rparr>"

definition Pong_create :: "pong \<Rightarrow> pong" where
  "Pong_create properties = Pong_new properties"

definition Pong_encode :: "'w writer_ops \<Rightarrow> pong \<Rightarrow> 'w option \<Rightarrow> 'w" where
  "Pong_encode W m writer =
     (let w = (case writer of None \<Rightarrow> W_create W | Some w \<Rightarrow> w);
          w = write_opt (pong_serverId m) (\<lambda>v w. W_string W v (W_uint32 W 10 w)) w
      in write_opt (pong_timestampMs m) (\<lambda>v w. W_int64 W v (W_uint32 W 16 w)) w)"

definition Pong_encodeDelimited :: "'w writer_ops \<Rightarrow> pong \<Rightarrow> 'w option \<Rightarrow> 'w" where
  "Pong_encodeDelimited W m writer = W_ldelim W (Pong_encode W m writer)"

definition Pong_field :: "reader_ops \<Rightarrow> u32 \<Rightarrow> pb_reader \<Rightarrow> pong \<Rightarrow> pong decoded" where
  "Pong_field R tag r m =
     (let n = field_number tag in
      if n = 1 then read_into (R_string R) (\<lambda>v. m\<lparr>pong_serverId := Some v\<rparr>) r
      else if n = 2 then read_into (R_int64 R) (\<lambda>v. m\<lparr>pong_timestampMs := Some v\<rparr>) r
      else skip_field R tag r m)"

definition Pong_decode :: "reader_ops \<Rightarrow> source \<Rightarrow> nat option \<Rightarrow> u32 option \<Rightarrow> pong decoded" where
  "Pong_decode R = decode_message (Pong_field R) (Pong_new no_pong_properties) R"

definition Pong_decodeDelimited :: "reader_ops \<Rightarrow> source \<Rightarrow> pong decoded" where
  "Pong_decodeDelimited R = decode_delimited (Pong_field R) (Pong_new no_pong_properties) R"

definition Pong_getTypeUrl :: "string option \<Rightarrow> string" where
  "Pong_getTypeUrl p = default type_url_prefix p @ ''/ibridger.Pong''"

definition Pong_type :: "'w writer_ops \<Rightarrow> reader_ops \<Rightarrow> pong proto_type" where
  "Pong_type W R = \<lparr>pt_encode = (\<lambda>m. W_finish W (Pong_encode W m None)),
     pt_decode = (\<lambda>b. decoded_value (Pong_decode R (OfBytes b) None None))\<rparr>"

definition Pong_fields :: "encodings \<Rightarrow> pong \<Rightarrow> pong field list" where
  "Pong_fields E m =
     opt_field 10 (enc_string E) (\<lambda>v m. m\<lparr>pong_serverId := Some v\<rparr>) (pong_serverId m) @
     opt_field 16 (enc_int64 E) (\<lambda>v m. m\<lparr>pong_timestampMs := Some v\<rparr>) (pong_timestampMs m)"

definition Pong_sendable :: "pong \<Rightarrow> bool" where
  "Pong_sendable m \<longleftrightarrow> short (pong_serverId m)"

context protobuf_runtime
begin

lemma Pong_sections: "sections (Pong_encode W m None) = [wire_bytes E (Pong_fields E m)]"
  by (simp add: Pong_encode_def Let_def Pong_fields_def wire_bytes_opt put_opts create)

lemma Pong_fields_ok:
  "Pong_sendable m \<Longrightarrow> list_all (field_ok (Pong_field R)) (Pong_fields E m)"
  unfolding Pong_fields_def list_all_append
  by (intro conjI field_ok_opt [OF reads_string, where default_of = "default []"] field_ok_opt [OF reads_int64])
     (auto simp: Pong_sendable_def short_def Pong_field_def field_number_def)

lemma Pong_apply: "apply_fields (Pong_fields E m) (Pong_new no_pong_properties) = m"
  by (cases m) (simp add: Pong_fields_def apply_opt_field Pong_new_def no_pong_properties_def split: option.split)

lemma Pong_field_total: "field_total (Pong_field R)"
  using advances unfolding field_total_def Pong_field_def Let_def by (auto intro: inv_intros)

lemma Pong_class: "proto_class (Pong_type W R) Pong_sendable id"
proof
  show "\<exists>x. pt_decode (Pong_type W R) b = Some x" for b
    using decode_message_total [OF Pong_field_total]
    by (simp add: Pong_type_def Pong_decode_def decoded_value_def)
  show "pt_decode (Pong_type W R) (pt_encode (Pong_type W R) m) = Some (Inr (id m))"
    if "Pong_sendable m" for m
    using decode_written [OF Pong_fields_ok [OF that] Pong_sections]
    by (simp add: Pong_type_def Pong_decode_def decoded_value_def Pong_apply)
qed

end

subsection \<open>EchoRequest\<close>

record echo_request =
  echoreq_message :: "string option"

definition EchoRequest_new :: "echo_request \<Rightarrow> echo_request" where
  "EchoRequest_new properties = properties"

definition no_echo_request_properties :: echo_request where
  "no_echo_request_properties = \<lparr>echoreq_message = None\<rparr>"

definition EchoRequest_create :: "echo_request \<Rightarrow> echo_request" where
  "EchoRequest_create properties = EchoRequest_new properties"

definition EchoRequest_encode :: "'w writer_ops \<Rightarrow> echo_request \<Rightarrow> 'w option \<Rightarrow> 'w" where
  "EchoRequest_encode W m writer =
     (let w = (case writer of None \<Rightarrow> W_create W | Some w \<Rightarrow> w)
      in write_opt (echoreq_message m) (\<lambda>v w. W_string W v (W_uint32 W 10 w)) w)"

definition EchoRequest_encodeDelimited :: "'w writer_ops \<Rightarrow> echo_request \<Rightarrow> 'w option \<Rightarrow> 'w" where
  "EchoRequest_encodeDelimited W m writer = W_ldelim W (EchoRequest_encode W m writer)"

definition EchoRequest_field :: "reader_ops \<Rightarrow> u32 \<Rightarrow> pb_reader \<Rightarrow> echo_request \<Rightarrow> echo_request decoded" where
  "EchoRequest_field R tag r m =
     (let n = field_number tag in
      if n = 1 then read_into (R_string R) (\<lambda>v. m\<lparr>echoreq_message := Some v\<rparr>) r
      else skip_field R tag r m)"

definition EchoRequest_decode :: "reader_ops \<Rightarrow> source \<Rightarrow> nat option \<Rightarrow> u32 option \<Rightarrow> echo_request decoded" where
  "EchoRequest_decode R = decode_message (EchoRequest_field R) (EchoRequest_new no_echo_request_properties) R"

definition EchoRequest_decodeDelimited :: "reader_ops \<Rightarrow> source \<Rightarrow> echo_request decoded" where
  "EchoRequest_decodeDelimited R = decode_delimited (EchoRequest_field R) (EchoRequest_new no_echo_request_properties) R"

definition EchoRequest_getTypeUrl :: "string option \<Rightarrow> string" where
  "EchoRequest_getTypeUrl p = default type_url_prefix p @ ''/ibridger.examples.EchoRequest''"

definition EchoRequest_type :: "'w writer_ops \<Rightarrow> reader_ops \<Rightarrow> echo_request proto_type" where
  "EchoRequest_type W R = \<lparr>pt_encode = (\<lambda>m. W_finish W (EchoRequest_encode W m None)),
     pt_decode = (\<lambda>b. decoded_value (EchoRequest_decode R (OfBytes b) None None))\<rparr>"

definition EchoRequest_fields :: "encodings \<Rightarrow> echo_request \<Rightarrow> echo_request field list" where
  "EchoRequest_fields E m =
     opt_field 10 (enc_string E) (\<lambda>v m. m\<lparr>echoreq_message := Some v\<rparr>) (echoreq_message m)"

definition EchoRequest_sendable :: "echo_request \<Rightarrow> bool" where
  "EchoRequest_sendable m \<longleftrightarrow> short (echoreq_message m)"

context protobuf_runtime
begin

lemma EchoRequest_sections: "sections (EchoRequest_encode W m None) = [wire_bytes E (EchoRequest_fields E m)]"
  by (simp add: EchoRequest_encode_def Let_def EchoRequest_fields_def wire_bytes_opt put_opts create)

lemma EchoRequest_fields_ok:
  "EchoRequest_sendable m \<Longrightarrow> list_all (field_ok (EchoRequest_field R)) (EchoRequest_fields E m)"
  unfolding EchoRequest_fields_def list_all_append
  by (rule field_ok_opt [OF reads_string, where default_of = "default []"])
     (auto simp: EchoRequest_sendable_def short_def EchoRequest_field_def field_number_def)

lemma EchoRequest_apply: "apply_fields (EchoRequest_fields E m) (EchoRequest_new no_echo_request_properties) = m"
  by (cases m) (simp add: EchoRequest_fields_def apply_opt_field EchoRequest_new_def no_echo_request_properties_def split: option.split)

lemma EchoRequest_field_total: "field_total (EchoRequest_field R)"
  using advances unfolding field_total_def EchoRequest_field_def Let_def by (auto intro: inv_intros)

lemma EchoRequest_class: "proto_class (EchoRequest_type W R) EchoRequest_sendable id"
proof
  show "\<exists>x. pt_decode (EchoRequest_type W R) b = Some x" for b
    using decode_message_total [OF EchoRequest_field_total]
    by (simp add: EchoRequest_type_def EchoRequest_decode_def decoded_value_def)
  show "pt_decode (EchoRequest_type W R) (pt_encode (EchoRequest_type W R) m) = Some (Inr (id m))"
    if "EchoRequest_sendable m" for m
    using decode_written [OF EchoRequest_fields_ok [OF that] EchoRequest_sections]
    by (simp add: EchoRequest_type_def EchoRequest_decode_def decoded_value_def EchoRequest_apply)
qed

end

subsection \<open>EchoResponse\<close>

record echo_response =
  echoresp_message :: "string option"
  echoresp_timestampMs :: "u64 option"

definition EchoResponse_new :: "echo_response \<Rightarrow> echo_response" where
  "EchoResponse_new properties = properties"

definition no_echo_response_properties :: echo_response where
  "no_echo_response_properties = \<lparr>echoresp_message = None, echoresp_timestampMs = None\<rparr>"

definition EchoResponse_create :: "echo_response \<Rightarrow> echo_response" where
  "EchoResponse_create properties = EchoResponse_new properties"

definition EchoResponse_encode :: "'w writer_ops \<Rightarrow> echo_response \<Rightarrow> 'w option \<Rightarrow> 'w" where
  "EchoResponse_encode W m writer =
     (let w = (case writer of None \<Rightarrow> W_create W | Some w \<Rightarrow> w);
          w = write_opt (echoresp_message m) (\<lambda>v w. W_string W v (W_uint32 W 10 w)) w
      in write_opt (echoresp_timestampMs m) (\<lambda>v w. W_int64 W v (W_uint32 W 16 w)) w)"

definition EchoResponse_encodeDelimited :: "'w writer_ops \<Rightarrow> echo_response \<Rightarrow> 'w option \<Rightarrow> 'w" where
  "EchoResponse_encodeDelimited W m writer = W_ldelim W (EchoResponse_encode W m writer)"

definition EchoResponse_field :: "reader_ops \<Rightarrow> u32 \<Rightarrow> pb_reader \<Rightarrow> echo_response \<Rightarrow> echo_response decoded" where
  "EchoResponse_field R tag r m =
     (let n = field_number tag in
      if n = 1 then read_into (R_string R) (\<lambda>v. m\<lparr>echoresp_message := Some v\<rparr>) r
      else if n = 2 then read_into (R_int64 R) (\<lambda>v. m\<lparr>echoresp_timestampMs := Some v\<rparr>) r
      else skip_field R tag r m)"

definition EchoResponse_decode :: "reader_ops \<Rightarrow> source \<Rightarrow> nat option \<Rightarrow> u32 option \<Rightarrow> echo_response decoded" where
  "EchoResponse_decode R = decode_message (EchoResponse_field R) (EchoResponse_new no_echo_response_properties) R"

definition EchoResponse_decodeDelimited :: "reader_ops \<Rightarrow> source \<Rightarrow> echo_response decoded" where
  "EchoResponse_decodeDelimited R = decode_delimited (EchoResponse_field R) (EchoResponse_new no_echo_response_properties) R"

definition EchoResponse_getTypeUrl :: "string option \<Rightarrow> string" where
  "EchoResponse_getTypeUrl p = default type_url_prefix p @ ''/ibridger.examples.EchoResponse''"

definition EchoResponse_type :: "'w writer_ops \<Rightarrow> reader_ops \<Rightarrow> echo_response proto_type" where
  "EchoResponse_type W R = \<lparr>pt_encode = (\<lambda>m. W_finish W (EchoResponse_encode W m None)),
     pt_decode = (\<lambda>b. decoded_value (EchoResponse_decode R (OfBytes b) None None))\<rparr>"

definition EchoResponse_fields :: "encodings \<Rightarrow> echo_response \<Rightarrow> echo_response field list" where
  "EchoResponse_fields E m =
     opt_field 10 (enc_string E) (\<lambda>v m. m\<lparr>echoresp_message := Some v\<rparr>) (echoresp_message m) @
     opt_field 16 (enc_int64 E) (\<lambda>v m. m\<lparr>echoresp_timestampMs := Some v\<rparr>) (echoresp_timestampMs m)"

definition EchoResponse_sendable :: "echo_response \<Rightarrow> bool" where
  "EchoResponse_sendable m \<longleftrightarrow> short (echoresp_message m)"

context protobuf_runtime
begin

lemma EchoResponse_sections: "sections (EchoResponse_encode W m None) = [wire_bytes E (EchoResponse_fields E m)]"
  by (simp add: EchoResponse_encode_def Let_def EchoResponse_fields_def wire_bytes_opt put_opts create)

lemma EchoResponse_fields_ok:
  "EchoResponse_sendable m \<Longrightarrow> list_all (field_ok (EchoResponse_field R)) (EchoResponse_fields E m)"
  unfolding EchoResponse_fields_def list_all_append
  by (intro conjI field_ok_opt [OF reads_string, where default_of = "default []"] field_ok_opt [OF reads_int64])
     (auto simp: EchoResponse_sendable_def short_def EchoResponse_field_def field_number_def)

lemma EchoResponse_apply: "apply_fields (EchoResponse_fields E m) (EchoResponse_new no_echo_response_properties) = m"
  by (cases m) (simp add: EchoResponse_fields_def apply_opt_field EchoResponse_new_def no_echo_response_properties_def split: option.split)

lemma EchoResponse_field_total: "field_total (EchoResponse_field R)"
  using advances unfolding field_total_def EchoResponse_field_def Let_def by (auto intro: inv_intros)

lemma EchoResponse_class: "proto_class (EchoResponse_type W R) EchoResponse_sendable id"
proof
  show "\<exists>x. pt_decode (EchoResponse_type W R) b = Some x" for b
    using decode_message_total [OF EchoResponse_field_total]
    by (simp add: EchoResponse_type_def EchoResponse_decode_def decoded_value_def)
  show "pt_decode (EchoResponse_type W R) (pt_encode (EchoResponse_type W R) m) = Some (Inr (id m))"
    if "EchoResponse_sendable m" for m
    using decode_written [OF EchoResponse_fields_ok [OF that] EchoResponse_sections]
    by (simp add: EchoResponse_type_def EchoResponse_decode_def decoded_value_def EchoResponse_apply)
qed

end

subsection \<open>ServiceDescriptor\<close>

text \<open>
  The constructor makes \<open>methods\<close> an own property. The encoder reads \<open>methods\<close> whether own or
  inherited (the prototype's empty array), and writes one field per element.
\<close>

record service_descriptor =
  sd_name :: "string option"
  sd_methods :: "string list option"

definition no_service_descriptor_properties :: service_descriptor where
  "no_service_descriptor_properties = \<lparr>sd_name = None, sd_methods = None\<rparr>"

definition ServiceDescriptor_new :: "service_descriptor \<Rightarrow> service_descriptor" where
  "ServiceDescriptor_new properties = properties\<lparr>sd_methods := Some (default [] (sd_methods properties))\<rparr>"

definition ServiceDescriptor_create :: "service_descriptor \<Rightarrow> service_descriptor" where
  "ServiceDescriptor_create properties = ServiceDescriptor_new properties"

definition get_methods :: "service_descriptor \<Rightarrow> string list" where
  "get_methods m = default [] (sd_methods m)"

definition ServiceDescriptor_encode :: "'w writer_ops \<Rightarrow> service_descriptor \<Rightarrow> 'w option \<Rightarrow> 'w" where
  "ServiceDescriptor_encode W m writer =
     (let w = (case writer of None \<Rightarrow> W_create W | Some w \<Rightarrow> w);
          w = write_opt (sd_name m) (\<lambda>v w. W_string W v (W_uint32 W 10 w)) w
      in fold (\<lambda>x w. W_string W x (W_uint32 W 18 w)) (get_methods m) w)"

definition ServiceDescriptor_encodeDelimited ::
    "'w writer_ops \<Rightarrow> service_descriptor \<Rightarrow> 'w option \<Rightarrow> 'w" where
  "ServiceDescriptor_encodeDelimited W m writer = W_ldelim W (ServiceDescriptor_encode W m writer)"

definition push_method :: "string \<Rightarrow> service_descriptor \<Rightarrow> service_descriptor" where
  "push_method x m = m\<lparr>sd_methods := Some (get_methods m @ [x])\<rparr>"

definition ServiceDescriptor_field ::
    "reader_ops \<Rightarrow> u32 \<Rightarrow> pb_reader \<Rightarrow> service_descriptor \<Rightarrow> service_descriptor decoded" where
  "ServiceDescriptor_field R tag r m =
     (let n = field_number tag in
      if n = 1 then read_into (R_string R) (\<lambda>v. m\<lparr>sd_name := Some v\<rparr>) r
      else if n = 2 then read_into (R_string R) (\<lambda>x. push_method x m) r
      else skip_field R tag r m)"

definition ServiceDescriptor_decode ::
    "reader_ops \<Rightarrow> source \<Rightarrow> nat option \<Rightarrow> u32 option \<Rightarrow> service_descriptor decoded" where
  "ServiceDescriptor_decode R = decode_message (ServiceDescriptor_field R)
     (ServiceDescriptor_new no_service_descriptor_properties) R"

definition ServiceDescriptor_decodeDelimited :: "reader_ops \<Rightarrow> source \<Rightarrow> service_descriptor decoded" where
  "ServiceDescriptor_decodeDelimited R = decode_delimited (ServiceDescriptor_field R)
     (ServiceDescriptor_new no_service_descriptor_properties) R"

definition ServiceDescriptor_getTypeUrl :: "string option \<Rightarrow> string" where
  "ServiceDescriptor_getTypeUrl p = default type_url_prefix p @ ''/ibridger.ServiceDescriptor''"

definition ServiceDescriptor_type :: "'w writer_ops \<Rightarrow> reader_ops \<Rightarrow> service_descriptor proto_type" where
  "ServiceDescriptor_type W R = \<lparr>pt_encode = (\<lambda>m. W_finish W (ServiceDescriptor_encode W m None)),
     pt_decode = (\<lambda>b. decoded_value (ServiceDescriptor_decode R (OfBytes b) None None))\<rparr>"

definition ServiceDescriptor_fields ::
    "encodings \<Rightarrow> service_descriptor \<Rightarrow> service_descriptor field list" where
  "ServiceDescriptor_fields E m =
     opt_field 10 (enc_string E) (\<lambda>v m. m\<lparr>sd_name := Some v\<rparr>) (sd_name m) @
     map (\<lambda>x. (18, enc_string E x, push_method x)) (get_methods m)"

definition ServiceDescriptor_sendable :: "service_descriptor \<Rightarrow> bool" where
  "ServiceDescriptor_sendable m \<longleftrightarrow> short (sd_name m) \<and> list_all (\<lambda>x. length x < 2 ^ 30) (get_methods m)"

lemma apply_push_methods:
  "sd_methods m = Some ys \<Longrightarrow>
   apply_fields (map (\<lambda>x. (18, b x, push_method x)) xs) m = m\<lparr>sd_methods := Some (ys @ xs)\<rparr>"
  by (induction xs arbitrary: m ys) (simp_all add: push_method_def get_methods_def)

context protobuf_runtime
begin

lemma sections_methods:
  "sections w \<noteq> [] \<Longrightarrow> sections (fold (\<lambda>x w. W_string W x (W_uint32 W 18 w)) xs w)
     = put (concat (map (\<lambda>x. enc_uint32 E 18 @ enc_string E x) xs)) (sections w)"
  by (induction xs arbitrary: w) (simp_all add: put_Nil put_string put_uint32)

lemma ServiceDescriptor_sections:
  "sections (ServiceDescriptor_encode W m None) = [wire_bytes E (ServiceDescriptor_fields E m)]"
  by (simp add: ServiceDescriptor_encode_def Let_def ServiceDescriptor_fields_def wire_bytes_opt
      wire_bytes_map sections_methods put_opts create)

lemma ServiceDescriptor_fields_ok:
  assumes "ServiceDescriptor_sendable m"
  shows "list_all (field_ok (ServiceDescriptor_field R)) (ServiceDescriptor_fields E m)"
proof -
  note v = assms [unfolded ServiceDescriptor_sendable_def short_def]
  have "field_ok (ServiceDescriptor_field R) (18, enc_string E x, push_method x)"
    if "x \<in> set (get_methods m)" for x
    using v that by (intro field_ok_read [OF reads_string])
      (simp_all add: list_all_iff ServiceDescriptor_field_def field_number_def)
  moreover have "list_all (field_ok (ServiceDescriptor_field R))
      (opt_field 10 (enc_string E) (\<lambda>v m. m\<lparr>sd_name := Some v\<rparr>) (sd_name m))"
    using v by (intro field_ok_opt [OF reads_string, where default_of = "default []"])
      (simp_all add: ServiceDescriptor_field_def field_number_def)
  ultimately show ?thesis
    by (auto simp: ServiceDescriptor_fields_def list_all_iff)
qed

lemma ServiceDescriptor_apply:
  "apply_fields (ServiceDescriptor_fields E m) (ServiceDescriptor_new no_service_descriptor_properties)
    = ServiceDescriptor_new m"
  by (cases m) (simp add: ServiceDescriptor_fields_def apply_opt_field apply_push_methods [where ys = "[]"]
    ServiceDescriptor_new_def no_service_descriptor_properties_def get_methods_def split: option.split)

lemma ServiceDescriptor_field_total: "field_total (ServiceDescriptor_field R)"
  using advances unfolding field_total_def ServiceDescriptor_field_def Let_def
  by (auto intro: inv_intros)

lemma ServiceDescriptor_class:
  "proto_class (ServiceDescriptor_type W R) ServiceDescriptor_sendable ServiceDescriptor_new"
proof
  show "\<exists>x. pt_decode (ServiceDescriptor_type W R) b = Some x" for b
    using decode_message_total [OF ServiceDescriptor_field_total]
    by (simp add: ServiceDescriptor_type_def ServiceDescriptor_decode_def decoded_value_def)
  show "pt_decode (ServiceDescriptor_type W R) (pt_encode (ServiceDescriptor_type W R) m)
      = Some (Inr (ServiceDescriptor_new m))" if "ServiceDescriptor_sendable m" for m
    using decode_written [OF ServiceDescriptor_fields_ok [OF that] ServiceDescriptor_sections]
    by (simp add: ServiceDescriptor_type_def ServiceDescriptor_decode_def decoded_value_def
        ServiceDescriptor_apply)
qed

end

subsection \<open>The classes over the wire format\<close>

interpretation ping_class: proto_class "Ping_type wire_writer wire_reader" Ping_sendable id
  by (rule wire.Ping_class)

interpretation pong_class: proto_class "Pong_type wire_writer wire_reader" Pong_sendable id
  by (rule wire.Pong_class)

interpretation echo_request_class: proto_class "EchoRequest_type wire_writer wire_reader"
  EchoRequest_sendable id
  by (rule wire.EchoRequest_class)

interpretation echo_response_class: proto_class "EchoResponse_type wire_writer wire_reader"
  EchoResponse_sendable id
  by (rule wire.EchoResponse_class)

interpretation service_descriptor_class: proto_class "ServiceDescriptor_type wire_writer wire_reader"
  ServiceDescriptor_sendable ServiceDescriptor_new
  by (rule wire.ServiceDescriptor_class)

subsection \<open>Properties\<close>

text \<open>
  A service descriptor survives the wire: its name and its methods, in order, come back,
  and an absent list of methods comes back as the empty one.
\<close>

lemma ServiceDescriptor_roundtrip:
  assumes "protobuf_runtime W R E sections" "ServiceDescriptor_sendable m"
  shows "decoded_value (ServiceDescriptor_decode R
      (OfBytes (W_finish W (ServiceDescriptor_encode W m None))) None None)
    = Some (Inr (ServiceDescriptor_new m))"
  using proto_class.decode_encode [OF protobuf_runtime.ServiceDescriptor_class [OF assms(1)] assms(2)]
  by (simp add: ServiceDescriptor_type_def)

text \<open>
  C32. The messages of the services survive the wire: those of the built-in ping and of the echo
  service exactly, absent properties stay absent and timestamps keep all their 64 bits; a
  descriptor with its name and its methods in order, an absent list of methods as the empty one.
\<close>

theorem service_messages_roundtrip:
  assumes "protobuf_runtime W R E sections"
    and "Ping_sendable m1" "Pong_sendable m2" "EchoRequest_sendable m3" "EchoResponse_sendable m4"
    and "ServiceDescriptor_sendable m5"
  shows "decoded_value (Ping_decode R (OfBytes (W_finish W (Ping_encode W m1 None))) None None) = Some (Inr m1)
    \<and> decoded_value (Pong_decode R (OfBytes (W_finish W (Pong_encode W m2 None))) None None) = Some (Inr m2)
    \<and> decoded_value (EchoRequest_decode R (OfBytes (W_finish W (EchoRequest_encode W m3 None))) None None)
        = Some (Inr m3)
    \<and> decoded_value (EchoResponse_decode R (OfBytes (W_finish W (EchoResponse_encode W m4 None))) None None)
        = Some (Inr m4)
    \<and> decoded_value (ServiceDescriptor_decode R
          (OfBytes (W_finish W (ServiceDescriptor_encode W m5 None))) None None)
        = Some (Inr (ServiceDescriptor_new m5))"
  using proto_class.decode_encode [OF protobuf_runtime.Ping_class [OF assms(1)] assms(2)]
    proto_class.decode_encode [OF protobuf_runtime.Pong_class [OF assms(1)] assms(3)]
    proto_class.decode_encode [OF protobuf_runtime.EchoRequest_class [OF assms(1)] assms(4)]
    proto_class.decode_encode [OF protobuf_runtime.EchoResponse_class [OF assms(1)] assms(5)]
    ServiceDescriptor_roundtrip [OF assms(1,6)]
  by (simp add: Ping_type_def Pong_type_def EchoRequest_type_def EchoResponse_type_def)

theorem service_messages_roundtrip_witness:
  "decoded_value (Pong_decode wire_reader (OfBytes (W_finish wire_writer (Pong_encode wire_writer
      \<lparr>pong_serverId = Some ''ibridger-server'', pong_timestampMs = Some (-1)\<rparr> None))) None None)
    = Some (Inr \<lparr>pong_serverId = Some ''ibridger-server'', pong_timestampMs = Some (-1)\<rparr>) \<and>
   decoded_value (ServiceDescriptor_decode wire_reader (OfBytes (W_finish wire_writer
      (ServiceDescriptor_encode wire_writer \<lparr>sd_name = Some ''S'', sd_methods = Some [''a'', ''b'']\<rparr> None))) None None)
    = Some (Inr \<lparr>sd_name = Some ''S'', sd_methods = Some [''a'', ''b'']\<rparr>)"
  using service_messages_roundtrip [OF wire.protobuf_runtime_axioms, of "\<lparr>ping_clientId = None\<rparr>"
    "\<lparr>pong_serverId = Some ''ibridger-server'', pong_timestampMs = Some (-1)\<rparr>"
    "\<lparr>echoreq_message = None\<rparr>" "\<lparr>echoresp_message = None, echoresp_timestampMs = None\<rparr>"
    "\<lparr>sd_name = Some ''S'', sd_methods = Some [''a'', ''b'']\<rparr>"]
  by (simp add: Ping_sendable_def Pong_sendable_def EchoRequest_sendable_def EchoResponse_sendable_def
    ServiceDescriptor_sendable_def short_def get_methods_def ServiceDescriptor_new_def)

text \<open>
  The decoders of all the service messages return on any bytes: a message or an exception,
  never a loop that does not end.
\<close>

lemma service_messages_decode_return:
  assumes "protobuf_runtime W R E sections"
  shows "(\<exists>x. Ping_decode R src len error = Some x) \<and> (\<exists>x. Pong_decode R src len error = Some x)
    \<and> (\<exists>x. EchoRequest_decode R src len error = Some x)
    \<and> (\<exists>x. EchoResponse_decode R src len error = Some x)
    \<and> (\<exists>x. ServiceDescriptor_decode R src len error = Some x)"
  unfolding Ping_decode_def Pong_decode_def EchoRequest_decode_def EchoResponse_decode_def
    ServiceDescriptor_decode_def
  by (intro conjI protobuf_runtime.decode_message_total [OF assms]
    protobuf_runtime.Ping_field_total [OF assms] protobuf_runtime.Pong_field_total [OF assms]
    protobuf_runtime.EchoRequest_field_total [OF assms] protobuf_runtime.EchoResponse_field_total [OF assms]
    protobuf_runtime.ServiceDescriptor_field_total [OF assms])

end
