(* ===== verification/Envelope_Codec.thy ===== *)
theory Envelope_Codec
  imports Framing Envelope
begin

section \<open>Envelopes over a framed connection\<close>

text \<open>
  The class \<open>EnvelopeCodec\<close> of \<open>sdk/js/src/protocol/envelope-codec.ts\<close>. \<open>send\<close> encodes the
  envelope and awaits \<open>sendFrame\<close>, so its outcome is that of \<open>sendFrame\<close>; \<open>recv\<close> awaits
  \<open>recvFrame\<close> and decodes the frame, turning what the decoder throws into an \<open>EBADMSG\<close>.
\<close>

definition encode_envelope :: "'w writer_ops \<Rightarrow> envelope \<Rightarrow> bytes" where
  "encode_envelope W m = W_finish W (Envelope_encode W m None)"

definition decode_failure :: "string \<Rightarrow> transport_error" where
  "decode_failure message = TransportError (''Failed to decode Envelope: '' @ message) ''EBADMSG''"

text \<open>The decoding of one frame; \<open>None\<close> if the decoder did not return.\<close>

definition decode_envelope :: "reader_ops \<Rightarrow> bytes \<Rightarrow> (transport_error + envelope) option" where
  "decode_envelope R frame = map_option (map_sum decode_failure id)
     (decoded_value (Envelope_decode R (OfBytes frame) None None))"

definition codec_send ::
    "'w writer_ops \<Rightarrow> 'c iconnection \<Rightarrow> envelope \<Rightarrow> 'c \<Rightarrow> 'c \<times> send_outcome" where
  "codec_send W ic m c = sendFrame ic (encode_envelope W m) c"

definition codec_send_resume ::
    "'c iconnection \<Rightarrow> send_point \<Rightarrow> transport_error option \<Rightarrow> 'c \<Rightarrow> 'c \<times> send_outcome" where
  "codec_send_resume ic k err c = sendFrame_resume ic k err c"

datatype codec_outcome =
    CGot envelope
  | CThrew transport_error
  | CBlocked recv_point
  | CLoops \<comment> \<open>the decoder did not return\<close>

definition codec_received :: "reader_ops \<Rightarrow> 'c \<times> recv_outcome \<Rightarrow> 'c \<times> codec_outcome" where
  "codec_received R r = (case r of
     (c, Threw e) \<Rightarrow> (c, CThrew e)
   | (c, Blocked k) \<Rightarrow> (c, CBlocked k)
   | (c, Got frame) \<Rightarrow> (c, case decode_envelope R frame of
        None \<Rightarrow> CLoops
      | Some (Inl e) \<Rightarrow> CThrew e
      | Some (Inr m) \<Rightarrow> CGot m))"

definition codec_recv :: "reader_ops \<Rightarrow> 'c iconnection \<Rightarrow> 'c \<Rightarrow> 'c \<times> codec_outcome" where
  "codec_recv R ic c = codec_received R (recvFrame ic c)"

definition codec_recv_resume ::
    "reader_ops \<Rightarrow> 'c iconnection \<Rightarrow> recv_point \<Rightarrow> transport_error + bytes \<Rightarrow> 'c \<Rightarrow> 'c \<times> codec_outcome" where
  "codec_recv_resume R ic k r c = codec_received R (recvFrame_resume ic k r c)"

subsection \<open>What a frame decodes to\<close>

text \<open>An envelope that fits a frame.\<close>

definition envelope_fits :: "'w writer_ops \<Rightarrow> encodings \<Rightarrow> envelope \<Rightarrow> bool" where
  "envelope_fits W E m \<longleftrightarrow> Envelope_valid E m \<and> frame_ok (encode_envelope W m)"

context protobuf_runtime
begin

lemma decode_encode_envelope:
  "Envelope_valid E m \<Longrightarrow> decode_envelope R (encode_envelope W m) = Some (Inr (drop_proto m))"
  by (simp add: decode_envelope_def encode_envelope_def envelope_written decoded_value_def)

lemma decode_envelope_returns: "\<exists>x. decode_envelope R frame = Some x"
  using decode_message_total [OF Envelope_field_total]
  by (simp add: decode_envelope_def Envelope_decode_def decoded_value_def)

end

subsection \<open>Sizes on the wire format\<close>

lemma length_opt_field:
  "length (wire_bytes wire_encodings (opt_field t e u x)) \<le> (case x of None \<Rightarrow> 0 | Some v \<Rightarrow> 5 + length (e v))"
  using length_enc_uint32 [of t] by (simp add: opt_field_def split: option.split)

lemma length_enc_number: "length (varint (unat (v :: u64))) \<le> 10"
  using unat_u64 [of v] by (intro length_varint pow_128) simp_all

lemma length_opt_number:
  "length (wire_bytes wire_encodings (opt_field t (enc_int32 wire_encodings) u x)) \<le> 15"
  "length (wire_bytes wire_encodings (opt_field t (enc_uint64 wire_encodings) u' y)) \<le> 15"
  "length (wire_bytes wire_encodings (opt_field t (enc_int64 wire_encodings) u' y)) \<le> 15"
  using length_opt_field [of t "enc_int32 wire_encodings" u x] length_opt_field [of t "enc_uint64 wire_encodings" u' y]
    length_opt_field [of t "enc_int64 wire_encodings" u' y] length_enc_number
  by (auto simp: wire_encodings_def split: option.splits intro: order_trans add_left_mono)

lemma length_opt_string:
  assumes "short x"
  shows "length (wire_bytes wire_encodings (opt_field t (enc_string wire_encodings) u x)) \<le> 10 + 2 * length (default [] x)"
  using length_opt_field [of t "enc_string wire_encodings" u x] length_enc_string assms
  by (cases x) (auto simp: short_def intro: order_trans)

lemma length_opt_bytes:
  assumes "length (default [] x) < 2 ^ 32"
  shows "length (wire_bytes wire_encodings (opt_field t (enc_bytes wire_encodings) u x)) \<le> 10 + length (default [] x)"
proof (cases x)
  case (Some b)
  then have "length b < 128 ^ 5" using assms by simp
  from length_varint [OF this] Some length_opt_field [of t "enc_bytes wire_encodings" u x] show ?thesis
    by (simp add: wire_encodings_def delimited_def)
qed (use length_opt_field [of t "enc_bytes wire_encodings" u x] in simp)

text \<open>An envelope without metadata that is well below the limit of a frame can be sent.\<close>

lemma small_envelope_fits:
  assumes "get_metadata m = []"
    and "2 * (length (get_serviceName m) + length (get_methodName m) + length (get_errorMessage m)) + length (get_payload m)
      \<le> 16000000"
  shows "envelope_fits wire_writer wire_encodings m"
proof -
  have ok: "short (e_serviceName m)" "short (e_methodName m)" "short (e_errorMessage m)"
    "length (default [] (e_payload m)) < 2 ^ 32"
    using assms(2) by (simp_all add: short_def envelope_gets)
  then have "Envelope_valid wire_encodings m"
    using assms(1) by (simp add: Envelope_valid_def js_object_def envelope_gets)
  moreover have "length (encode_envelope wire_writer m) \<le> 16777216"
  proof -
    have "length (encode_envelope wire_writer m) \<le> 15 + (15 + ((10 + 2 * length (get_serviceName m)) +
        ((10 + 2 * length (get_methodName m)) + ((10 + length (get_payload m)) +
          (15 + ((10 + 2 * length (get_errorMessage m)) + 0))))))"
      unfolding encode_envelope_def wire.encoded_length Envelope_fields_def assms(1) wire_bytes_simps length_append
        envelope_gets(3,4,5,7) list.map
      by (intro add_mono length_opt_number length_opt_string length_opt_bytes ok) simp
    with assms(2) show ?thesis by simp
  qed
  ultimately show ?thesis by (simp add: envelope_fits_def frame_ok_def MAX_FRAME_SIZE_value)
qed

lemma codec_received_simps [simp]:
  "codec_received R (c, Threw e) = (c, CThrew e)"
  "codec_received R (c, Blocked k) = (c, CBlocked k)"
  "decode_envelope R f = Some (Inr m) \<Longrightarrow> codec_received R (c, Got f) = (c, CGot m)"
  "decode_envelope R f = Some (Inl e) \<Longrightarrow> codec_received R (c, Got f) = (c, CThrew e)"
  by (simp_all add: codec_received_def)

text \<open>
  C31. The codec never hangs and never lets a decoder's exception through unchanged: every
  frame gives an envelope or a \<open>TransportError\<close> with code \<open>EBADMSG\<close> and the decoder's message;
  an empty frame is no error but an envelope with every field at its default.
\<close>

theorem codec_decodes_every_frame:
  assumes "protobuf_runtime W R E sections"
  shows "((\<exists>m. codec_received R (c, Got frame) = (c, CGot m)) \<or>
      (\<exists>text. decoded_value (Envelope_decode R (OfBytes frame) None None) = Some (Inl text) \<and>
         codec_received R (c, Got frame) = (c, CThrew
           (TransportError (''Failed to decode Envelope: '' @ text) ''EBADMSG'')))) \<and>
    codec_received R (c, Got []) = (c, CGot (Envelope_new no_envelope_properties))"
proof
  obtain d where "Envelope_decode R (OfBytes frame) None None = Some d"
    using protobuf_runtime.decode_message_total [OF assms protobuf_runtime.Envelope_field_total [OF assms]]
    unfolding Envelope_decode_def by blast
  then have d: "decoded_value (Envelope_decode R (OfBytes frame) None None) = Some (map_sum id fst d)"
    by (simp add: decoded_value_def)
  show "(\<exists>m. codec_received R (c, Got frame) = (c, CGot m)) \<or>
      (\<exists>text. decoded_value (Envelope_decode R (OfBytes frame) None None) = Some (Inl text) \<and>
         codec_received R (c, Got frame) = (c, CThrew
           (TransportError (''Failed to decode Envelope: '' @ text) ''EBADMSG'')))"
    by (cases d) (simp_all add: d codec_received_def decode_envelope_def decode_failure_def)
  show "codec_received R (c, Got []) = (c, CGot (Envelope_new no_envelope_properties))"
    by (simp add: codec_received_def decode_envelope_def Envelope_decode_def decode_message_def
      open_reader_def protobuf_runtime.create_reader [OF assms] decode_loop.simps decoded_value_def)
qed

theorem codec_decodes_every_frame_witness:
  "codec_received wire_reader ((), Got [])
    = ((), CGot \<lparr>e_type = None, e_requestId = None, e_serviceName = None, e_methodName = None,
        e_payload = None, e_status = None, e_errorMessage = None, e_metadata = Some []\<rparr>)"
  using codec_decodes_every_frame [OF wire.protobuf_runtime_axioms, of "()" "[]"]
  by (simp add: Envelope_new_def no_envelope_properties_def)

end
