(* ===== verification/Dispatch.thy ===== *)
theory Dispatch
  imports Service_Messages
begin

section \<open>Services, typed handlers and dispatch (\<open>sdk/js/src/rpc/server.ts\<close>)\<close>

text \<open>
  The registry of an \<open>IBridgerServer\<close> and the dispatch of one request envelope. A handler is an
  \<open>async\<close> function from payload bytes to payload bytes: its promise is fulfilled (\<open>Inr\<close>),
  rejected with a thrown value (\<open>Inl\<close>), or never settled (\<open>None\<close>). What a handler reads besides
  its payload, the clock for instance, is its argument \<open>x\<close>, the circumstances of the call.
\<close>

text \<open>A thrown value: an \<open>Error\<close> with its message, or another value with its \<open>String(e)\<close>.\<close>

datatype thrown = ErrorObject string | OtherValue string

type_synonym 'x handler = "'x \<Rightarrow> bytes \<Rightarrow> (thrown + bytes) option"
type_synonym 'x services = "string \<rightharpoonup> (string \<rightharpoonup> 'x handler)"

subsection \<open>typedMethod\<close>

definition typedMethod ::
    "'req proto_type \<Rightarrow> 'resp proto_type \<Rightarrow> ('x \<Rightarrow> 'req \<Rightarrow> (thrown + 'resp) option) \<Rightarrow> 'x handler" where
  "typedMethod reqType respType handler x payload = (case pt_decode reqType payload of
     None \<Rightarrow> None
   | Some (Inl message) \<Rightarrow> Some (Inl (ErrorObject message))
   | Some (Inr req) \<Rightarrow> (case handler x req of
        None \<Rightarrow> None
      | Some (Inl e) \<Rightarrow> Some (Inl e)
      | Some (Inr resp) \<Rightarrow> Some (Inr (pt_encode respType resp))))"

subsection \<open>Registration\<close>

text \<open>\<open>methods\<close> lists \<open>Object.entries\<close> of the service definition.\<close>

definition register :: "string \<Rightarrow> (string \<times> 'x handler) list \<Rightarrow> 'x services \<Rightarrow> 'x services" where
  "register serviceName methods services =
     (let existing = (case services serviceName of None \<Rightarrow> Map.empty | Some ms \<Rightarrow> ms)
      in services(serviceName \<mapsto> fold (\<lambda>(method, handler) ms. ms(method \<mapsto> handler)) methods existing))"

definition PING_SERVICE_NAME :: string where "PING_SERVICE_NAME = ''ibridger.Ping''"
definition PING_METHOD_NAME :: string where "PING_METHOD_NAME = ''Ping''"
definition PING_SERVER_ID :: string where "PING_SERVER_ID = ''ibridger-server''"

text \<open>\<open>clock x\<close> is \<open>Long.fromNumber(Date.now())\<close> at the time of the call.\<close>

definition ping_reply :: "('x \<Rightarrow> u64) \<Rightarrow> 'x \<Rightarrow> ping \<Rightarrow> (thrown + pong) option" where
  "ping_reply clock x req = Some (Inr (Pong_create
     \<lparr>pong_serverId = Some PING_SERVER_ID, pong_timestampMs = Some (clock x)\<rparr>))"

definition registerBuiltinPing ::
    "'w writer_ops \<Rightarrow> reader_ops \<Rightarrow> ('x \<Rightarrow> u64) \<Rightarrow> 'x services \<Rightarrow> 'x services" where
  "registerBuiltinPing W R clock = register PING_SERVICE_NAME
     [(PING_METHOD_NAME, typedMethod (Ping_type W R) (Pong_type W R) (ping_reply clock))]"

text \<open>The constructor: \<open>registerBuiltins\<close> is optional, and anything but \<open>false\<close> registers.\<close>

definition new_services ::
    "'w writer_ops \<Rightarrow> reader_ops \<Rightarrow> ('x \<Rightarrow> u64) \<Rightarrow> bool option \<Rightarrow> 'x services" where
  "new_services W R clock registerBuiltins =
     (if registerBuiltins \<noteq> Some False then registerBuiltinPing W R clock Map.empty else Map.empty)"

subsection \<open>Dispatch\<close>

definition errorEnvelope :: "envelope \<Rightarrow> u32 \<Rightarrow> string \<Rightarrow> envelope" where
  "errorEnvelope request status message = Envelope_create (no_envelope_properties
     \<lparr>e_type := Some ERROR, e_status := Some status,
      e_requestId := Some (get_requestId request), e_errorMessage := Some message\<rparr>)"

definition error_text :: "thrown \<Rightarrow> string" where
  "error_text e =
     (let text = (case e of ErrorObject message \<Rightarrow> message | OtherValue rendered \<Rightarrow> rendered)
      in if text = '''' then ''Internal server error'' else text)"

text \<open>The promise of \<open>dispatch\<close>: the response, or \<open>None\<close> if the handler's promise never settles.\<close>

definition dispatch :: "'x services \<Rightarrow> 'x \<Rightarrow> envelope \<Rightarrow> envelope option" where
  "dispatch services x request = (case services (get_serviceName request) of
     None \<Rightarrow> Some (errorEnvelope request NOT_FOUND (''Service not found: '' @ get_serviceName request))
   | Some service \<Rightarrow> (case service (get_methodName request) of
        None \<Rightarrow> Some (errorEnvelope request NOT_FOUND
          (''Method not found: '' @ get_serviceName request @ ''/'' @ get_methodName request))
      | Some handler \<Rightarrow> (case handler x (get_payload request) of
           None \<Rightarrow> None
         | Some (Inr responsePayload) \<Rightarrow> Some (Envelope_create (no_envelope_properties
             \<lparr>e_type := Some RESPONSE, e_status := Some OK,
              e_requestId := Some (get_requestId request), e_payload := Some responsePayload\<rparr>))
         | Some (Inl e) \<Rightarrow> Some (errorEnvelope request INTERNAL (error_text e)))))"

subsection \<open>What the server promises\<close>

text \<open>
  The abstract view of a call: served with a payload, or failed with a status and a message.
  \<open>call_outcome\<close> is not code but the specification: what a call comes to, from the registry alone,
  with the texts it is to report. \<open>reply_outcome\<close> reads an outcome off a reply. \<open>Rpc_Exchange\<close> shows
  that \<open>dispatch\<close>, with the client's reading of its reply, implements the specification.
\<close>

datatype rpc_outcome = Served bytes | Failed u32 string

definition find_handler :: "'x services \<Rightarrow> string \<Rightarrow> string \<Rightarrow> 'x handler option" where
  "find_handler services s m = (case services s of None \<Rightarrow> None | Some service \<Rightarrow> service m)"

fun settled_outcome :: "thrown + bytes \<Rightarrow> rpc_outcome" where
  "settled_outcome (Inr p) = Served p"
| "settled_outcome (Inl (ErrorObject text)) = Failed INTERNAL (if text = '''' then ''Internal server error'' else text)"
| "settled_outcome (Inl (OtherValue text)) = Failed INTERNAL (if text = '''' then ''Internal server error'' else text)"

definition call_outcome :: "'x services \<Rightarrow> 'x \<Rightarrow> string \<Rightarrow> string \<Rightarrow> bytes \<Rightarrow> rpc_outcome option" where
  "call_outcome services x s m payload = (case find_handler services s m of
     Some handler \<Rightarrow> map_option settled_outcome (handler x payload)
   | None \<Rightarrow> Some (Failed NOT_FOUND
       (if services s = None then ''Service not found: '' @ s else ''Method not found: '' @ s @ ''/'' @ m)))"

definition reply_outcome :: "envelope \<Rightarrow> rpc_outcome" where
  "reply_outcome m = (if get_status m = OK then Served (get_payload m)
     else Failed (get_status m) (get_errorMessage m))"

lemmas envelope_new_defs = Envelope_create_def Envelope_new_def no_envelope_properties_def

lemma errorEnvelope_fields [simp]:
  "e_requestId (errorEnvelope q st t) = Some (get_requestId q)" "e_type (errorEnvelope q st t) = Some ERROR"
  "e_status (errorEnvelope q st t) = Some st" "e_errorMessage (errorEnvelope q st t) = Some t"
  "e_payload (errorEnvelope q st t) = None" "e_metadata (errorEnvelope q st t) = Some []"
  "e_serviceName (errorEnvelope q st t) = None" "e_methodName (errorEnvelope q st t) = None"
  by (simp_all add: errorEnvelope_def envelope_new_defs)

lemma error_text_nonempty [simp]: "error_text e \<noteq> []"
  by (simp add: error_text_def Let_def split: thrown.split)

definition okEnvelope :: "envelope \<Rightarrow> bytes \<Rightarrow> envelope" where
  "okEnvelope q p = Envelope_create (no_envelope_properties
     \<lparr>e_type := Some RESPONSE, e_status := Some OK, e_requestId := Some (get_requestId q),
      e_payload := Some p\<rparr>)"

lemma okEnvelope_fields [simp]:
  "e_requestId (okEnvelope q p) = Some (get_requestId q)" "e_type (okEnvelope q p) = Some RESPONSE"
  "e_status (okEnvelope q p) = Some OK" "e_errorMessage (okEnvelope q p) = None"
  "e_payload (okEnvelope q p) = Some p" "e_metadata (okEnvelope q p) = Some []"
  "e_serviceName (okEnvelope q p) = None" "e_methodName (okEnvelope q p) = None"
  by (simp_all add: okEnvelope_def envelope_new_defs)

lemma dispatch_cases [case_names Waits Served Threw NoService NoMethod]:
  obtains (Waits) service handler where "services (get_serviceName q) = Some service"
      "service (get_methodName q) = Some handler" "handler x (get_payload q) = None"
      "dispatch services x q = None"
  | (Served) service handler p where "services (get_serviceName q) = Some service"
      "service (get_methodName q) = Some handler" "handler x (get_payload q) = Some (Inr p)"
      "dispatch services x q = Some (okEnvelope q p)"
  | (Threw) service handler e where "services (get_serviceName q) = Some service"
      "service (get_methodName q) = Some handler" "handler x (get_payload q) = Some (Inl e)"
      "dispatch services x q = Some (errorEnvelope q INTERNAL (error_text e))"
  | (NoService) "services (get_serviceName q) = None"
      "dispatch services x q = Some (errorEnvelope q NOT_FOUND
        (''Service not found: '' @ get_serviceName q))"
  | (NoMethod) service where "services (get_serviceName q) = Some service"
      "service (get_methodName q) = None"
      "dispatch services x q = Some (errorEnvelope q NOT_FOUND
        (''Method not found: '' @ get_serviceName q @ ''/'' @ get_methodName q))"
proof (cases "services (get_serviceName q)")
  case None
  then show ?thesis using NoService by (simp add: dispatch_def)
next
  case s: (Some service)
  show ?thesis
  proof (cases "service (get_methodName q)")
    case None
    with s show ?thesis using NoMethod by (simp add: dispatch_def)
  next
    case h: (Some handler)
    show ?thesis
    proof (cases "handler x (get_payload q)")
      case None
      with s h show ?thesis using Waits by (simp add: dispatch_def)
    next
      case r: (Some r)
      with s h show ?thesis using Served Threw
        by (cases r) (simp_all add: dispatch_def okEnvelope_def)
    qed
  qed
qed

lemma dispatch_Some:
  assumes "dispatch services x q = Some r"
  shows "e_requestId r = Some (get_requestId q) \<and> e_serviceName r = None \<and> e_methodName r = None \<and>
     e_metadata r = Some [] \<and>
     (e_type r = Some RESPONSE \<and> e_status r = Some OK \<and> e_errorMessage r = None \<and> e_payload r \<noteq> None
      \<or> e_type r = Some ERROR \<and> (e_status r = Some NOT_FOUND \<or> e_status r = Some INTERNAL) \<and>
        e_errorMessage r \<noteq> None \<and> e_errorMessage r \<noteq> Some '''' \<and> e_payload r = None)"
  by (rule dispatch_cases [where services = services and q = q and x = x]) (use assms in auto)

lemma reply_outcome_simps [simp]:
  "reply_outcome (okEnvelope q p) = Served p"
  "st \<noteq> OK \<Longrightarrow> reply_outcome (errorEnvelope q st t) = Failed st t"
  by (simp_all add: reply_outcome_def envelope_gets)

lemma settled_outcome_thrown: "settled_outcome (Inl e) = Failed INTERNAL (error_text e)"
  by (cases e) (simp_all add: error_text_def)

text \<open>Every property of a reply follows from the outcome of the call.\<close>

definition reply_envelope :: "envelope \<Rightarrow> rpc_outcome \<Rightarrow> envelope" where
  "reply_envelope q oc = (case oc of Served p \<Rightarrow> okEnvelope q p | Failed st text \<Rightarrow> errorEnvelope q st text)"

lemma dispatch_outcome:
  "dispatch services x q = map_option (reply_envelope q)
     (call_outcome services x (get_serviceName q) (get_methodName q) (get_payload q))"
  by (rule dispatch_cases [where services = services and q = q and x = x])
    (simp_all add: call_outcome_def find_handler_def settled_outcome_thrown reply_envelope_def)

lemma reply_outcome_dispatch:
  "map_option reply_outcome (dispatch services x q)
    = call_outcome services x (get_serviceName q) (get_methodName q) (get_payload q)"
  by (rule dispatch_cases [where services = services and q = q and x = x])
    (simp_all add: call_outcome_def find_handler_def settled_outcome_thrown)

subsection \<open>Typed handlers\<close>

text \<open>
  A typed handler over two message classes: on the bytes of an encoded request it answers with
  bytes that decode to the reply, and it settles whenever its function does.
\<close>

locale typed_rpc =
  req: proto_class P req_ok req_shown + resp: proto_class Q resp_ok resp_shown
  for P :: "'req proto_type" and req_ok req_shown
    and Q :: "'resp proto_type" and resp_ok resp_shown
begin

lemma typed_served:
  assumes "req_ok m" "f x (req_shown m) = Some (Inr r)" "resp_ok r"
  shows "\<exists>b. typedMethod P Q f x (pt_encode P m) = Some (Inr b) \<and> pt_decode Q b = Some (Inr (resp_shown r))"
  using assms req.decode_encode resp.decode_encode by (simp add: typedMethod_def)

lemma typed_settles: "\<forall>m. f x m \<noteq> None \<Longrightarrow> typedMethod P Q f x b \<noteq> None"
  using req.decode_returns [of b]
  by (auto simp: typedMethod_def split: sum.splits option.splits) (metis option.distinct(1))

end

interpretation ping_rpc: typed_rpc "Ping_type wire_writer wire_reader" Ping_sendable id
    "Pong_type wire_writer wire_reader" Pong_sendable id ..

interpretation echo_rpc: typed_rpc "EchoRequest_type wire_writer wire_reader" EchoRequest_sendable id
    "EchoResponse_type wire_writer wire_reader" EchoResponse_sendable id ..

context protobuf_runtime
begin

lemma ping_typed_rpc: "typed_rpc (Ping_type W R) Ping_sendable id (Pong_type W R) Pong_sendable id"
  using Ping_class Pong_class by (simp add: typed_rpc_def)

lemma echo_typed_rpc:
  "typed_rpc (EchoRequest_type W R) EchoRequest_sendable id (EchoResponse_type W R) EchoResponse_sendable id"
  using EchoRequest_class EchoResponse_class by (simp add: typed_rpc_def)

end

subsection \<open>Looking up what was registered\<close>

lemma fold_update: "fold (\<lambda>(k, v) f. f(k \<mapsto> v)) kvs f = f ++ map_of (rev kvs)"
  by (induction kvs arbitrary: f) (auto simp: map_add_def fun_eq_iff split: option.split)

lemma find_register:
  "find_handler (register s ms services) s' m =
     (if s' = s \<and> m \<in> set (map fst ms) then map_of (rev ms) m else find_handler services s' m)"
proof -
  have "map_of (rev ms) m = None \<longleftrightarrow> m \<notin> set (map fst ms)"
    by (simp add: map_of_eq_None_iff)
  then show ?thesis
    by (auto simp: find_handler_def register_def fold_update map_add_def Let_def split: option.split)
qed

subsection \<open>Properties\<close>

text \<open>
  Every reply answers its request: it carries the request's id and is either a response
  with status OK and a payload, or an error with status NOT_FOUND or INTERNAL, a non-empty
  message and no payload. A reply is missing only when the registered handler never settles.
\<close>

lemma dispatch_replies:
  "(case dispatch services x q of
     None \<Rightarrow> (\<exists>service handler. services (get_serviceName q) = Some service \<and>
        service (get_methodName q) = Some handler \<and> handler x (get_payload q) = None)
   | Some r \<Rightarrow> get_requestId r = get_requestId q \<and>
       (get_type r = RESPONSE \<and> get_status r = OK \<and> e_payload r \<noteq> None \<and> e_errorMessage r = None
        \<or> get_type r = ERROR \<and> get_status r \<in> {NOT_FOUND, INTERNAL} \<and> get_errorMessage r \<noteq> ''''
          \<and> e_payload r = None))"
  by (rule dispatch_cases [where services = services and q = q and x = x]) (simp_all add: envelope_gets)

text \<open>
  Registering merges: after any registration a method is found under its service exactly
  if this call named it, then the last handler named for it, or it was found before; other
  services, and the other methods of this one, keep their handlers.
\<close>

lemma register_merges:
  "find_handler (register s ms services) s' m =
     (if s' = s \<and> m \<in> set (map fst ms) then map_of (rev ms) m else find_handler services s' m)"
  by (rule find_register)

text \<open>
  The built-in ping: unless \<open>registerBuiltins\<close> is \<open>false\<close>, a new server answers every
  request for \<open>ibridger.Ping/Ping\<close> whose payload is a sent \<open>Ping\<close> with status OK, the request's
  id and a payload that decodes to its name and the time of the call; a payload that is no
  \<open>Ping\<close> gives status INTERNAL with the decoder's message (if that is not empty).
\<close>

lemma builtin_ping_answers:
  assumes "protobuf_runtime W R E sections" "registerBuiltins \<noteq> Some False"
    and "get_serviceName q = ''ibridger.Ping''" "get_methodName q = ''Ping''"
  shows "(Ping_sendable m \<and> get_payload q = pt_encode (Ping_type W R) m \<longrightarrow>
      (\<exists>r. dispatch (new_services W R clock registerBuiltins) x q = Some r \<and> get_status r = OK \<and>
        get_requestId r = get_requestId q \<and> pt_decode (Pong_type W R) (get_payload r)
          = Some (Inr \<lparr>pong_serverId = Some ''ibridger-server'', pong_timestampMs = Some (clock x)\<rparr>))) \<and>
    (pt_decode (Ping_type W R) (get_payload q) = Some (Inl text) \<and> text \<noteq> [] \<longrightarrow>
      (\<exists>r. dispatch (new_services W R clock registerBuiltins) x q = Some r \<and>
        get_status r = INTERNAL \<and> get_requestId r = get_requestId q \<and> get_errorMessage r = text))"
proof (intro conjI impI; elim conjE)
  let ?h = "typedMethod (Ping_type W R) (Pong_type W R) (ping_reply clock)"
  have new: "new_services W R clock registerBuiltins (get_serviceName q) = Some [get_methodName q \<mapsto> ?h]"
    using assms(2-4) by (simp add: new_services_def registerBuiltinPing_def register_def
      PING_SERVICE_NAME_def PING_METHOD_NAME_def)
  show "\<exists>r. dispatch (new_services W R clock registerBuiltins) x q = Some r \<and> get_status r = OK \<and>
      get_requestId r = get_requestId q \<and> pt_decode (Pong_type W R) (get_payload r)
        = Some (Inr \<lparr>pong_serverId = Some ''ibridger-server'', pong_timestampMs = Some (clock x)\<rparr>)"
    if m: "Ping_sendable m" "get_payload q = pt_encode (Ping_type W R) m"
  proof -
    let ?reply = "\<lparr>pong_serverId = Some PING_SERVER_ID, pong_timestampMs = Some (clock x)\<rparr>"
    have "ping_reply clock x (id m) = Some (Inr ?reply)"
      by (simp add: ping_reply_def Pong_create_def Pong_new_def)
    moreover have "Pong_sendable ?reply"
      by (simp add: Pong_sendable_def short_def PING_SERVER_ID_def)
    ultimately obtain b where b: "?h x (get_payload q) = Some (Inr b)"
      "pt_decode (Pong_type W R) b = Some (Inr (id ?reply))"
      using typed_rpc.typed_served [OF protobuf_runtime.ping_typed_rpc [OF assms(1)] m(1)] m(2) by metis
    then have "dispatch (new_services W R clock registerBuiltins) x q = Some (okEnvelope q b)"
      using new by (simp add: dispatch_def okEnvelope_def)
    with b(2) show ?thesis by (simp add: envelope_gets PING_SERVER_ID_def)
  qed
  show "\<exists>r. dispatch (new_services W R clock registerBuiltins) x q = Some r \<and>
      get_status r = INTERNAL \<and> get_requestId r = get_requestId q \<and> get_errorMessage r = text"
    if "pt_decode (Ping_type W R) (get_payload q) = Some (Inl text)" "text \<noteq> []"
    using that new by (simp add: dispatch_def typedMethod_def envelope_gets error_text_def)
qed

text \<open>
  A typed handler for a message pair, here the echo service of the examples: called with
  the bytes of an encoded request, it returns bytes that decode to what its function returns for
  the request as received, and with bytes that are no request it rejects with the decoder's
  error without calling the function.
\<close>

lemma typed_echo_handler:
  assumes "protobuf_runtime W R E sections"
  shows "(EchoRequest_sendable m \<and> f x m = Some (Inr r) \<and> EchoResponse_sendable r \<longrightarrow>
      (\<exists>b. typedMethod (EchoRequest_type W R) (EchoResponse_type W R) f x
            (pt_encode (EchoRequest_type W R) m) = Some (Inr b) \<and>
         pt_decode (EchoResponse_type W R) b = Some (Inr r))) \<and>
    (pt_decode (EchoRequest_type W R) bs = Some (Inl text) \<longrightarrow>
      typedMethod (EchoRequest_type W R) (EchoResponse_type W R) f x bs
        = Some (Inl (ErrorObject text)))"
  using typed_rpc.typed_served [OF protobuf_runtime.echo_typed_rpc [OF assms], of m f x r]
  by (auto simp: typedMethod_def)

end
