(* ===== verification/Dispatch_Loop.thy ===== *)
theory Dispatch_Loop
  imports Dispatch Envelope_Codec
begin

section \<open>The dispatch loop of a connection (\<open>sdk/js/src/rpc/server.ts\<close>)\<close>

text \<open>
  \<open>dispatchLoop\<close> of \<open>IBridgerServer\<close>, with the \<open>finally\<close> of \<open>handleConnection\<close> that closes the
  connection: receive a request, await its dispatch, await the sending of the response, again
  while the connection is up. The loop is a step relation: its state is the connection and the
  \<open>await\<close> at which it stands; an event of the socket, the settling of the handler's promise or
  of a write continues it. An event carries the circumstances \<open>x\<close> at its time, which dispatch
  passes to the handler. The two notes, a request received and a response sent, are for the
  properties.
\<close>

datatype loop_point =
    Reading recv_point                  \<comment> \<open>\<open>await codec.recv()\<close>\<close>
  | Handling "envelope option"          \<comment> \<open>\<open>await this.dispatch(request)\<close>, with its result\<close>
  | Writing envelope send_point         \<comment> \<open>\<open>await codec.send(response)\<close>\<close>
  | Finished
  | Hung                                \<comment> \<open>the decoder did not return\<close>

record 'c session =
  ss_conn :: 'c
  ss_at :: loop_point

datatype 'x session_note = Request 'x envelope | Reply envelope

datatype session_event =
    Data bytes | Down transport_error | HandlerSettled
  | WriteSettled "transport_error option"
  | Stopped \<comment> \<open>\<open>stop()\<close> closed the connection\<close>

definition finish_session :: "'c iconnection \<Rightarrow> 'c \<Rightarrow> 'c session \<times> 'x session_note list" where
  "finish_session ic c = (\<lparr>ss_conn = ic_close ic c, ss_at = Finished\<rparr>, [])"

text \<open>The outcome of \<open>codec.recv()\<close> inside its \<open>try\<close>.\<close>

definition request_received ::
    "'c iconnection \<Rightarrow> 'x services \<Rightarrow> 'x \<Rightarrow> 'c \<times> codec_outcome \<Rightarrow> 'c session \<times> 'x session_note list" where
  "request_received ic services x r = (case r of
     (c, CGot m) \<Rightarrow> (\<lparr>ss_conn = c, ss_at = Handling (dispatch services x m)\<rparr>, [Request x m])
   | (c, CThrew e) \<Rightarrow> finish_session ic c
   | (c, CBlocked k) \<Rightarrow> (\<lparr>ss_conn = c, ss_at = Reading k\<rparr>, [])
   | (c, CLoops) \<Rightarrow> (\<lparr>ss_conn = c, ss_at = Hung\<rparr>, []))"

text \<open>The head of the loop: \<open>while (conn.isConnected)\<close>.\<close>

definition loop_head ::
    "reader_ops \<Rightarrow> 'c iconnection \<Rightarrow> 'x services \<Rightarrow> 'x \<Rightarrow> 'c \<Rightarrow> 'c session \<times> 'x session_note list" where
  "loop_head R ic services x c =
     (if ic_isConnected ic c then request_received ic services x (codec_recv R ic c)
      else finish_session ic c)"

text \<open>The outcome of \<open>codec.send(response)\<close> inside its \<open>try\<close>.\<close>

definition response_sent ::
    "reader_ops \<Rightarrow> 'c iconnection \<Rightarrow> 'x services \<Rightarrow> 'x \<Rightarrow> envelope \<Rightarrow> 'c \<times> send_outcome
       \<Rightarrow> 'c session \<times> 'x session_note list" where
  "response_sent R ic services x response r = (case r of
     (c, SDone) \<Rightarrow> (let (s, notes) = loop_head R ic services x c in (s, Reply response # notes))
   | (c, SThrew e) \<Rightarrow> finish_session ic c
   | (c, SBlocked k) \<Rightarrow> (\<lparr>ss_conn = c, ss_at = Writing response k\<rparr>, []))"

definition session_settle ::
    "reader_ops \<Rightarrow> 'c iconnection \<Rightarrow> 'x services \<Rightarrow> 'x \<Rightarrow> 'c \<times> (transport_error + bytes) option
       \<Rightarrow> 'c session \<Rightarrow> 'c session \<times> 'x session_note list" where
  "session_settle R ic services x ca s = (case ca of (c, a) \<Rightarrow> (case (ss_at s, a) of
     (Reading k, Some r) \<Rightarrow> request_received ic services x (codec_recv_resume R ic k r c)
   | _ \<Rightarrow> (s\<lparr>ss_conn := c\<rparr>, [])))"

fun session_step ::
    "'w writer_ops \<Rightarrow> reader_ops \<Rightarrow> 'c iconnection \<Rightarrow> 'c socket_events \<Rightarrow> 'x services
       \<Rightarrow> 'x \<times> session_event \<Rightarrow> 'c session \<Rightarrow> 'c session \<times> 'x session_note list" where
  "session_step W R ic se services (x, Data d) s =
     session_settle R ic services x (se_arrive se d (ss_conn s)) s"
| "session_step W R ic se services (x, Down e) s =
     session_settle R ic services x (se_hangup se e (ss_conn s)) s"
| "session_step W R ic se services (x, HandlerSettled) s = (case ss_at s of
       Handling (Some response) \<Rightarrow>
         response_sent R ic services x response (codec_send W ic response (ss_conn s))
     | _ \<Rightarrow> (s, []))"
| "session_step W R ic se services (x, WriteSettled err) s = (case ss_at s of
       Writing response k \<Rightarrow>
         response_sent R ic services x response (codec_send_resume ic k err (ss_conn s))
     | _ \<Rightarrow> (s, []))"
| "session_step W R ic se services (x, Stopped) s = (s\<lparr>ss_conn := ic_close ic (ss_conn s)\<rparr>, [])"

text \<open>A connection just accepted: \<open>handleConnection\<close> starts the loop, then the events come.\<close>

definition session_run ::
    "'w writer_ops \<Rightarrow> reader_ops \<Rightarrow> 'c iconnection \<Rightarrow> 'c socket_events \<Rightarrow> 'x services
       \<Rightarrow> 'x \<Rightarrow> ('x \<times> session_event) list \<Rightarrow> 'c \<Rightarrow> 'c session \<times> 'x session_note list" where
  "session_run W R ic se services x es c =
     (let (s0, notes0) = loop_head R ic services x c;
          (s, notes) = run_steps (session_step W R ic se services) es s0
      in (s, notes0 @ notes))"

subsection \<open>What the notes say\<close>

definition requests :: "'x session_note list \<Rightarrow> ('x \<times> envelope) list" where
  "requests log = concat (map (\<lambda>n. case n of Request x m \<Rightarrow> [(x, m)] | Reply r \<Rightarrow> []) log)"

definition replies :: "'x session_note list \<Rightarrow> envelope list" where
  "replies log = concat (map (\<lambda>n. case n of Request x m \<Rightarrow> [] | Reply r \<Rightarrow> [r]) log)"

definition answers :: "'x services \<Rightarrow> 'x session_note list \<Rightarrow> envelope option list" where
  "answers services log = map (\<lambda>(x, m). dispatch services x m) (requests log)"

lemma requests_simps [simp]:
  "requests [] = []" "requests (Request x m # log) = (x, m) # requests log"
  "requests (Reply r # log) = requests log" "requests (xs @ ys) = requests xs @ requests ys"
  by (simp_all add: requests_def)

lemma replies_simps [simp]:
  "replies [] = []" "replies (Request x m # log) = replies log"
  "replies (Reply r # log) = r # replies log" "replies (xs @ ys) = replies xs @ replies ys"
  by (simp_all add: replies_def)

lemma answers_simps [simp]:
  "answers services [] = []" "answers services (Request x m # log) = dispatch services x m # answers services log"
  "answers services (Reply r # log) = answers services log"
  "answers services (xs @ ys) = answers services xs @ answers services ys"
  by (simp_all add: answers_def)

definition event_data :: "'x \<times> session_event \<Rightarrow> bytes" where
  "event_data e = (case snd e of Data d \<Rightarrow> d | _ \<Rightarrow> [])"

subsection \<open>The invariant\<close>

text \<open>The connection as the reader machine of the framing layer sees it.\<close>

definition as_reader :: "'c session \<Rightarrow> 'c reader" where
  "as_reader s = \<lparr>rd_conn = ss_conn s,
     rd_point = (case ss_at s of Reading k \<Rightarrow> Some k | _ \<Rightarrow> None), rd_dead = (ss_at s = Finished)\<rparr>"

text \<open>The frames consumed so far decoded to the requests noted, up to a bad last one.\<close>

definition decoded_frames :: "reader_ops \<Rightarrow> bytes list \<Rightarrow> envelope list \<Rightarrow> bool" where
  "decoded_frames R fs ms \<longleftrightarrow> map (decode_envelope R) fs = map (\<lambda>m. Some (Inr m)) ms"

definition read_inv ::
    "('c \<Rightarrow> stream) \<Rightarrow> reader_ops \<Rightarrow> bytes \<Rightarrow> 'x session_note list \<Rightarrow> 'c session \<Rightarrow> bool" where
  "read_inv view R inp log s \<longleftrightarrow> (\<exists>hung fs. reader_inv view hung inp fs (as_reader s) \<and>
     (decoded_frames R fs (map snd (requests log)) \<or>
      ss_at s \<in> {Finished, Hung} \<and> (\<exists>gs f. fs = gs @ [f] \<and> decoded_frames R gs (map snd (requests log)) \<and>
        \<not> (\<exists>m. decode_envelope R f = Some (Inr m)))))"

definition reply_frame :: "'w writer_ops \<Rightarrow> envelope \<Rightarrow> bytes" where
  "reply_frame W r = encode_frame (encode_envelope W r)"

text \<open>What was handed to the socket: the frames of the replies, then a part of the next one.\<close>

definition sent_inv ::
    "('c \<Rightarrow> stream) \<Rightarrow> 'w writer_ops \<Rightarrow> 'x services \<Rightarrow> 'x session_note list \<Rightarrow> 'c session \<Rightarrow> bool" where
  "sent_inv view W services log s \<longleftrightarrow>
     (\<exists>pending part. answers services log = map Some (replies log) @ pending \<and>
        s_sent (view (ss_conn s)) = concat (map (reply_frame W) (replies log)) @ part \<and>
        (case ss_at s of
           Reading k \<Rightarrow> pending = [] \<and> part = []
         | Hung \<Rightarrow> pending = [] \<and> part = []
         | Handling p \<Rightarrow> pending = [p] \<and> part = []
         | Writing r (SentHeader data) \<Rightarrow> pending = [Some r] \<and> data = encode_envelope W r \<and>
             part = writeUInt32BE (length data)
         | Writing r SentBody \<Rightarrow> pending = [Some r] \<and> part = reply_frame W r
         | Finished \<Rightarrow> pending = [] \<and> part = [] \<or>
             (\<exists>r rest. pending = [Some r] \<and> part @ rest = reply_frame W r)))"

subsection \<open>The invariant is kept\<close>

lemma ex_conj_mono:
  "\<exists>h f. A h f \<and> B f \<Longrightarrow> (\<And>h f. A h f \<Longrightarrow> \<exists>h'. A' h' f) \<Longrightarrow> \<exists>h f. A' h f \<and> B f"
  by blast

lemma read_inv_mono:
  assumes "read_inv view R inp log s" "ss_at s' = ss_at s"
    and "\<And>hung fs. reader_inv view hung inp fs (as_reader s) \<Longrightarrow>
      \<exists>hung'. reader_inv view hung' inp' fs (as_reader s')"
  shows "read_inv view R inp' log s'"
  using assms(1) unfolding read_inv_def assms(2) by (rule ex_conj_mono) (rule assms(3))

lemma spec_sent [simp]:
  "s_sent (fst (spec_recv n v)) = s_sent v" "s_sent (fst (spec_arrive d v)) = s_sent v"
  "s_sent (fst (spec_hangup e v)) = s_sent v"
  by (simp_all add: spec_recv_def spec_arrive_def spec_hangup_def Let_def split: option.split)

context stream_connection
begin

text \<open>Receiving does not touch what was sent.\<close>

lemma recv_payload_sent:
  assumes "valid c" "s_want (view c) = None"
  shows "s_sent (view (fst (recv_payload (ic_recv ic n c)))) = s_sent (view c)"
proof -
  obtain c' r where r: "ic_recv ic n c = (c', r)" by fastforce
  show ?thesis using recv_view(2) [OF assms r] r by (cases r) (simp_all add: recv_payload_def)
qed

lemma recv_header_sent:
  assumes "valid c" "s_want (view c) = None"
  shows "s_sent (view (fst (recv_header ic h c))) = s_sent (view c)"
  using recv_payload_sent [OF assms] by (simp add: recv_header_def split: option.split)

lemma recvFrame_sent:
  assumes "valid c" "s_want (view c) = None"
  shows "s_sent (view (fst (recvFrame ic c))) = s_sent (view c)"
proof -
  obtain c' r where r: "ic_recv ic 4 c = (c', r)" by fastforce
  note v = recv_view [OF assms r]
  show ?thesis
  proof (cases r)
    case (Now h)
    with v assms(2) have "s_want (view c') = None" by (auto simp: spec_recv_def split: if_splits)
    from recv_header_sent [OF v(1) this, of h] v(2) r Now show ?thesis by (simp add: recvFrame_def)
  qed (use v r in \<open>simp_all add: recvFrame_def\<close>)
qed

text \<open>What a loop knows when it stands between two awaits: nothing pending, all answered.\<close>

definition idle ::
    "'w writer_ops \<Rightarrow> reader_ops \<Rightarrow> 'x services \<Rightarrow> bytes \<Rightarrow> 'x session_note list \<Rightarrow> 'c \<Rightarrow> bool" where
  "idle W R services inp log c \<longleftrightarrow> valid c \<and>
     (\<exists>hung fs. reader_inv view hung inp fs \<lparr>rd_conn = c, rd_point = None, rd_dead = False\<rparr> \<and>
        decoded_frames R fs (map snd (requests log))) \<and>
     answers services log = map Some (replies log) \<and>
     s_sent (view c) = concat (map (reply_frame W) (replies log))"

definition session_inv ::
    "'w writer_ops \<Rightarrow> reader_ops \<Rightarrow> 'x services \<Rightarrow> bytes \<Rightarrow> 'x session_note list \<Rightarrow> 'c session \<Rightarrow> bool" where
  "session_inv W R services inp log s \<longleftrightarrow>
     valid (ss_conn s) \<and> read_inv view R inp log s \<and> sent_inv view W services log s"

lemma finish_inv:
  assumes "reader_inv view hung inp fs \<lparr>rd_conn = c, rd_point = None, rd_dead = b\<rparr>" "valid c"
  shows "reader_inv view True inp fs \<lparr>rd_conn = ic_close ic c, rd_point = None, rd_dead = True\<rparr>"
  using assms close_refines [OF assms(2)] by (auto simp: reader_inv_def Let_def split: if_splits)

text \<open>After a receive that ended with outcome \<open>o\<close>.\<close>

lemma request_received_inv:
  assumes rd: "reader_note (c, out) = (rd, os)"
    and inv: "valid c" "reader_inv view hung inp (fs @ got_frames os) rd"
    and fs: "decoded_frames R fs (map snd (requests log))"
    and sent: "answers services log = map Some (replies log)"
      "s_sent (view c) = concat (map (reply_frame W) (replies log))"
    and res: "request_received ic services x (codec_received R (c, out)) = (s, notes)"
  shows "session_inv W R services inp (log @ notes) s"
proof (cases out)
  case (Got f)
  with rd inv(2) have i: "reader_inv view hung inp (fs @ [f]) \<lparr>rd_conn = c, rd_point = None, rd_dead = False\<rparr>"
    by (auto simp: reader_note_def)
  show ?thesis
  proof (cases "\<exists>m. decode_envelope R f = Some (Inr m)")
    case True
    then obtain m where m: "decode_envelope R f = Some (Inr m)" by blast
    with res Got have s: "s = \<lparr>ss_conn = c, ss_at = Handling (dispatch services x m)\<rparr>" "notes = [Request x m]"
      by (simp_all add: request_received_def)
    have "decoded_frames R (fs @ [f]) (map snd (requests (log @ notes)))"
      using fs m s(2) by (simp add: decoded_frames_def)
    with i have "read_inv view R inp (log @ notes) s"
      unfolding read_inv_def s(1) as_reader_def by auto
    moreover have "sent_inv view W services (log @ notes) s"
      using sent s by (simp add: sent_inv_def)
    ultimately show ?thesis using inv(1) s(1) by (simp add: session_inv_def)
  next
    case False
    then have at: "ss_at s \<in> {Finished, Hung}" and n: "notes = []" and v: "valid (ss_conn s)"
      and sv: "s_sent (view (ss_conn s)) = s_sent (view c)"
      using res Got inv(1) close_refines [OF inv(1)]
      by (auto simp: codec_received_def request_received_def finish_session_def
          split: option.splits sum.splits)
    have "\<exists>hung. reader_inv view hung inp (fs @ [f]) (as_reader s)"
      using res Got False i finish_inv [OF i inv(1)]
      by (auto simp: codec_received_def request_received_def finish_session_def as_reader_def
          split: option.splits sum.splits)
    then have "read_inv view R inp (log @ notes) s"
      using at n fs False by (auto simp: read_inv_def)
    moreover have "sent_inv view W services (log @ notes) s"
      using at n sv sent by (auto simp: sent_inv_def)
    ultimately show ?thesis using v by (simp add: session_inv_def)
  qed
next
  case (Threw e)
  with rd inv(2) have i: "reader_inv view hung inp fs \<lparr>rd_conn = c, rd_point = None, rd_dead = True\<rparr>"
    by (auto simp: reader_note_def)
  from res Threw have s: "s = \<lparr>ss_conn = ic_close ic c, ss_at = Finished\<rparr>" "notes = []"
    by (simp_all add: request_received_def finish_session_def)
  have "read_inv view R inp (log @ notes) s"
    using finish_inv [OF i inv(1)] fs unfolding read_inv_def s as_reader_def by auto
  moreover have "sent_inv view W services (log @ notes) s"
    using sent s close_refines [OF inv(1)] by (simp add: sent_inv_def)
  ultimately show ?thesis using s close_refines [OF inv(1)] by (simp add: session_inv_def)
next
  case (Blocked k)
  with rd inv(2) have i: "reader_inv view hung inp fs \<lparr>rd_conn = c, rd_point = Some k, rd_dead = False\<rparr>"
    by (auto simp: reader_note_def)
  from res Blocked have s: "s = \<lparr>ss_conn = c, ss_at = Reading k\<rparr>" "notes = []"
    by (simp_all add: request_received_def)
  have "read_inv view R inp (log @ notes) s"
    using i fs unfolding read_inv_def s as_reader_def by auto
  moreover have "sent_inv view W services (log @ notes) s"
    using sent s by (simp add: sent_inv_def)
  ultimately show ?thesis using s inv(1) by (simp add: session_inv_def)
qed

lemma loop_head_inv:
  assumes "idle W R services inp log c" and res: "loop_head R ic services x c = (s, notes)"
  shows "session_inv W R services inp (log @ notes) s"
proof -
  from assms(1) obtain hung fs where i: "valid c"
    "reader_inv view hung inp fs \<lparr>rd_conn = c, rd_point = None, rd_dead = False\<rparr>"
    "decoded_frames R fs (map snd (requests log))"
    "answers services log = map Some (replies log)"
    "s_sent (view c) = concat (map (reply_frame W) (replies log))"
    by (auto simp: idle_def)
  show ?thesis
  proof (cases "ic_isConnected ic c")
    case False
    with res have s: "s = \<lparr>ss_conn = ic_close ic c, ss_at = Finished\<rparr>" "notes = []"
      by (simp_all add: loop_head_def finish_session_def)
    have "read_inv view R inp (log @ notes) s"
      using finish_inv [OF i(2,1)] i(3) unfolding read_inv_def s as_reader_def by auto
    moreover have "sent_inv view W services (log @ notes) s"
      using i(4,5) s close_refines [OF i(1)] by (simp add: sent_inv_def)
    ultimately show ?thesis using s close_refines [OF i(1)] by (simp add: session_inv_def)
  next
    case True
    from i(2) have r: "s_want (view c) = None" "list_all frame_ok fs" "s_up (view c) = (\<not> hung)"
      "inp = concat (map encode_frame fs) @ s_buf (view c)"
      by (auto simp: reader_inv_def Let_def)
    obtain c' out where o: "recvFrame ic c = (c', out)" by fastforce
    obtain rd os where rd: "reader_note (c', out) = (rd, os)" by fastforce
    have "valid (rd_conn rd) \<and> reader_inv view hung inp (fs @ got_frames os) rd"
      using recvFrame_inv [OF i(1) r(1-3) r(4)] o rd by simp
    moreover have "rd_conn rd = c'" using rd by (cases out) (auto simp: reader_note_def)
    moreover have "s_sent (view c') = concat (map (reply_frame W) (replies log))"
      using recvFrame_sent [OF i(1) r(1)] o i(5) by simp
    moreover have "request_received ic services x (codec_received R (c', out)) = (s, notes)"
      using res True o by (simp add: loop_head_def codec_recv_def)
    ultimately show ?thesis
      using request_received_inv [OF rd _ _ i(3,4)] by blast
  qed
qed

text \<open>An event of the socket, from the reader's point of view and then for the loop.\<close>

lemma recvFrame_resume_sent:
  assumes "valid c" "s_want (view c) = None"
  shows "s_sent (view (fst (recvFrame_resume ic k r c))) = s_sent (view c)"
  using recv_header_sent [OF assms]
  by (simp add: recvFrame_resume_def split: sum.split recv_point.split)

lemma session_settle_inv:
  assumes inv: "session_inv W R services inp log s"
    and rd: "\<And>hung fs rd os. reader_inv view hung inp fs (as_reader s) \<Longrightarrow>
      reader_settle ic (c, a) (as_reader s) = (rd, os) \<Longrightarrow>
      \<exists>hung'. valid (rd_conn rd) \<and> reader_inv view hung' inp' (fs @ got_frames os) rd"
    and c: "valid c" "s_sent (view c) = s_sent (view (ss_conn s))" "a \<noteq> None \<Longrightarrow> s_want (view c) = None"
    and res: "session_settle R ic services x (c, a) s = (s', notes)"
  shows "session_inv W R services inp' (log @ notes) s'"
proof (cases "\<exists>k r. ss_at s = Reading k \<and> a = Some r")
  case True
  then obtain k r where kr: "ss_at s = Reading k" "a = Some r" by blast
  obtain hung fs where i: "reader_inv view hung inp fs (as_reader s)"
    "decoded_frames R fs (map snd (requests log))"
    "answers services log = map Some (replies log)"
    "s_sent (view (ss_conn s)) = concat (map (reply_frame W) (replies log))"
    using inv kr(1) by (auto simp: session_inv_def read_inv_def sent_inv_def)
  obtain c' out where o: "recvFrame_resume ic k r c = (c', out)" by fastforce
  obtain rd' os where rd': "reader_note (c', out) = (rd', os)" by fastforce
  have "reader_settle ic (c, a) (as_reader s) = (rd', os)"
    using kr o rd' by (simp add: reader_settle_def as_reader_def)
  from rd [OF i(1) this] obtain hung' where
    "valid (rd_conn rd')" "reader_inv view hung' inp' (fs @ got_frames os) rd'" by blast
  moreover have "rd_conn rd' = c'" using rd' by (cases out) (auto simp: reader_note_def)
  moreover have "s_sent (view c') = concat (map (reply_frame W) (replies log))"
    using recvFrame_resume_sent [OF c(1), of k r] c(2,3) kr(2) o i(4) by simp
  moreover have "request_received ic services x (codec_received R (c', out)) = (s', notes)"
    using res kr o by (simp add: session_settle_def codec_recv_resume_def)
  ultimately show ?thesis
    using request_received_inv [OF rd' _ _ i(2,3)] by blast
next
  case False
  then have s': "s' = s\<lparr>ss_conn := c\<rparr>" "notes = []"
    using res by (auto simp: session_settle_def split: loop_point.splits option.splits)
  have settle: "reader_settle ic (c, a) (as_reader s) = (as_reader s', [])"
    using False s' by (auto simp: reader_settle_def as_reader_def split: option.split loop_point.split)
  have "\<exists>hung'. reader_inv view hung' inp' fs (as_reader s')" if "reader_inv view hung inp fs (as_reader s)" for hung fs
    using rd [OF that settle] by auto
  then have "read_inv view R inp' (log @ notes) s'"
    using inv s' by (auto simp: session_inv_def intro: read_inv_mono)
  moreover have "sent_inv view W services (log @ notes) s'"
    using inv s' c(2) by (simp add: session_inv_def sent_inv_def)
  ultimately show ?thesis using s' c(1) by (simp add: session_inv_def)
qed

lemma as_reader_conn [simp]: "rd_conn (as_reader s) = ss_conn s"
  by (simp add: as_reader_def)

lemma session_arrive_inv:
  assumes inv: "session_inv W R services inp log s"
    and res: "session_settle R ic services x (se_arrive se d (ss_conn s)) s = (s', notes)"
  shows "session_inv W R services (inp @ d) (log @ notes) s'"
proof -
  obtain c a where ca: "se_arrive se d (ss_conn s) = (c, a)" by fastforce
  have v: "valid (ss_conn s)" using inv by (simp add: session_inv_def)
  note w = arrive_view [OF v ca]
  show ?thesis
  proof (rule session_settle_inv [OF inv])
    show "\<exists>hung'. valid (rd_conn rd) \<and> reader_inv view hung' (inp @ d) (fs @ got_frames os) rd"
      if "reader_inv view hung inp fs (as_reader s)" "reader_settle ic (c, a) (as_reader s) = (rd, os)"
      for hung fs rd os
      using reader_settle_inv [of "as_reader s" hung inp fs d rd os] that v ca by auto
    show "session_settle R ic services x (c, a) s = (s', notes)" using res ca by simp
  qed (use w in \<open>auto simp: spec_arrive_def split: option.splits if_splits\<close>)
qed

lemma session_hangup_inv:
  assumes inv: "session_inv W R services inp log s"
    and res: "session_settle R ic services x (se_hangup se e (ss_conn s)) s = (s', notes)"
  shows "session_inv W R services inp (log @ notes) s'"
proof -
  obtain c a where ca: "se_hangup se e (ss_conn s) = (c, a)" by fastforce
  have v: "valid (ss_conn s)" using inv by (simp add: session_inv_def)
  note w = hangup_view [OF v ca]
  show ?thesis
  proof (rule session_settle_inv [OF inv])
    show "\<exists>hung'. valid (rd_conn rd) \<and> reader_inv view hung' inp (fs @ got_frames os) rd"
      if "reader_inv view hung inp fs (as_reader s)" "reader_settle ic (c, a) (as_reader s) = (rd, os)"
      for hung fs rd os
      using reader_hangup_inv [of "as_reader s" hung inp fs e rd os] that v ca by auto
    show "session_settle R ic services x (c, a) s = (s', notes)" using res ca by simp
  qed (use w in \<open>auto simp: spec_hangup_def\<close>)
qed

text \<open>Sending the response.\<close>

lemma sent_view_inv:
  assumes "reader_inv view hung inp fs \<lparr>rd_conn = c, rd_point = None, rd_dead = b\<rparr>"
    and "valid c" "ic_send ic d c = (c', q)"
  shows "reader_inv view hung inp fs \<lparr>rd_conn = c', rd_point = None, rd_dead = b\<rparr>"
  using send_view(2) [OF assms(2,3)] assms(1)
  by (auto simp: reader_inv_def Let_def spec_send_def split: if_splits)

lemma response_threw:
  assumes v: "valid c" and i: "reader_inv view hung inp fs \<lparr>rd_conn = c, rd_point = None, rd_dead = False\<rparr>"
    "decoded_frames R fs (map snd (requests log))" "answers services log = map Some (replies log) @ [Some r]"
    "s_sent (view c) = concat (map (reply_frame W) (replies log)) @ part" "part @ rest = reply_frame W r"
  shows "session_inv W R services inp log \<lparr>ss_conn = ic_close ic c, ss_at = Finished\<rparr>"
proof -
  let ?s = "\<lparr>ss_conn = ic_close ic c, ss_at = Finished\<rparr>"
  have "read_inv view R inp log ?s"
    using finish_inv [OF i(1) v] i(2) unfolding read_inv_def as_reader_def by auto
  moreover have "sent_inv view W services log ?s"
    using i(3-5) close_refines [OF v] by (auto simp: sent_inv_def)
  ultimately show ?thesis using close_refines [OF v] by (simp add: session_inv_def)
qed

lemma response_blocked:
  assumes v: "valid c" and i: "reader_inv view hung inp fs \<lparr>rd_conn = c, rd_point = None, rd_dead = False\<rparr>"
    "decoded_frames R fs (map snd (requests log))" "answers services log = map Some (replies log) @ [Some r]"
    "s_sent (view c) = concat (map (reply_frame W) (replies log)) @ part"
    and k: "k = SentHeader (encode_envelope W r) \<and> part = writeUInt32BE (length (encode_envelope W r))
      \<or> k = SentBody \<and> part = reply_frame W r"
  shows "session_inv W R services inp log \<lparr>ss_conn = c, ss_at = Writing r k\<rparr>"
proof -
  let ?s = "\<lparr>ss_conn = c, ss_at = Writing r k\<rparr>"
  have "read_inv view R inp log ?s"
    using i(1,2) unfolding read_inv_def as_reader_def by auto
  moreover have "sent_inv view W services log ?s"
    using i(3,4) k by (auto simp: sent_inv_def)
  ultimately show ?thesis using v by (simp add: session_inv_def)
qed

lemma response_done:
  assumes v: "valid c" and i: "reader_inv view hung inp fs \<lparr>rd_conn = c, rd_point = None, rd_dead = False\<rparr>"
    "decoded_frames R fs (map snd (requests log))" "answers services log = map Some (replies log) @ [Some r]"
    "s_sent (view c) = concat (map (reply_frame W) (replies log)) @ reply_frame W r"
    and res: "response_sent R ic services x r (c, SDone) = (s, notes)"
  shows "session_inv W R services inp (log @ notes) s"
proof -
  obtain s1 n1 where h: "loop_head R ic services x c = (s1, n1)" by fastforce
  have "idle W R services inp (log @ [Reply r]) c"
    using v i by (auto simp: idle_def)
  from loop_head_inv [OF this h] res h show ?thesis
    by (simp add: response_sent_def)
qed

lemma handler_settled_inv:
  assumes inv: "session_inv W R services inp log s"
    and res: "session_step W R ic se services (x, HandlerSettled) s = (s', notes)"
  shows "session_inv W R services inp (log @ notes) s'"
proof (cases "\<exists>r. ss_at s = Handling (Some r)")
  case False
  then have "s' = s" "notes = []" using res by (auto split: loop_point.splits option.splits)
  with inv show ?thesis by simp
next
  case True
  then obtain r where r: "ss_at s = Handling (Some r)" by blast
  let ?c = "ss_conn s" and ?data = "encode_envelope W r"
  obtain hung fs where i: "valid ?c"
    "reader_inv view hung inp fs \<lparr>rd_conn = ?c, rd_point = None, rd_dead = False\<rparr>"
    "decoded_frames R fs (map snd (requests log))" "answers services log = map Some (replies log) @ [Some r]"
    "s_sent (view ?c) = concat (map (reply_frame W) (replies log))"
    using inv r by (auto simp: session_inv_def read_inv_def sent_inv_def as_reader_def)
  obtain c q where q: "ic_send ic (writeUInt32BE (length ?data)) ?c = (c, q)" by fastforce
  note w = send_view [OF i(1) q]
  have threw: "session_inv W R services inp log \<lparr>ss_conn = ic_close ic ?c, ss_at = Finished\<rparr>"
    using response_threw [OF i(1-4), where part = "[]" and W = W and rest = "reply_frame W r"] i(5) by simp
  show ?thesis
  proof (cases "length ?data > MAX_FRAME_SIZE")
    case True
    with res r threw show ?thesis
      by (auto simp: codec_send_def sendFrame_def response_sent_def finish_session_def)
  next
    case False
    show ?thesis
    proof (cases q)
      case (SFail e)
      then have "view c = view ?c" using w by (auto simp: spec_send_def split: if_splits)
      then have "session_inv W R services inp log \<lparr>ss_conn = ic_close ic c, ss_at = Finished\<rparr>"
        using response_threw [OF w(1) sent_view_inv [OF i(2,1) q] i(3,4), where part = "[]"
          and W = W and rest = "reply_frame W r"] i(5) by simp
      with res r False q SFail show ?thesis
        by (auto simp: codec_send_def sendFrame_def await_send_def response_sent_def finish_session_def)
    next
      case SPending
      then have "s_sent (view c) = s_sent (view ?c) @ writeUInt32BE (length ?data)"
        using w by (auto simp: spec_send_def split: if_splits)
      with i(5) have "session_inv W R services inp log
          \<lparr>ss_conn = c, ss_at = Writing r (SentHeader ?data)\<rparr>"
        by (intro response_blocked [OF w(1) sent_view_inv [OF i(2,1) q] i(3,4)]) auto
      with res r False q SPending show ?thesis
        by (auto simp: codec_send_def sendFrame_def await_send_def response_sent_def)
    qed
  qed
qed

lemma write_settled_inv:
  assumes inv: "session_inv W R services inp log s"
    and res: "session_step W R ic se services (x, WriteSettled err) s = (s', notes)"
  shows "session_inv W R services inp (log @ notes) s'"
proof (cases "\<exists>r k. ss_at s = Writing r k")
  case False
  then have "s' = s" "notes = []" using res by (auto split: loop_point.splits)
  with inv show ?thesis by simp
next
  case True
  then obtain r k where r: "ss_at s = Writing r k" by blast
  let ?c = "ss_conn s" and ?data = "encode_envelope W r"
  obtain hung fs part where i: "valid ?c"
    "reader_inv view hung inp fs \<lparr>rd_conn = ?c, rd_point = None, rd_dead = False\<rparr>"
    "decoded_frames R fs (map snd (requests log))" "answers services log = map Some (replies log) @ [Some r]"
    "s_sent (view ?c) = concat (map (reply_frame W) (replies log)) @ part"
    and k: "k = SentHeader ?data \<and> part = writeUInt32BE (length ?data) \<or> k = SentBody \<and> part = reply_frame W r"
    using inv r
    by (cases k) (auto simp: session_inv_def read_inv_def sent_inv_def as_reader_def)
  have frame: "reply_frame W r = writeUInt32BE (length ?data) @ ?data"
    by (simp add: reply_frame_def encode_frame_def)
  obtain rest where rest: "part @ rest = reply_frame W r" using k frame by (metis append_Nil2)
  note threw = response_threw [OF i(1-5) rest]
  show ?thesis
  proof (cases err)
    case (Some e)
    with res r threw show ?thesis
      by (auto simp: codec_send_resume_def sendFrame_resume_def response_sent_def finish_session_def)
  next
    case None
    have finished: "session_inv W R services inp (log @ notes) s'"
      if "response_sent R ic services x r (?c, SDone) = (s', notes)" "part = reply_frame W r"
      using response_done [OF i(1-4) _ that(1), of W] i(5) that(2) by simp
    show ?thesis
    proof (cases "k = SentHeader ?data \<and> ?data \<noteq> []")
      case False
      then have "response_sent R ic services x r (?c, SDone) = (s', notes)"
        using res r None k by (auto simp: codec_send_resume_def sendFrame_resume_def)
      moreover have "part = reply_frame W r" using False k frame by auto
      ultimately show ?thesis by (rule finished)
    next
      case True
      obtain c q where q: "ic_send ic ?data ?c = (c, q)" by fastforce
      note w = send_view [OF i(1) q]
      have part: "part = writeUInt32BE (length ?data)" using True k by auto
      show ?thesis
      proof (cases q)
        case (SFail e)
        then have "view c = view ?c" using w by (auto simp: spec_send_def split: if_splits)
        then have "session_inv W R services inp log \<lparr>ss_conn = ic_close ic c, ss_at = Finished\<rparr>"
          using response_threw [OF w(1) sent_view_inv [OF i(2,1) q] i(3,4) _ rest] i(5) by simp
        with res r None q SFail True show ?thesis
          by (auto simp: codec_send_resume_def sendFrame_resume_def await_send_def response_sent_def
              finish_session_def)
      next
        case SPending
        then have "s_sent (view c) = s_sent (view ?c) @ ?data"
          using w by (auto simp: spec_send_def split: if_splits)
        with i(5) part frame have "session_inv W R services inp log \<lparr>ss_conn = c, ss_at = Writing r SentBody\<rparr>"
          by (intro response_blocked [OF w(1) sent_view_inv [OF i(2,1) q] i(3,4)]) auto
        with res r None q SPending True show ?thesis
          by (auto simp: codec_send_resume_def sendFrame_resume_def await_send_def response_sent_def)
      qed
    qed
  qed
qed

lemma stopped_inv:
  assumes inv: "session_inv W R services inp log s"
  shows "session_inv W R services inp log (s\<lparr>ss_conn := ic_close ic (ss_conn s)\<rparr>)"
proof -
  have v: "valid (ss_conn s)" using inv by (simp add: session_inv_def)
  note w = close_refines [OF v]
  have "\<exists>hung'. reader_inv view hung' inp fs (as_reader (s\<lparr>ss_conn := ic_close ic (ss_conn s)\<rparr>))"
    if "reader_inv view hung inp fs (as_reader s)" for hung fs
    using that w by (intro exI [of _ True]) (auto simp: reader_inv_def Let_def as_reader_def
      split: option.splits recv_point.splits loop_point.splits)
  with inv have "read_inv view R inp log (s\<lparr>ss_conn := ic_close ic (ss_conn s)\<rparr>)"
    by (auto simp: session_inv_def intro: read_inv_mono)
  moreover have "sent_inv view W services log (s\<lparr>ss_conn := ic_close ic (ss_conn s)\<rparr>)"
    using inv w by (simp add: session_inv_def sent_inv_def)
  ultimately show ?thesis using w by (simp add: session_inv_def)
qed

lemma session_step_inv:
  assumes "session_inv W R services inp log s"
    and "session_step W R ic se services e s = (s', notes)"
  shows "session_inv W R services (inp @ event_data e) (log @ notes) s'"
proof -
  obtain x ev where e: "e = (x, ev)" by fastforce
  show ?thesis
  proof (cases ev)
    case (Data d)
    with assms e show ?thesis using session_arrive_inv by (simp add: event_data_def)
  next
    case (Down d)
    with assms e show ?thesis using session_hangup_inv by (simp add: event_data_def)
  next
    case HandlerSettled
    with handler_settled_inv [OF assms(1)] assms(2) e show ?thesis by (simp add: event_data_def)
  next
    case (WriteSettled d)
    with write_settled_inv [OF assms(1)] assms(2) e show ?thesis by (simp add: event_data_def)
  next
    case Stopped
    with assms e show ?thesis using stopped_inv by (auto simp: event_data_def)
  qed
qed

lemma session_steps_inv:
  assumes "session_inv W R services inp log s"
  shows "session_inv W R services (inp @ concat (map event_data es))
     (log @ snd (run_steps (session_step W R ic se services) es s))
     (fst (run_steps (session_step W R ic se services) es s))"
  using assms
proof (induction es arbitrary: s inp log)
  case (Cons e es)
  obtain s1 n1 where s1: "session_step W R ic se services e s = (s1, n1)" by fastforce
  from Cons.IH [OF session_step_inv [OF Cons.prems s1]] s1 show ?case
    by (simp add: Let_def split_def)
qed simp

lemma session_run_inv:
  assumes "valid c" "view c = \<lparr>s_buf = [], s_want = None, s_up = True, s_sent = []\<rparr>"
    and "session_run W R ic se services x es c = (s, log)"
  shows "session_inv W R services (concat (map event_data es)) log s"
proof -
  have "idle W R services [] [] c"
    using assms(1,2) by (auto simp: idle_def reader_inv_def decoded_frames_def
      intro!: exI [of _ False] exI [of _ "[]"])
  moreover obtain s0 n0 where h: "loop_head R ic services x c = (s0, n0)" by fastforce
  ultimately have "session_inv W R services [] n0 s0"
    using loop_head_inv [of W R services "[]" "[]" c x s0 n0] by simp
  from session_steps_inv [OF this, of es] assms(3) h show ?thesis
    by (auto simp: session_run_def split_def Let_def)
qed

text \<open>What a client that sent whole frames can conclude.\<close>

lemma reply_frames: "map (reply_frame W) ms = map encode_frame (map (encode_envelope W) ms)"
  by (simp add: reply_frame_def)

lemma frames_of_requests:
  assumes "protobuf_runtime W R E sections" "list_all (envelope_fits W E) ms"
  shows "list_all frame_ok (map (encode_envelope W) ms)"
    and "map (decode_envelope R) (map (encode_envelope W) ms) = map (\<lambda>m. Some (Inr (drop_proto m))) ms"
  using assms(2) protobuf_runtime.decode_encode_envelope [OF assms(1)]
  by (auto simp: envelope_fits_def list_all_iff)

lemma some_inr_inj: "map (\<lambda>m. Some (Inr m)) xs = map (\<lambda>m. Some (Inr m)) ys \<Longrightarrow> xs = ys"
  by (erule inj_map_eq_map [THEN iffD1, rotated]) (auto intro: injI)

lemma requests_prefix:
  assumes rt: "protobuf_runtime W R E sections" "list_all (envelope_fits W E) ms"
    and stream: "inp @ later = concat (map (reply_frame W) ms)"
    and inv: "session_inv W R services inp log s"
  shows "\<exists>hs. map drop_proto ms = map snd (requests log) @ hs"
proof -
  let ?gs = "map (encode_envelope W) ms"
  note fr = frames_of_requests [OF rt]
  obtain hung fs where i: "reader_inv view hung inp fs (as_reader s)"
    and d: "decoded_frames R fs (map snd (requests log)) \<or>
      (\<exists>gs f. fs = gs @ [f] \<and> decoded_frames R gs (map snd (requests log)))"
    using inv by (auto simp: session_inv_def read_inv_def)
  from i obtain rest where "inp = concat (map encode_frame fs) @ rest" "list_all frame_ok fs"
    by (auto simp: reader_inv_def Let_def split: option.splits recv_point.splits if_splits)
  with stream fr(1) have "\<exists>hs. ?gs = fs @ hs \<and> rest @ later = concat (map encode_frame hs)"
    by (intro encode_frames_prefix) (simp_all add: reply_frames del: map_map)
  then obtain hs where hs: "?gs = fs @ hs" by blast
  obtain fs' hs' where fs': "?gs = fs' @ hs'" "decoded_frames R fs' (map snd (requests log))"
    using d hs by auto
  have "map (\<lambda>m. Some (Inr m)) (map drop_proto ms) = map (decode_envelope R) (fs' @ hs')"
    unfolding fs'(1) [symmetric] fr(2) by simp
  also have "\<dots> = map (\<lambda>m. Some (Inr m)) (map snd (requests log)) @ map (decode_envelope R) hs'"
    using fs'(2) by (simp add: decoded_frames_def)
  finally have eq: "map (\<lambda>m. Some (Inr m)) (map drop_proto ms)
      = map (\<lambda>m. Some (Inr m)) (map snd (requests log)) @ map (decode_envelope R) hs'" .
  let ?n = "length (requests log)"
  have "take ?n (map (\<lambda>m. Some (Inr m :: transport_error + envelope)) (map drop_proto ms))
      = map (\<lambda>m. Some (Inr m)) (map snd (requests log))"
    unfolding eq by simp
  then have "take ?n (map drop_proto ms) = map snd (requests log)"
    unfolding take_map by (rule some_inr_inj)
  then show ?thesis by (metis append_take_drop_id)
qed

lemma requests_complete:
  assumes rt: "protobuf_runtime W R E sections" "list_all (envelope_fits W E) ms"
    and stream: "inp = concat (map (reply_frame W) ms)"
    and inv: "session_inv W R services inp log s" and at: "ss_at s = Reading k"
  shows "map snd (requests log) = map drop_proto ms"
proof -
  let ?gs = "map (encode_envelope W) ms"
  note fr = frames_of_requests [OF rt]
  obtain hung fs where i: "reader_inv view hung inp fs (as_reader s)"
    and d: "decoded_frames R fs (map snd (requests log))"
    using inv at by (auto simp: session_inv_def read_inv_def)
  have pt: "rd_point (as_reader s) \<noteq> None" using at by (simp add: as_reader_def)
  have str: "concat (map encode_frame fs) @ residue view (as_reader s) = concat (map encode_frame ?gs)"
    using residue_inv [OF i pt] stream by (simp add: reply_frames del: map_map)
  moreover have "list_all frame_ok fs" using i by (simp add: reader_inv_def)
  ultimately obtain hs where hs: "?gs = fs @ hs"
    "residue view (as_reader s) = concat (map encode_frame hs)"
    using encode_frames_prefix [OF str _ fr(1)] by blast
  have "hs = []"
  proof (cases hs)
    case (Cons h hs')
    with hs(1) fr(1) have "frame_ok h" by simp
    from residue_short [OF i pt _ this] hs(2) Cons show ?thesis by simp
  qed
  with hs(1) have "map (decode_envelope R) fs = map (\<lambda>m. Some (Inr (drop_proto m))) ms"
    using fr(2) by simp
  with d have "map (\<lambda>m. Some (Inr m :: transport_error + envelope)) (map snd (requests log)) = map (\<lambda>m. Some (Inr m)) (map drop_proto ms)"
    by (simp add: decoded_frames_def comp_def)
  then show ?thesis by (rule some_inr_inj)
qed

text \<open>
  Progress: a connection that waits for a request, is sent one whole frame, and whose handler
  and writes settle, ends waiting again, with the request answered.
\<close>

definition ready :: "bytes \<Rightarrow> 'c session \<Rightarrow> bool" where
  "ready sent s \<longleftrightarrow> valid (ss_conn s) \<and> ss_at s = Reading AwaitHeader \<and>
     view (ss_conn s) = \<lparr>s_buf = [], s_want = Some 4, s_up = True, s_sent = sent\<rparr>"

lemma loop_head_ready:
  assumes "valid c" "view c = \<lparr>s_buf = [], s_want = None, s_up = True, s_sent = sent\<rparr>"
  shows "\<exists>s. loop_head R ic services x c = (s, []) \<and> ready sent s"
proof -
  obtain c' r where r: "ic_recv ic 4 c = (c', r)" by fastforce
  have "s_want (view c) = None" using assms(2) by simp
  note v = recv_view [OF assms(1) this r]
  show ?thesis
    using v assms r connected_refines [OF assms(1)]
    by (simp add: loop_head_def codec_recv_def recvFrame_def spec_recv_def request_received_def ready_def)
qed

lemma ready_receives:
  assumes "ready sent s" "envelope_fits W E m" "decode_envelope R (encode_envelope W m) = Some (Inr m')"
  shows "\<exists>s'. session_step W R ic se services (x, Data (reply_frame W m)) s = (s', [Request x m']) \<and>
    valid (ss_conn s') \<and> ss_at s' = Handling (dispatch services x m') \<and>
    view (ss_conn s') = \<lparr>s_buf = [], s_want = None, s_up = True, s_sent = sent\<rparr>"
proof -
  let ?data = "encode_envelope W m"
  let ?h = "writeUInt32BE (length ?data)"
  obtain c a where ca: "se_arrive se (reply_frame W m) (ss_conn s) = (c, a)" by fastforce
  have v: "valid (ss_conn s)" and at: "ss_at s = Reading AwaitHeader"
    and vw: "view (ss_conn s) = \<lparr>s_buf = [], s_want = Some 4, s_up = True, s_sent = sent\<rparr>"
    using assms(1) by (simp_all add: ready_def)
  note w = arrive_view [OF v ca, unfolded vw]
  have ok: "frame_ok ?data" using assms(2) by (simp add: envelope_fits_def)
  have c: "valid c" "view c = \<lparr>s_buf = ?data, s_want = None, s_up = True, s_sent = sent\<rparr>" "a = Some (Inr ?h)"
    using w by (simp_all add: spec_arrive_def reply_frame_def encode_frame_def)
  have rd: "readUInt32BE ?h = Some (length ?data)"
    using read_writeUInt32BE [OF frame_size_lt [OF ok], of "[]"] by simp
  obtain c1 r1 where r1: "ic_recv ic (length ?data) c = (c1, r1)" by fastforce
  note w1 = recv_view [OF c(1) _ r1, unfolded c(2)]
  have c1: "valid c1" "r1 = Now ?data" "view c1 = \<lparr>s_buf = [], s_want = None, s_up = True, s_sent = sent\<rparr>"
    using w1 by (simp_all add: spec_recv_def)
  have "\<exists>c2. recvFrame_resume ic AwaitHeader (Inr ?h) c = (c2, Got ?data) \<and> valid c2 \<and>
      view c2 = \<lparr>s_buf = [], s_want = None, s_up = True, s_sent = sent\<rparr>"
    using rd ok r1 c1 c(1,2) by (cases "?data = []")
      (simp_all add: recvFrame_resume_def recv_header_def recv_payload_def frame_ok_def)
  then show ?thesis
    using ca c at assms(3) by (auto simp: session_settle_def codec_recv_resume_def request_received_def)
qed

lemma handled_replies:
  assumes "ss_at s = Handling (Some r)" "valid (ss_conn s)" "frame_ok (encode_envelope W r)"
    and vw: "view (ss_conn s) = \<lparr>s_buf = [], s_want = None, s_up = True, s_sent = sent\<rparr>"
  shows "\<exists>s'. run_steps (session_step W R ic se services)
      ((x1, HandlerSettled) # (x2, WriteSettled None) #
        (if encode_envelope W r = [] then [] else [(x3, WriteSettled None)])) s = (s', [Reply r]) \<and>
    ready (sent @ reply_frame W r) s'"
proof -
  let ?data = "encode_envelope W r" and ?c = "ss_conn s"
  let ?h = "writeUInt32BE (length ?data)"
  obtain c1 q1 where q1: "ic_send ic ?h ?c = (c1, q1)" by fastforce
  note w1 = send_view [OF assms(2) q1, unfolded vw]
  have c1: "valid c1" "q1 = SPending" "view c1 = \<lparr>s_buf = [], s_want = None, s_up = True, s_sent = sent @ ?h\<rparr>"
    using w1 by (simp_all add: spec_send_def)
  have st1: "session_step W R ic se services (x1, HandlerSettled) s
      = (\<lparr>ss_conn = c1, ss_at = Writing r (SentHeader ?data)\<rparr>, [])"
    using assms(1,3) q1 c1(2)
    by (simp add: codec_send_def sendFrame_def frame_ok_def await_send_def response_sent_def)
  show ?thesis
  proof (cases "?data = []")
    case True
    obtain s' where "loop_head R ic services x2 c1 = (s', [])" "ready (sent @ ?h) s'"
      using loop_head_ready [OF c1(1,3), of R services x2] by blast
    with True st1 show ?thesis
      by (simp del: session_step.simps(3) add: codec_send_resume_def sendFrame_resume_def response_sent_def reply_frame_def encode_frame_def)
  next
    case False
    obtain c2 q2 where q2: "ic_send ic ?data c1 = (c2, q2)" by fastforce
    note w2 = send_view [OF c1(1) q2, unfolded c1(3)]
    have c2: "valid c2" "q2 = SPending"
      "view c2 = \<lparr>s_buf = [], s_want = None, s_up = True, s_sent = sent @ reply_frame W r\<rparr>"
      using w2 by (simp_all add: spec_send_def reply_frame_def encode_frame_def)
    obtain s' where "loop_head R ic services x3 c2 = (s', [])" "ready (sent @ reply_frame W r) s'"
      using loop_head_ready [OF c2(1,3), of R services x3] by blast
    with st1 q2 c2(2) False show ?thesis
      by (simp del: session_step.simps(3) add: codec_send_resume_def sendFrame_resume_def await_send_def response_sent_def)
  qed
qed

end

subsection \<open>The loop on a Unix socket connection\<close>

definition unix_session ::
    "'w writer_ops \<Rightarrow> reader_ops \<Rightarrow> 'x services \<Rightarrow> 'x \<Rightarrow> ('x \<times> session_event) list
       \<Rightarrow> logged_conn session \<times> 'x session_note list" where
  "unix_session W R services x es =
     session_run W R unix_iconnection unix_events services x es (new_connection, [])"

lemma unix_session_inv:
  "unix.session_inv W R services (concat (map event_data es)) (snd (unix_session W R services x es))
     (fst (unix_session W R services x es))"
  by (rule unix.session_run_inv [OF new_connection_view, of _ _ _ x])
    (simp add: unix_session_def)

text \<open>A schedule that serves envelopes one after another, each reply written in full.\<close>

definition serve_events :: "'w writer_ops \<Rightarrow> 'x services \<Rightarrow> ('x \<times> envelope) list \<Rightarrow> ('x \<times> session_event) list" where
  "serve_events W services ms = concat (map (\<lambda>(x, m).
     (x, Data (reply_frame W m)) # (x, HandlerSettled) # (x, WriteSettled None) #
     (case dispatch services x (drop_proto m) of
        None \<Rightarrow> []
      | Some r \<Rightarrow> if encode_envelope W r = [] then [] else [(x, WriteSettled None)])) ms)"

definition servable ::
    "'w writer_ops \<Rightarrow> encodings \<Rightarrow> 'x services \<Rightarrow> 'x \<times> envelope \<Rightarrow> bool" where
  "servable W E services xm \<longleftrightarrow> (case xm of (x, m) \<Rightarrow> envelope_fits W E m \<and>
     (case dispatch services x (drop_proto m) of
        None \<Rightarrow> False | Some r \<Rightarrow> frame_ok (encode_envelope W r)))"

context stream_connection
begin

lemma serve_one:
  assumes rt: "protobuf_runtime W R E sections" and "ready sent s" "servable W E services (x, m)"
  shows "\<exists>s' r. run_steps (session_step W R ic se services) (serve_events W services [(x, m)]) s
      = (s', [Request x (drop_proto m), Reply r]) \<and> dispatch services x (drop_proto m) = Some r \<and>
    ready (sent @ reply_frame W r) s'"
proof -
  have fits: "envelope_fits W E m" using assms(3) by (simp add: servable_def)
  have dec: "decode_envelope R (encode_envelope W m) = Some (Inr (drop_proto m))"
    using fits protobuf_runtime.decode_encode_envelope [OF rt] by (simp add: envelope_fits_def)
  obtain r where r: "dispatch services x (drop_proto m) = Some r" "frame_ok (encode_envelope W r)"
    using assms(3) by (auto simp: servable_def split: option.splits)
  from ready_receives [OF assms(2) fits dec, of services x] obtain s1 where
    s1: "session_step W R ic se services (x, Data (reply_frame W m)) s = (s1, [Request x (drop_proto m)])"
    "valid (ss_conn s1)" "ss_at s1 = Handling (Some r)"
    "view (ss_conn s1) = \<lparr>s_buf = [], s_want = None, s_up = True, s_sent = sent\<rparr>"
    using r(1) by auto
  let ?rest = "(x, HandlerSettled) # (x, WriteSettled None) #
      (if encode_envelope W r = [] then [] else [(x, WriteSettled None)])"
  from handled_replies [OF s1(3,2) r(2) s1(4), of R services x x x] obtain s' where
    s': "run_steps (session_step W R ic se services) ?rest s1 = (s', [Reply r])"
    "ready (sent @ reply_frame W r) s'" by blast
  have ev: "serve_events W services [(x, m)] = (x, Data (reply_frame W m)) # ?rest"
    using r(1) by (simp add: serve_events_def)
  have "run_steps (session_step W R ic se services) (serve_events W services [(x, m)]) s
      = (s', [Request x (drop_proto m), Reply r])"
    unfolding ev using run_steps_Cons [OF s1(1) s'(1)] by (simp del: run_steps.simps)
  with s'(2) r(1) show ?thesis by blast
qed

lemma serve_many:
  assumes rt: "protobuf_runtime W R E sections" and "ready sent s" "list_all (servable W E services) ms"
  shows "\<exists>s' log. run_steps (session_step W R ic se services) (serve_events W services ms) s = (s', log) \<and>
    requests log = map (\<lambda>(x, m). (x, drop_proto m)) ms \<and>
    map Some (replies log) = map (\<lambda>(x, m). dispatch services x (drop_proto m)) ms \<and>
    ready (sent @ concat (map (reply_frame W) (replies log))) s'"
  using assms(2,3)
proof (induction ms arbitrary: s sent)
  case Nil
  then show ?case by (simp add: serve_events_def)
next
  case (Cons xm ms)
  obtain x m where xm: "xm = (x, m)" by fastforce
  with Cons.prems(2) have "servable W E services (x, m)" by simp
  from serve_one [OF rt Cons.prems(1) this] obtain s1 r where
    s1: "run_steps (session_step W R ic se services) (serve_events W services [(x, m)]) s
      = (s1, [Request x (drop_proto m), Reply r])" "dispatch services x (drop_proto m) = Some r"
    "ready (sent @ reply_frame W r) s1" by blast
  from Cons.IH [OF s1(3)] Cons.prems(2) obtain s' log where
    s': "run_steps (session_step W R ic se services) (serve_events W services ms) s1 = (s', log)"
    "requests log = map (\<lambda>(x, m). (x, drop_proto m)) ms"
    "map Some (replies log) = map (\<lambda>(x, m). dispatch services x (drop_proto m)) ms"
    "ready ((sent @ reply_frame W r) @ concat (map (reply_frame W) (replies log))) s'" by auto
  have ev: "serve_events W services (xm # ms) = serve_events W services [(x, m)] @ serve_events W services ms"
    by (simp add: serve_events_def xm)
  have "run_steps (session_step W R ic se services) (serve_events W services (xm # ms)) s
      = (s', [Request x (drop_proto m), Reply r] @ log)"
    unfolding ev run_steps_append s1(1) by (simp add: s'(1))
  with s'(2-4) s1(2) xm show ?case by auto
qed

end

lemma sent_inv_part:
  assumes "sent_inv view W services log s"
  shows "\<exists>pending part. answers services log = map Some (replies log) @ pending \<and> length pending \<le> 1 \<and>
    s_sent (view (ss_conn s)) = concat (map (reply_frame W) (replies log)) @ part \<and>
    (part = [] \<or> (\<exists>r rest. pending = [Some r] \<and> part @ rest = reply_frame W r))"
proof -
  obtain pending part where p: "answers services log = map Some (replies log) @ pending"
    "s_sent (view (ss_conn s)) = concat (map (reply_frame W) (replies log)) @ part"
    "case ss_at s of
       Reading k \<Rightarrow> pending = [] \<and> part = []
     | Hung \<Rightarrow> pending = [] \<and> part = []
     | Handling p \<Rightarrow> pending = [p] \<and> part = []
     | Writing r (SentHeader data) \<Rightarrow> pending = [Some r] \<and> data = encode_envelope W r \<and>
         part = writeUInt32BE (length data)
     | Writing r SentBody \<Rightarrow> pending = [Some r] \<and> part = reply_frame W r
     | Finished \<Rightarrow> pending = [] \<and> part = [] \<or> (\<exists>r rest. pending = [Some r] \<and> part @ rest = reply_frame W r)"
    using assms unfolding sent_inv_def by blast
  have "length pending \<le> 1 \<and> (part = [] \<or> (\<exists>r rest. pending = [Some r] \<and> part @ rest = reply_frame W r))"
    using p(3) by (auto simp: reply_frame_def encode_frame_def split: loop_point.splits send_point.splits)
  with p(1,2) show ?thesis by blast
qed

text \<open>A sample: an echoing service and one request for it.\<close>

definition sample_services :: "unit services" where
  "sample_services = [''S'' \<mapsto> [''m'' \<mapsto> (\<lambda>_ payload. Some (Inr payload))]]"

definition sample_request :: envelope where
  "sample_request = Envelope_create (no_envelope_properties\<lparr>e_type := Some REQUEST,
     e_requestId := Some 5, e_serviceName := Some ''S'', e_methodName := Some ''m'',
     e_payload := Some [9]\<rparr>)"

definition sample_reply :: envelope where
  "sample_reply = Envelope_create (no_envelope_properties\<lparr>e_type := Some RESPONSE,
     e_status := Some OK, e_requestId := Some 5, e_payload := Some [9]\<rparr>)"

lemma sample_bytes:
  "encode_envelope wire_writer sample_request
     = [8, 0, 16, 5, 26, 1, 83, 34, 1, 109, 42, 1, 9]"
  "encode_envelope wire_writer sample_reply = [8, 1, 16, 5, 42, 1, 9, 48, 0]"
  by code_simp+

lemma sample_fits: "envelope_fits wire_writer wire_encodings sample_request"
  unfolding envelope_fits_def sample_bytes
  by (simp add: Envelope_valid_def sample_request_def envelope_new_defs short_def get_payload_def
    get_metadata_def frame_ok_def MAX_FRAME_SIZE_value)

lemma sample_received [simp]: "drop_proto sample_request = sample_request"
  by (simp add: drop_proto_def sample_request_def envelope_new_defs get_metadata_def)

lemma sample_dispatch [simp]: "dispatch sample_services x sample_request = Some sample_reply"
  by (simp add: dispatch_def sample_services_def sample_request_def sample_reply_def envelope_gets
    envelope_new_defs)

lemma sample_servable: "list_all (servable wire_writer wire_encodings sample_services)
    [((), sample_request), ((), sample_request)]"
  using sample_fits by (simp add: servable_def frame_ok_def sample_bytes MAX_FRAME_SIZE_value)

subsection \<open>Properties\<close>

text \<open>
  C9. The dispatch loop answers in order and never interleaves. Whatever bytes arrive, whatever
  the timing of handlers, writes and disconnections: the replies sent are, in order, the
  results of dispatching the requests received, at most one request is unanswered, and the
  bytes written are exactly the frames of those replies, followed at most by a part of the
  frame of the one reply being written.
\<close>

theorem server_replies_in_order:
  "\<exists>pending part. answers services (snd (unix_session W R services x es))
        = map Some (replies (snd (unix_session W R services x es))) @ pending \<and> length pending \<le> 1 \<and>
     written (snd (ss_conn (fst (unix_session W R services x es))))
        = concat (map (reply_frame W) (replies (snd (unix_session W R services x es)))) @ part \<and>
     (part = [] \<or> (\<exists>r rest. pending = [Some r] \<and> part @ rest = reply_frame W r))"
proof -
  from unix_session_inv [of W R services es x] have "sent_inv unix_view W services (snd (unix_session W R services x es))
      (fst (unix_session W R services x es))"
    unfolding unix.session_inv_def by blast
  from sent_inv_part [OF this] show ?thesis by (simp add: unix_view_def)
qed

text \<open>
  C8. The server receives what the client sent. When the bytes that arrived are the start of
  the frames of a sequence of envelopes, the requests received are the first of those envelopes,
  in order, however the socket cuts the stream; when all the bytes have arrived and the loop
  waits for the next request, all have been received, all are answered, and the bytes written
  are exactly the frames of the answers.
\<close>

theorem server_receives_requests:
  assumes "protobuf_runtime W R E sections" "list_all (envelope_fits W E) ms"
    and "concat (map event_data es) @ later = concat (map (reply_frame W) ms)"
  shows "(\<exists>hs. map drop_proto ms = map snd (requests (snd (unix_session W R services x es))) @ hs) \<and>
    (later = [] \<and> ss_at (fst (unix_session W R services x es)) = Reading k \<longrightarrow>
       map snd (requests (snd (unix_session W R services x es))) = map drop_proto ms \<and>
       map Some (replies (snd (unix_session W R services x es))) = answers services (snd (unix_session W R services x es)) \<and>
       written (snd (ss_conn (fst (unix_session W R services x es))))
         = concat (map (reply_frame W) (replies (snd (unix_session W R services x es)))))"
proof (intro conjI impI; (elim conjE)?)
  note inv = unix_session_inv [of W R services es x]
  show "\<exists>hs. map drop_proto ms = map snd (requests (snd (unix_session W R services x es))) @ hs"
    by (rule unix.requests_prefix [OF assms inv])
  assume end_of: "later = []" and at: "ss_at (fst (unix_session W R services x es)) = Reading k"
  from end_of assms(3) have str: "concat (map event_data es) = concat (map (reply_frame W) ms)" by simp
  show "map snd (requests (snd (unix_session W R services x es))) = map drop_proto ms"
    by (rule unix.requests_complete [OF assms(1,2) str inv at])
  from inv have "sent_inv unix_view W services (snd (unix_session W R services x es))
      (fst (unix_session W R services x es))"
    unfolding unix.session_inv_def by blast
  with at show "map Some (replies (snd (unix_session W R services x es))) = answers services (snd (unix_session W R services x es))"
    "written (snd (ss_conn (fst (unix_session W R services x es))))
         = concat (map (reply_frame W) (replies (snd (unix_session W R services x es))))"
    by (auto simp: sent_inv_def unix_view_def)
qed

theorem server_receives_requests_witness:
  "map snd (requests (snd (unix_session wire_writer wire_reader sample_services ()
      (serve_events wire_writer sample_services [((), sample_request), ((), sample_request)]))))
    = [sample_request, sample_request]"
proof -
  let ?es = "serve_events wire_writer sample_services [((), sample_request), ((), sample_request)]"
  have fits: "list_all (envelope_fits wire_writer wire_encodings) [sample_request, sample_request]"
    using sample_fits by simp
  have str: "concat (map event_data ?es) @ [] = concat (map (reply_frame wire_writer) [sample_request, sample_request])"
    by (simp add: event_data_def serve_events_def sample_bytes)
  from unix.loop_head_ready [OF new_connection_view, of wire_reader sample_services "()"] obtain s0 where
    s0: "loop_head wire_reader unix_iconnection sample_services () (new_connection, []) = (s0, [])"
    "unix.ready [] s0" by blast
  obtain s' log where "run_steps (session_step wire_writer wire_reader unix_iconnection unix_events
      sample_services) ?es s0 = (s', log)" "unix.ready ([] @ concat (map (reply_frame wire_writer) (replies log))) s'"
    using unix.serve_many [OF wire.protobuf_runtime_axioms s0(2) sample_servable] by blast
  with s0(1) have "ss_at (fst (unix_session wire_writer wire_reader sample_services () ?es)) = Reading AwaitHeader"
    by (simp add: unix_session_def session_run_def unix.ready_def)
  with server_receives_requests [OF wire.protobuf_runtime_axioms fits str] show ?thesis
    by simp
qed

text \<open>
  C13. The server makes progress: whenever envelopes arrive one after another whose handlers
  settle and whose replies fit a frame, and the socket takes the writes, every one of them is
  dispatched and its reply written, and the loop waits for the next request.
\<close>

theorem server_serves:
  assumes "protobuf_runtime W R E sections" "list_all (servable W E services) ms"
  shows "requests (snd (unix_session W R services x (serve_events W services ms)))
        = map (\<lambda>(x, m). (x, drop_proto m)) ms \<and>
    map Some (replies (snd (unix_session W R services x (serve_events W services ms))))
        = map (\<lambda>(x, m). dispatch services x (drop_proto m)) ms \<and>
    ss_at (fst (unix_session W R services x (serve_events W services ms))) = Reading AwaitHeader"
proof -
  from unix.loop_head_ready [OF new_connection_view, of R services x] obtain s0 where
    s0: "loop_head R unix_iconnection services x (new_connection, []) = (s0, [])" "unix.ready [] s0"
    by blast
  obtain s' log where
    "run_steps (session_step W R unix_iconnection unix_events services) (serve_events W services ms) s0 = (s', log)"
    "requests log = map (\<lambda>(x, m). (x, drop_proto m)) ms"
    "map Some (replies log) = map (\<lambda>(x, m). dispatch services x (drop_proto m)) ms"
    "unix.ready ([] @ concat (map (reply_frame W) (replies log))) s'"
    using unix.serve_many [OF assms(1) s0(2) assms(2)] by blast
  with s0(1) show ?thesis
    by (simp add: unix_session_def session_run_def unix.ready_def)
qed

theorem server_serves_witness:
  "replies (snd (unix_session wire_writer wire_reader sample_services ()
      (serve_events wire_writer sample_services [((), sample_request), ((), sample_request)])))
    = [sample_reply, sample_reply]"
  using server_serves [OF wire.protobuf_runtime_axioms sample_servable]
  by (auto simp: map_eq_Cons_conv)

end
