(* ===== verification/Client.thy ===== *)
theory Client
  imports Dispatch Envelope_Codec "HOL-Library.Multiset"
begin

section \<open>The client (\<open>sdk/js/src/rpc/client.ts\<close>)\<close>

text \<open>
  The class \<open>IBridgerClient\<close>: one connection, calls with a request id each, timeouts, and a
  reconnect loop. The client is written against the interface \<open>ICodec\<close>; the settling of its
  promises, of timers and of connection attempts are the events of the model, and what the
  code asks of the codec, the timers and its callers are its effects. A call, a connection and
  a reconnect loop are named by counters of the model.
\<close>

subsection \<open>Numbers\<close>

text \<open>
  A JavaScript number holding a natural number: exact up to \<open>2 ^ 53\<close>, rounded to the nearest
  multiple of a power of two above (ties to even).
\<close>

fun bit_length :: "nat \<Rightarrow> nat" where
  "bit_length n = (if n = 0 then 0 else Suc (bit_length (n div 2)))"

declare bit_length.simps [simp del]

definition to_number :: "nat \<Rightarrow> nat" where
  "to_number n = (if n \<le> 2 ^ 53 then n else
     (let u = 2 ^ (bit_length n - 53); q = n div u; r = n mod u
      in (if 2 * r < u \<or> (2 * r = u \<and> even q) then q else q + 1) * u))"

text \<open>\<open>n++\<close> on such a number.\<close>

definition increment :: "nat \<Rightarrow> nat" where
  "increment n = to_number (n + 1)"

text \<open>
  The class \<open>Long\<close> of the package \<open>long\<close>, as far as the client uses it: \<open>Long.fromNumber\<close> and
  the conversion \<open>Number(long)\<close>.
\<close>

record long_ops =
  fromNumber :: "nat \<Rightarrow> u64"
  Number :: "u64 \<Rightarrow> nat"

locale long_numbers =
  fixes L :: long_ops
  assumes number_exact: "n \<le> 2 ^ 53 \<Longrightarrow> Number L (fromNumber L n) = n"
    and number_unique: "Number L v = n \<Longrightarrow> n < 2 ^ 53 \<Longrightarrow> v = fromNumber L n"

subsection \<open>Options, errors, state\<close>

record call_options =
  timeout :: "nat option"
  metadata :: "string_map option"

record reconnect_options =
  maxAttempts :: "nat option" \<comment> \<open>absent: no limit\<close>
  baseDelayMs :: "nat option"
  maxDelayMs :: "nat option"

record config =
  defaultTimeout :: "nat option"
  reconnectOpts :: "reconnect_options option"
  codec_closes :: bool \<comment> \<open>whether the codec object has a method \<open>close\<close>\<close>

datatype call_error =
    NotConnected
  | AlreadyInFlight string
  | AttemptsExhausted
  | RpcError u32 string
  | TimeoutError nat
  | IdMismatch nat nat
  | SendOrRecv transport_error
  | NullCodec
  | BadPayload string

definition error_message :: "call_error \<Rightarrow> string" where
  "error_message e = (case e of
     NotConnected \<Rightarrow> ''Not connected''
   | AlreadyInFlight m \<Rightarrow> ''A call is already in flight. method: '' @ m
   | AttemptsExhausted \<Rightarrow> ''Connection lost and reconnect attempts exhausted''
   | RpcError status text \<Rightarrow> text
   | TimeoutError ms \<Rightarrow> ''RPC call timed out after '' @ show_nat ms @ '' ms''
   | IdMismatch expected got \<Rightarrow> ''Protocol error: expected request_id '' @ show_nat expected @
       '', got '' @ show_nat got
   | SendOrRecv te \<Rightarrow> err_message te
   | NullCodec \<Rightarrow> ''Cannot read properties of null (reading '' @ [CHR 0x27] @ ''recv'' @ [CHR 0x27] @ '')''
   | BadPayload text \<Rightarrow> text)"

text \<open>The arguments of a call; \<open>payload\<close> is \<open>reqType.encode(request).finish()\<close>.\<close>

record 'r call_args =
  serviceName :: string
  methodName :: string
  payload :: bytes
  respDecode :: "bytes \<Rightarrow> (string + 'r) option"
  options :: "call_options option"

definition typed_call ::
    "string \<Rightarrow> string \<Rightarrow> 'req \<Rightarrow> 'req proto_type \<Rightarrow> 'r proto_type \<Rightarrow> call_options option \<Rightarrow> 'r call_args" where
  "typed_call svc meth request reqType respType opts =
     \<lparr>serviceName = svc, methodName = meth, payload = pt_encode reqType request,
      respDecode = pt_decode respType, options = opts\<rparr>"

definition ping_call :: "'w writer_ops \<Rightarrow> reader_ops \<Rightarrow> call_options option \<Rightarrow> pong call_args" where
  "ping_call W R opts = typed_call ''ibridger.Ping'' ''Ping'' (Ping_create no_ping_properties)
     (Ping_type W R) (Pong_type W R) opts"

datatype 'r phase =
    Polling "'r call_args"              \<comment> \<open>\<open>await this.waitForReconnect()\<close>\<close>
  | Sending "'r call_args" nat nat      \<comment> \<open>\<open>await this.codec.send(envelope)\<close>: id, timeout\<close>
  | Receiving "'r call_args" nat nat    \<comment> \<open>\<open>await this.withTimeout(this.codec.recv(), ms)\<close>\<close>
  | Stuck                               \<comment> \<open>\<open>respType.decode\<close> did not return\<close>

datatype retry = Sleeping nat | Connecting nat \<comment> \<open>the attempt\<close>

record 'r client =
  codec :: "nat option"                 \<comment> \<open>the connection the codec is over\<close>
  nextRequestId :: nat
  callInFlight :: bool
  reconnecting :: bool
  calls :: "(nat \<times> 'r phase) list"
  called :: nat
  retries :: "retry list"
  connecting :: nat                     \<comment> \<open>pending \<open>connect()\<close> calls of the owner\<close>
  connections :: nat

definition new_client :: "'r client" where
  "new_client = \<lparr>codec = None, nextRequestId = 1, callInFlight = False, reconnecting = False,
     calls = [], called = 0, retries = [], connecting = 0, connections = 0\<rparr>"

datatype 'r client_effect =
    SendEnvelope nat nat envelope       \<comment> \<open>call, connection, envelope\<close>
  | RecvEnvelope nat nat                \<comment> \<open>call, connection\<close>
  | StartTimer nat nat                  \<comment> \<open>call, milliseconds\<close>
  | Settle nat "call_error + 'r"
  | OpenSocket
  | ConnectSettled "string option"      \<comment> \<open>the owner's \<open>connect()\<close>, with the error's message\<close>
  | CloseCodec nat
  | Sleep nat
  | OnDisconnect
  | OnReconnect

datatype 'r client_event =
    Call "'r call_args"
  | SendSettled nat "transport_error option"
  | RecvSettled nat "transport_error + envelope"
  | TimerFired nat
  | PollFired nat
  | Connect
  | ConnectDone "string option"         \<comment> \<open>the owner's attempt: connected, or the error\<close>
  | Disconnect
  | SocketDown nat
  | SleepDone nat                       \<comment> \<open>which loop\<close>
  | RetryDone nat bool                  \<comment> \<open>which loop; whether it connected\<close>

subsection \<open>Calls\<close>

definition set_phase :: "nat \<Rightarrow> 'r phase \<Rightarrow> 'r client \<Rightarrow> 'r client" where
  "set_phase t ph c = c\<lparr>calls := map (\<lambda>(t', ph'). if t' = t then (t', ph) else (t', ph')) (calls c)\<rparr>"

definition end_call :: "nat \<Rightarrow> 'r client \<Rightarrow> 'r client" where
  "end_call t c = c\<lparr>calls := filter (\<lambda>(t', ph). t' \<noteq> t) (calls c)\<rparr>"

text \<open>A call rejects before its \<open>try\<close>, and leaves the \<open>try\<close> through its \<open>finally\<close>.\<close>

definition reject_early :: "nat \<Rightarrow> call_error \<Rightarrow> 'r client \<Rightarrow> 'r client \<times> 'r client_effect list" where
  "reject_early t e c = (end_call t c, [Settle t (Inl e)])"

definition leave_try :: "nat \<Rightarrow> call_error + 'r \<Rightarrow> 'r client \<Rightarrow> 'r client \<times> 'r client_effect list" where
  "leave_try t r c = ((end_call t c)\<lparr>callInFlight := False\<rparr>, [Settle t r])"

definition effective_timeout :: "config \<Rightarrow> 'r call_args \<Rightarrow> nat" where
  "effective_timeout cfg a = (case Option.bind (options a) timeout of
     Some ms \<Rightarrow> ms
   | None \<Rightarrow> (case defaultTimeout cfg of Some ms \<Rightarrow> ms | None \<Rightarrow> DEFAULT_TIMEOUT_MS))"

definition request_envelope :: "long_ops \<Rightarrow> nat \<Rightarrow> 'r call_args \<Rightarrow> envelope" where
  "request_envelope L ident a = Envelope_create (no_envelope_properties
     \<lparr>e_type := Some REQUEST, e_requestId := Some (fromNumber L ident),
      e_serviceName := Some (serviceName a), e_methodName := Some (methodName a),
      e_payload := Some (payload a),
      e_metadata := Some (default [] (Option.bind (options a) metadata))\<rparr>)"

text \<open>The body of \<open>call\<close> after \<open>waitForReconnect\<close>, up to the first \<open>await\<close> in the \<open>try\<close>.\<close>

definition call_go ::
    "long_ops \<Rightarrow> config \<Rightarrow> nat \<Rightarrow> 'r call_args \<Rightarrow> 'r client \<Rightarrow> 'r client \<times> 'r client_effect list" where
  "call_go L cfg t a c = (case codec c of
     None \<Rightarrow> reject_early t NotConnected c
   | Some g \<Rightarrow>
       if callInFlight c then reject_early t (AlreadyInFlight (methodName a)) c
       else (let ident = nextRequestId c
             in ((set_phase t (Sending a ident (effective_timeout cfg a)) c)
                   \<lparr>nextRequestId := increment ident, callInFlight := True\<rparr>,
                 [SendEnvelope t g (request_envelope L ident a)])))"

text \<open>The start of \<open>call\<close>; the model gives the call its name.\<close>

definition call ::
    "long_ops \<Rightarrow> config \<Rightarrow> 'r call_args \<Rightarrow> 'r client \<Rightarrow> 'r client \<times> 'r client_effect list" where
  "call L cfg a c =
     (let t = called c; c1 = c\<lparr>called := Suc t, calls := (t, Polling a) # calls c\<rparr>
      in if codec c = None \<and> reconnectOpts cfg \<noteq> None then (c1, [])
         else call_go L cfg t a c1)"

text \<open>One check of the interval in \<open>waitForReconnect\<close>.\<close>

definition poll ::
    "long_ops \<Rightarrow> config \<Rightarrow> nat \<Rightarrow> 'r call_args \<Rightarrow> 'r client \<Rightarrow> 'r client \<times> 'r client_effect list" where
  "poll L cfg t a c =
     (if codec c \<noteq> None then call_go L cfg t a c
      else if \<not> reconnecting c then reject_early t AttemptsExhausted c
      else (c, []))"

text \<open>After \<open>await this.codec.send(envelope)\<close>: the codec is read again.\<close>

definition send_settled ::
    "nat \<Rightarrow> transport_error option \<Rightarrow> 'r call_args \<Rightarrow> nat \<Rightarrow> nat \<Rightarrow> 'r client \<Rightarrow> 'r client \<times> 'r client_effect list" where
  "send_settled t err a ident ms c = (case err of
     Some e \<Rightarrow> leave_try t (Inl (SendOrRecv e)) c
   | None \<Rightarrow> (case codec c of
        None \<Rightarrow> leave_try t (Inl NullCodec) c
      | Some g \<Rightarrow> (set_phase t (Receiving a ident ms) c, [RecvEnvelope t g, StartTimer t ms])))"

text \<open>The end of the \<open>try\<close>, for a response that arrived in time; \<open>None\<close> if decoding hangs.\<close>

definition call_result ::
    "long_ops \<Rightarrow> nat \<Rightarrow> 'r call_args \<Rightarrow> envelope \<Rightarrow> (call_error + 'r) option" where
  "call_result L ident a response =
     (if Number L (get_requestId response) \<noteq> ident
      then Some (Inl (IdMismatch ident (Number L (get_requestId response))))
      else if get_status response \<noteq> OK
      then Some (Inl (RpcError (get_status response)
        (if get_errorMessage response \<noteq> [] then get_errorMessage response
         else ''RPC failed with status '' @ show_int (sint (get_status response)))))
      else (case respDecode a (get_payload response) of
          None \<Rightarrow> None
        | Some (Inl text) \<Rightarrow> Some (Inl (BadPayload text))
        | Some (Inr r) \<Rightarrow> Some (Inr r)))"

definition recv_settled ::
    "long_ops \<Rightarrow> nat \<Rightarrow> transport_error + envelope \<Rightarrow> 'r call_args \<Rightarrow> nat \<Rightarrow> 'r client
       \<Rightarrow> 'r client \<times> 'r client_effect list" where
  "recv_settled L t r a ident c = (case r of
     Inl e \<Rightarrow> leave_try t (Inl (SendOrRecv e)) c
   | Inr response \<Rightarrow> (case call_result L ident a response of
        None \<Rightarrow> (set_phase t Stuck c, [])
      | Some result \<Rightarrow> leave_try t result c))"

subsection \<open>Connecting\<close>

text \<open>
  The delay, in natural numbers: options that are \<open>Infinity\<close> are outside the model, and so is the
  \<open>NaN\<close> that JavaScript computes for a base of 0 from attempt 1024 on, where \<open>2 ** attempt\<close> overflows.
\<close>

definition backoff :: "reconnect_options \<Rightarrow> nat \<Rightarrow> nat" where
  "backoff ro attempt = min (default 200 (baseDelayMs ro) * 2 ^ attempt) (default 10000 (maxDelayMs ro))"

text \<open>The loop of \<open>scheduleReconnect\<close> at the head of an attempt.\<close>

definition retry_head ::
    "reconnect_options \<Rightarrow> nat \<Rightarrow> nat \<Rightarrow> 'r client \<Rightarrow> 'r client \<times> 'r client_effect list" where
  "retry_head ro i attempt c =
     (if (case maxAttempts ro of None \<Rightarrow> True | Some n \<Rightarrow> attempt < n)
      then (c\<lparr>retries := (retries c)[i := Sleeping attempt]\<rparr>, [Sleep (backoff ro attempt)])
      else (c\<lparr>retries := take i (retries c) @ drop (Suc i) (retries c), reconnecting := False\<rparr>, []))"

definition scheduleReconnect ::
    "reconnect_options \<Rightarrow> 'r client \<Rightarrow> 'r client \<times> 'r client_effect list" where
  "scheduleReconnect ro c =
     (if reconnecting c then (c, [])
      else retry_head ro (length (retries c)) 0
        (c\<lparr>reconnecting := True, retries := retries c @ [Sleeping 0]\<rparr>))"

text \<open>After the sleep: \<open>connect()\<close>, which throws at once if there is a codec.\<close>

definition sleep_done ::
    "reconnect_options \<Rightarrow> nat \<Rightarrow> nat \<Rightarrow> 'r client \<Rightarrow> 'r client \<times> 'r client_effect list" where
  "sleep_done ro i attempt c =
     (if codec c \<noteq> None then retry_head ro i (Suc attempt) c
      else (c\<lparr>retries := (retries c)[i := Connecting attempt]\<rparr>, [OpenSocket]))"

definition connected_now :: "'r client \<Rightarrow> 'r client" where
  "connected_now c = c\<lparr>codec := Some (connections c), connections := Suc (connections c)\<rparr>"

definition retry_done ::
    "reconnect_options \<Rightarrow> nat \<Rightarrow> nat \<Rightarrow> bool \<Rightarrow> 'r client \<Rightarrow> 'r client \<times> 'r client_effect list" where
  "retry_done ro i attempt ok c =
     (if ok then ((connected_now c)\<lparr>reconnecting := False,
          retries := take i (retries c) @ drop (Suc i) (retries c)\<rparr>, [OnReconnect])
      else retry_head ro i (Suc attempt) c)"

definition connect :: "'r client \<Rightarrow> 'r client \<times> 'r client_effect list" where
  "connect c =
     (if codec c \<noteq> None then (c, [ConnectSettled (Some ''Already connected'')])
      else (c\<lparr>connecting := Suc (connecting c)\<rparr>, [OpenSocket]))"

definition connect_done :: "string option \<Rightarrow> 'r client \<Rightarrow> 'r client \<times> 'r client_effect list" where
  "connect_done err c = (let c1 = c\<lparr>connecting := connecting c - 1\<rparr> in
     case err of None \<Rightarrow> (connected_now c1, [ConnectSettled None])
     | Some e \<Rightarrow> (c1, [ConnectSettled (Some e)]))"

text \<open>\<open>conn.onDisconnect\<close>: every connection's callback clears the codec there is now.\<close>

definition socket_down :: "config \<Rightarrow> 'r client \<Rightarrow> 'r client \<times> 'r client_effect list" where
  "socket_down cfg c =
     (let c1 = c\<lparr>codec := None\<rparr> in
      case reconnectOpts cfg of
        None \<Rightarrow> (c1, [OnDisconnect])
      | Some ro \<Rightarrow> (let (c2, es) = scheduleReconnect ro c1 in (c2, OnDisconnect # es)))"

definition codecAsCloseable :: "config \<Rightarrow> 'r client \<Rightarrow> nat option" where
  "codecAsCloseable cfg c = (if codec_closes cfg then codec c else None)"

definition disconnect :: "config \<Rightarrow> 'r client \<Rightarrow> 'r client \<times> 'r client_effect list" where
  "disconnect cfg c = (c\<lparr>codec := None\<rparr>,
     case codecAsCloseable cfg c of None \<Rightarrow> [] | Some g \<Rightarrow> [CloseCodec g])"

definition client_isConnected :: "'r client \<Rightarrow> bool" where
  "client_isConnected c \<longleftrightarrow> codec c \<noteq> None"

subsection \<open>The client as a whole\<close>

text \<open>
  An event for a call that is not at that \<open>await\<close>, for instance a reply after the timeout,
  has no effect: the promise the call waits on is settled already.
\<close>

fun client_step ::
    "long_ops \<Rightarrow> config \<Rightarrow> 'r client_event \<Rightarrow> 'r client \<Rightarrow> 'r client \<times> 'r client_effect list" where
  "client_step L cfg (Call a) c = call L cfg a c"
| "client_step L cfg (SendSettled t err) c = (case map_of (calls c) t of
       Some (Sending a ident ms) \<Rightarrow> send_settled t err a ident ms c | _ \<Rightarrow> (c, []))"
| "client_step L cfg (RecvSettled t r) c = (case map_of (calls c) t of
       Some (Receiving a ident ms) \<Rightarrow> recv_settled L t r a ident c | _ \<Rightarrow> (c, []))"
| "client_step L cfg (TimerFired t) c = (case map_of (calls c) t of
       Some (Receiving a ident ms) \<Rightarrow> leave_try t (Inl (TimeoutError ms)) c | _ \<Rightarrow> (c, []))"
| "client_step L cfg (PollFired t) c = (case map_of (calls c) t of
       Some (Polling a) \<Rightarrow> poll L cfg t a c | _ \<Rightarrow> (c, []))"
| "client_step L cfg Connect c = connect c"
| "client_step L cfg (ConnectDone err) c = (if connecting c = 0 then (c, []) else connect_done err c)"
| "client_step L cfg Disconnect c = disconnect cfg c"
| "client_step L cfg (SocketDown g) c = (if g < connections c then socket_down cfg c else (c, []))"
| "client_step L cfg (SleepDone i) c = (case reconnectOpts cfg of
       None \<Rightarrow> (c, [])
     | Some ro \<Rightarrow>
         if i < length (retries c)
         then (case (retries c) ! i of Sleeping n \<Rightarrow> sleep_done ro i n c | Connecting n \<Rightarrow> (c, []))
         else (c, []))"
| "client_step L cfg (RetryDone i ok) c = (case reconnectOpts cfg of
       None \<Rightarrow> (c, [])
     | Some ro \<Rightarrow>
         if i < length (retries c)
         then (case (retries c) ! i of Connecting n \<Rightarrow> retry_done ro i n ok c | Sleeping n \<Rightarrow> (c, []))
         else (c, []))"

abbreviation client_run ::
    "long_ops \<Rightarrow> config \<Rightarrow> 'r client_event list \<Rightarrow> 'r client \<times> 'r client_effect list" where
  "client_run L cfg es \<equiv> run_steps (client_step L cfg) es new_client"

lemmas client_defs = call_def call_go_def poll_def reject_early_def leave_try_def send_settled_def
  recv_settled_def connect_def connect_done_def connected_now_def socket_down_def disconnect_def
  sleep_done_def retry_done_def Let_def

end
