(* ===== verification/Client_Calls.thy ===== *)
theory Client_Calls
  imports Client
begin

section \<open>The calls of a client as an abstract machine\<close>

text \<open>
  What matters for the correctness of calls: which calls run and at which await, whether one is
  in flight, and the next request id. The abstract machine has one rule for each thing that can
  happen to a call; the client refines it, whatever happens to its connections, timers and
  reconnect loops. Invariants of the machine are then invariants of the client.
\<close>

record 'r machine =
  m_phase :: "nat \<Rightarrow> 'r phase option"
  m_started :: nat
  m_busy :: bool
  m_next :: nat

definition machine_of :: "'r client \<Rightarrow> 'r machine" where
  "machine_of c = \<lparr>m_phase = map_of (calls c), m_started = called c, m_busy = callInFlight c,
     m_next = nextRequestId c\<rparr>"

fun in_try :: "'r phase \<Rightarrow> bool" where
  "in_try (Polling a) = False"
| "in_try (Sending a i ms) = True"
| "in_try (Receiving a i ms) = True"
| "in_try Stuck = True"

text \<open>
  The machine's rules, each with the requests it sends and the calls it settles. The event is
  a parameter: only the arrival of a response can give a call an answer; what it fails with
  otherwise is an error of the client's own.
\<close>

definition local_failure :: "call_error \<Rightarrow> bool" where
  "local_failure e \<longleftrightarrow> (case e of RpcError status text \<Rightarrow> False | IdMismatch i j \<Rightarrow> False | BadPayload text \<Rightarrow> False | _ \<Rightarrow> True)"

inductive call_trans ::
    "long_ops \<Rightarrow> 'r client_event \<Rightarrow> 'r machine \<Rightarrow> 'r machine
       \<Rightarrow> (nat \<times> envelope) list \<Rightarrow> (nat \<times> (call_error + 'r)) list \<Rightarrow> bool"
  for L e where
  Skip: "\<forall>a. e \<noteq> Call a \<Longrightarrow> call_trans L e m m [] []"
| Wait: "e = Call a \<Longrightarrow> call_trans L e m (m\<lparr>m_started := Suc (m_started m),
      m_phase := (m_phase m)(m_started m \<mapsto> Polling a)\<rparr>) [] []"
| Refuse: "e = Call a \<Longrightarrow> local_failure err \<Longrightarrow> call_trans L e m (m\<lparr>m_started := Suc (m_started m),
      m_phase := (m_phase m)(m_started m := None)\<rparr>) [] [(m_started m, Inl err)]"
| Drop: "\<forall>a. e \<noteq> Call a \<Longrightarrow> m_phase m t = Some (Polling a) \<Longrightarrow> local_failure err \<Longrightarrow>
    call_trans L e m (m\<lparr>m_phase := (m_phase m)(t := None)\<rparr>) [] [(t, Inl err)]"
| Send_new: "e = Call a \<Longrightarrow> \<not> m_busy m \<Longrightarrow>
    call_trans L e m (m\<lparr>m_started := Suc (m_started m), m_busy := True, m_next := increment (m_next m),
      m_phase := (m_phase m)(m_started m \<mapsto> Sending a (m_next m) ms)\<rparr>)
      [(m_started m, request_envelope L (m_next m) a)] []"
| Send: "\<forall>a. e \<noteq> Call a \<Longrightarrow> \<not> m_busy m \<Longrightarrow> m_phase m t = Some (Polling a) \<Longrightarrow>
    call_trans L e m (m\<lparr>m_busy := True, m_next := increment (m_next m),
      m_phase := (m_phase m)(t \<mapsto> Sending a (m_next m) ms)\<rparr>)
      [(t, request_envelope L (m_next m) a)] []"
| Sent: "\<forall>a. e \<noteq> Call a \<Longrightarrow> m_phase m t = Some (Sending a i ms) \<Longrightarrow>
    call_trans L e m (m\<lparr>m_phase := (m_phase m)(t \<mapsto> Receiving a i ms)\<rparr>) [] []"
| Hang: "\<forall>a. e \<noteq> Call a \<Longrightarrow> m_phase m t = Some (Receiving a i ms) \<Longrightarrow>
    call_trans L e m (m\<lparr>m_phase := (m_phase m)(t \<mapsto> Stuck)\<rparr>) [] []"
| Fail: "\<forall>a. e \<noteq> Call a \<Longrightarrow> m_phase m t = Some p \<Longrightarrow> in_try p \<Longrightarrow> local_failure err \<Longrightarrow>
    call_trans L e m (m\<lparr>m_busy := False, m_phase := (m_phase m)(t := None)\<rparr>) [] [(t, Inl err)]"
| Answer: "m_phase m t = Some (Receiving a i ms) \<Longrightarrow> e = RecvSettled t (Inr response) \<Longrightarrow>
    call_result L i a response = Some r \<Longrightarrow>
    call_trans L e m (m\<lparr>m_busy := False, m_phase := (m_phase m)(t := None)\<rparr>) [] [(t, r)]"

definition sends :: "'r client_effect list \<Rightarrow> (nat \<times> envelope) list" where
  "sends os = concat (map (\<lambda>x. case x of SendEnvelope t g m \<Rightarrow> [(t, m)] | _ \<Rightarrow> []) os)"

definition settles :: "'r client_effect list \<Rightarrow> (nat \<times> (call_error + 'r)) list" where
  "settles os = concat (map (\<lambda>x. case x of Settle t r \<Rightarrow> [(t, r)] | _ \<Rightarrow> []) os)"

lemma sends_simps [simp]:
  "sends [] = []" "sends (SendEnvelope t g m # os) = (t, m) # sends os"
  "sends (RecvEnvelope t g # os) = sends os" "sends (StartTimer t ms # os) = sends os"
  "sends (Settle t r # os) = sends os" "sends (OpenSocket # os) = sends os"
  "sends (ConnectSettled e # os) = sends os" "sends (CloseCodec g # os) = sends os"
  "sends (Sleep d # os) = sends os" "sends (OnDisconnect # os) = sends os"
  "sends (OnReconnect # os) = sends os" "sends (xs @ ys) = sends xs @ sends ys"
  by (simp_all add: sends_def)

lemma settles_simps [simp]:
  "settles [] = []" "settles (SendEnvelope t g m # os) = settles os"
  "settles (RecvEnvelope t g # os) = settles os" "settles (StartTimer t ms # os) = settles os"
  "settles (Settle t r # os) = (t, r) # settles os" "settles (OpenSocket # os) = settles os"
  "settles (ConnectSettled e # os) = settles os" "settles (CloseCodec g # os) = settles os"
  "settles (Sleep d # os) = settles os" "settles (OnDisconnect # os) = settles os"
  "settles (OnReconnect # os) = settles os" "settles (xs @ ys) = settles xs @ settles ys"
  by (simp_all add: settles_def)

subsection \<open>The client refines the machine\<close>

lemma map_of_set_phase:
  "map_of (calls (set_phase t ph c)) = (\<lambda>t'. if t' = t then map_option (\<lambda>_. ph) (map_of (calls c) t) else map_of (calls c) t')"
proof -
  have "map_of (map (\<lambda>(t', ph'). if t' = t then (t', ph) else (t', ph')) xs) t'
      = (if t' = t then map_option (\<lambda>_. ph) (map_of xs t) else map_of xs t')"
    for xs :: "(nat \<times> 'a phase) list" and t'
    by (induction xs) auto
  then show ?thesis by (simp add: set_phase_def fun_eq_iff)
qed

lemma map_of_end_call: "map_of (calls (end_call t c)) = (map_of (calls c))(t := None)"
proof -
  have "map_of (filter (\<lambda>(t', ph). t' \<noteq> t) xs) t' = (if t' = t then None else map_of xs t')"
    for xs :: "(nat \<times> 'a phase) list" and t'
    by (induction xs) auto
  then show ?thesis by (simp add: end_call_def fun_eq_iff)
qed

lemma machine_of_sels [simp]:
  "m_phase (machine_of c) = map_of (calls c)" "m_started (machine_of c) = called c"
  "m_busy (machine_of c) = callInFlight c" "m_next (machine_of c) = nextRequestId c"
  by (simp_all add: machine_of_def)

lemma machine_of_updates [simp]:
  "machine_of (c\<lparr>codec := x\<rparr>) = machine_of c" "machine_of (c\<lparr>reconnecting := b\<rparr>) = machine_of c"
  "machine_of (c\<lparr>retries := rs\<rparr>) = machine_of c" "machine_of (c\<lparr>connecting := n\<rparr>) = machine_of c"
  "machine_of (c\<lparr>connections := n\<rparr>) = machine_of c"
  by (simp_all add: machine_of_def)

lemma machine_of_set_phase:
  "map_of (calls c) t \<noteq> None \<Longrightarrow>
   machine_of (set_phase t ph c) = (machine_of c)\<lparr>m_phase := (map_of (calls c))(t \<mapsto> ph)\<rparr>"
  by (auto simp: machine_of_def map_of_set_phase fun_eq_iff) (auto simp: set_phase_def)

lemma machine_of_end_call:
  "machine_of (end_call t c) = (machine_of c)\<lparr>m_phase := (map_of (calls c))(t := None)\<rparr>"
  by (simp add: machine_of_def map_of_end_call) (simp add: end_call_def)

lemma machine_of_next_busy:
  "machine_of (c\<lparr>nextRequestId := n\<rparr>) = (machine_of c)\<lparr>m_next := n\<rparr>"
  "machine_of (c\<lparr>callInFlight := b\<rparr>) = (machine_of c)\<lparr>m_busy := b\<rparr>"
  by (simp_all add: machine_of_def)

lemmas machine_of_simps = machine_of_set_phase machine_of_end_call machine_of_next_busy

text \<open>The reconnect loop and the connections do not touch the calls.\<close>

lemma retry_head_calls:
  "retry_head ro i n c = (c', os) \<Longrightarrow> machine_of c' = machine_of c \<and> sends os = [] \<and> settles os = []"
  by (auto simp: retry_head_def split: if_splits)

lemma schedule_calls:
  "scheduleReconnect ro c = (c', os) \<Longrightarrow> machine_of c' = machine_of c \<and> sends os = [] \<and> settles os = []"
  by (auto simp: scheduleReconnect_def dest!: retry_head_calls split: if_splits)

lemma down_calls:
  "socket_down cfg c = (c', os) \<Longrightarrow> machine_of c' = machine_of c \<and> sends os = [] \<and> settles os = []"
  by (cases "scheduleReconnect (the (reconnectOpts cfg)) (c\<lparr>codec := None\<rparr>)")
    (auto simp: socket_down_def Let_def split: option.splits dest!: schedule_calls)

lemma other_calls:
  assumes "client_step L cfg e c = (c', os)"
    and "e \<in> {Connect, Disconnect} \<or> (\<exists>x. e = ConnectDone x) \<or> (\<exists>g. e = SocketDown g)
      \<or> (\<exists>i. e = SleepDone i) \<or> (\<exists>i ok. e = RetryDone i ok)"
  shows "machine_of c' = machine_of c \<and> sends os = [] \<and> settles os = []"
  using assms(2,1)
  by (elim disjE exE insertE)
    (auto simp: connect_def connect_done_def connected_now_def disconnect_def sleep_done_def retry_done_def Let_def
      split: if_splits option.splits retry.splits dest!: down_calls retry_head_calls)

text \<open>\<open>call_go\<close> for a call that polls, and each handler of a call.\<close>

lemma call_trans_eq:
  "call_trans L e m m1 ss1 rs1 \<Longrightarrow> m' = m1 \<Longrightarrow> ss = ss1 \<Longrightarrow> rs = rs1 \<Longrightarrow> call_trans L e m m' ss rs"
  by (simp only:)

text \<open>The two ways \<open>call_go\<close> ends: a rejection, or a request under way.\<close>

lemma call_go_cases:
  assumes "call_go L cfg t a c = (c', os)"
  obtains (Rejected) err where "c' = end_call t c" "os = [Settle t (Inl err)]" "local_failure err"
    | (Started) ms g where "\<not> callInFlight c" "c' = (set_phase t (Sending a (nextRequestId c) ms) c)
        \<lparr>nextRequestId := increment (nextRequestId c), callInFlight := True\<rparr>"
        "os = [SendEnvelope t g (request_envelope L (nextRequestId c) a)]"
proof (cases "codec c = None \<or> callInFlight c")
  case True
  then show ?thesis using assms Rejected
    by (auto simp: call_go_def reject_early_def local_failure_def split: option.splits if_splits)
next
  case False
  then show ?thesis using assms Started by (auto simp: call_go_def Let_def)
qed

lemma call_go_trans:
  assumes "call_go L cfg t a c = (c', os)" "map_of (calls c) t = Some (Polling a)"
    and nc: "\<forall>a. e \<noteq> Call a"
  shows "call_trans L e (machine_of c) (machine_of c') (sends os) (settles os)"
  using assms(1)
proof (cases rule: call_go_cases)
  case (Rejected err)
  show ?thesis
    by (rule Drop [where t = t and a = a, THEN call_trans_eq]) (simp_all add: nc Rejected assms(2) machine_of_simps)
next
  case (Started ms g)
  show ?thesis
    by (rule Send [where t = t and a = a and ms = ms, THEN call_trans_eq]) (simp_all add: nc Started assms(2) machine_of_simps)
qed

lemma call_entered:
  assumes "call L cfg a c = (c', os)" "map_of (calls c) (called c) = None"
  shows "call_trans L (Call a) (machine_of c) (machine_of c') (sends os) (settles os)"
proof -
  let ?t = "called c"
  let ?c1 = "c\<lparr>called := Suc ?t, calls := (?t, Polling a) # calls c\<rparr>"
  have m1: "machine_of ?c1 = (machine_of c)\<lparr>m_started := Suc ?t, m_phase := (map_of (calls c))(?t \<mapsto> Polling a)\<rparr>"
    by (simp add: machine_of_def)
  show ?thesis
  proof (cases "codec c = None \<and> reconnectOpts cfg \<noteq> None")
    case True
    then have "c' = ?c1" "os = []" using assms(1) by (simp_all add: call_def Let_def)
    then show ?thesis by (intro Wait [where a = a, THEN call_trans_eq]) (simp_all add: m1)
  next
    case False
    then have "call_go L cfg ?t a ?c1 = (c', os)"
      using assms(1) unfolding call_def Let_def if_not_P [OF False] by simp
    then show ?thesis
    proof (cases rule: call_go_cases)
      case (Rejected err)
      show ?thesis
        by (rule Refuse [where a = a, THEN call_trans_eq]) (simp_all add: Rejected machine_of_end_call m1)
    next
      case (Started ms g)
      show ?thesis
        by (rule Send_new [where a = a and ms = ms, THEN call_trans_eq])
          (use Started(1) in \<open>simp_all add: Started(2,3) machine_of_simps m1\<close>)
    qed
  qed
qed

lemma leave_try_machine:
  "leave_try t r c = (c', os) \<Longrightarrow> machine_of c' = (machine_of c)\<lparr>m_busy := False,
     m_phase := (map_of (calls c))(t := None)\<rparr> \<and> sends os = [] \<and> settles os = [(t, r)]"
  by (auto simp: leave_try_def machine_of_simps)

lemma failed_trans:
  assumes "leave_try t (Inl err) c = (c', os)" "map_of (calls c) t = Some p" "in_try p" "local_failure err"
    and nc: "\<forall>a. e \<noteq> Call a"
  shows "call_trans L e (machine_of c) (machine_of c') (sends os) (settles os)"
  by (rule Fail [where t = t and p = p, THEN call_trans_eq]) (simp_all add: nc leave_try_machine [OF assms(1)] assms(2-4))

lemma send_settled_trans:
  assumes "send_settled t err a i ms c = (c', os)" "map_of (calls c) t = Some (Sending a i ms)"
    and nc: "\<forall>a. e \<noteq> Call a"
  shows "call_trans L e (machine_of c) (machine_of c') (sends os) (settles os)"
proof (cases "err = None \<and> codec c \<noteq> None")
  case True
  then obtain g where g: "c' = set_phase t (Receiving a i ms) c" "os = [RecvEnvelope t g, StartTimer t ms]"
    using assms(1) by (auto simp: send_settled_def)
  show ?thesis
    by (rule Sent [where t = t and a = a and i = i and ms = ms, THEN call_trans_eq])
      (simp_all add: nc g assms(2) machine_of_simps)
next
  case False
  then have "leave_try t (Inl (case err of Some e \<Rightarrow> SendOrRecv e | None \<Rightarrow> NullCodec)) c = (c', os)"
    using assms(1) by (cases err) (simp_all add: send_settled_def)
  from failed_trans [OF this assms(2) _ _ nc] show ?thesis by (simp add: local_failure_def split: option.split)
qed

lemma recv_settled_trans:
  assumes "recv_settled L t r a i c = (c', os)" "map_of (calls c) t = Some (Receiving a i ms)"
  shows "call_trans L (RecvSettled t r) (machine_of c) (machine_of c') (sends os) (settles os)"
proof (cases r)
  case (Inl te)
  then have "leave_try t (Inl (SendOrRecv te)) c = (c', os)"
    using assms(1) by (simp add: recv_settled_def)
  from failed_trans [OF this assms(2)] show ?thesis by (simp add: local_failure_def)
next
  case (Inr response)
  show ?thesis
  proof (cases "call_result L i a response")
    case None
    then have hung: "c' = set_phase t Stuck c" "os = []"
      using assms(1) Inr by (simp_all add: recv_settled_def)
    show ?thesis
      by (rule Hang [where t = t and a = a and i = i and ms = ms, THEN call_trans_eq])
        (simp_all add: hung assms(2) machine_of_simps)
  next
    case (Some result)
    then have left: "leave_try t result c = (c', os)"
      using assms(1) Inr by (simp add: recv_settled_def)
    show ?thesis
      by (rule Answer [where t = t and a = a and i = i and ms = ms and response = response and r = result,
            THEN call_trans_eq])
        (use Inr Some in \<open>simp_all add: leave_try_machine [OF left] assms(2)\<close>)
  qed
qed

lemma poll_trans:
  assumes "poll L cfg t a c = (c', os)" "map_of (calls c) t = Some (Polling a)"
    and nc: "\<forall>a. e \<noteq> Call a"
  shows "call_trans L e (machine_of c) (machine_of c') (sends os) (settles os)"
proof (cases "codec c \<noteq> None")
  case True
  then have "call_go L cfg t a c = (c', os)" using assms(1) by (simp add: poll_def)
  then show ?thesis using assms(2) nc by (rule call_go_trans)
next
  case False
  show ?thesis
  proof (cases "reconnecting c")
    case True
    with False have "c' = c" "os = []" using assms(1) by (simp_all add: poll_def)
    then show ?thesis using nc by (intro Skip [THEN call_trans_eq]) simp_all
  next
    case gone: False
    with False have out: "c' = end_call t c" "os = [Settle t (Inl AttemptsExhausted)]"
      using assms(1) by (simp_all add: poll_def reject_early_def)
    show ?thesis
      by (rule Drop [where t = t and a = a, THEN call_trans_eq])
        (simp_all add: nc out assms(2) machine_of_simps local_failure_def)
  qed
qed

lemma client_refines:
  assumes "client_step L cfg e c = (c', os)" "map_of (calls c) (called c) = None"
  shows "call_trans L e (machine_of c) (machine_of c') (sends os) (settles os)"
proof -
  have skip: ?thesis if "machine_of c' = machine_of c \<and> sends os = [] \<and> settles os = []" "\<forall>a. e \<noteq> Call a"
    by (rule Skip [THEN call_trans_eq]) (simp_all add: that)
  show ?thesis
  proof (cases e)
    case (Call a)
    with assms show ?thesis by (simp add: call_entered)
  next
    case (SendSettled t err)
    show ?thesis
    proof (cases "\<exists>a i ms. map_of (calls c) t = Some (Sending a i ms)")
      case True
      then show ?thesis using assms(1) SendSettled by (auto intro: send_settled_trans)
    next
      case False
      then show ?thesis
        using assms(1) SendSettled by (intro skip) (auto split: option.splits phase.splits)
    qed
  next
    case (RecvSettled t r)
    show ?thesis
    proof (cases "\<exists>a i ms. map_of (calls c) t = Some (Receiving a i ms)")
      case True
      then show ?thesis using assms(1) RecvSettled by (auto intro: recv_settled_trans)
    next
      case False
      then show ?thesis
        using assms(1) RecvSettled by (intro skip) (auto split: option.splits phase.splits)
    qed
  next
    case (TimerFired t)
    show ?thesis
    proof (cases "\<exists>a i ms. map_of (calls c) t = Some (Receiving a i ms)")
      case True
      then show ?thesis using assms(1) TimerFired by (auto intro!: failed_trans simp: local_failure_def)
    next
      case False
      then show ?thesis
        using assms(1) TimerFired by (intro skip) (auto split: option.splits phase.splits)
    qed
  next
    case (PollFired t)
    show ?thesis
    proof (cases "\<exists>a. map_of (calls c) t = Some (Polling a)")
      case True
      then show ?thesis using assms(1) PollFired by (auto intro: poll_trans)
    next
      case False
      then show ?thesis
        using assms(1) PollFired by (intro skip) (auto split: option.splits phase.splits)
    qed
  qed (rule skip, rule other_calls [OF assms(1)], simp, simp)+
qed

subsection \<open>Invariants of the machine\<close>

definition busy_calls :: "(nat \<Rightarrow> 'r phase option) \<Rightarrow> nat set" where
  "busy_calls f = {t. \<exists>p. f t = Some p \<and> in_try p}"

definition machine_ok :: "'r machine \<Rightarrow> bool" where
  "machine_ok m \<longleftrightarrow> (\<forall>t. m_phase m t \<noteq> None \<longrightarrow> t < m_started m) \<and>
     (if m_busy m then \<exists>t. busy_calls (m_phase m) = {t} else busy_calls (m_phase m) = {})"

lemma busy_calls_update:
  "busy_calls (f(t \<mapsto> p)) = (if in_try p then insert t (busy_calls f) else busy_calls f - {t})"
  "busy_calls (f(t := None)) = busy_calls f - {t}"
  by (auto simp: busy_calls_def)

lemma busy_calls_phase: "m_phase m t = Some p \<Longrightarrow> t \<in> busy_calls (m_phase m) \<longleftrightarrow> in_try p"
  by (simp add: busy_calls_def)

lemma started_not_busy: "machine_ok m \<Longrightarrow> busy_calls (m_phase m) - {m_started m} = busy_calls (m_phase m)"
  by (force simp: machine_ok_def busy_calls_def)

lemma machine_ok_trans:
  assumes "call_trans L e m m' ss rs" "machine_ok m"
  shows "machine_ok m'"
  using assms
proof (cases rule: call_trans.cases)
  case (Sent t a i ms)
  with assms(2) busy_calls_phase [OF Sent(5)] show ?thesis
    by (auto simp: machine_ok_def busy_calls_update insert_absorb split: if_splits)
next
  case (Hang t a i ms)
  with assms(2) busy_calls_phase [OF Hang(5)] show ?thesis
    by (auto simp: machine_ok_def busy_calls_update insert_absorb split: if_splits)
next
  case (Fail t p err)
  with assms(2) busy_calls_phase [OF Fail(5)] show ?thesis
    by (auto simp: machine_ok_def busy_calls_update split: if_splits)
next
  case (Answer t a i ms response r)
  with assms(2) busy_calls_phase [OF Answer(4)] show ?thesis
    by (auto simp: machine_ok_def busy_calls_update split: if_splits)
next
  case (Drop t a err)
  with assms(2) busy_calls_phase [OF Drop(5)] show ?thesis
    by (auto simp: machine_ok_def busy_calls_update split: if_splits)
next
  case (Wait a)
  with assms(2) started_not_busy [OF assms(2)] show ?thesis
    by (auto simp: machine_ok_def busy_calls_update less_Suc_eq split: if_splits)
next
  case (Refuse err)
  with assms(2) started_not_busy [OF assms(2)] show ?thesis
    by (auto simp: machine_ok_def busy_calls_update less_Suc_eq split: if_splits)
qed (auto simp: machine_ok_def busy_calls_update less_Suc_eq split: if_splits)

text \<open>Every call started is running or settled, never both, and settled once.\<close>

definition settled_ok :: "(nat \<times> (call_error + 'r)) list \<Rightarrow> 'r machine \<Rightarrow> bool" where
  "settled_ok log m \<longleftrightarrow> distinct (map fst log) \<and> fst ` set log \<inter> dom (m_phase m) = {} \<and>
     fst ` set log \<union> dom (m_phase m) = {..<m_started m}"

lemma settled_ok_trans:
  assumes "call_trans L e m m' ss rs" "settled_ok log m"
  shows "settled_ok (log @ rs) m'"
  using assms
proof (cases rule: call_trans.cases)
  case (Wait a)
  with assms(2) show ?thesis by (auto simp: settled_ok_def lessThan_Suc)
next
  case (Refuse err)
  with assms(2) have "m_started m \<notin> fst ` set log" "m_phase m (m_started m) = None"
    by (auto simp: settled_ok_def)
  with Refuse assms(2) show ?thesis by (auto simp: settled_ok_def lessThan_Suc)
qed (auto simp: settled_ok_def lessThan_Suc)

text \<open>The requests sent: consecutive ids from 1, and one request per call.\<close>

definition id_of_send :: "nat \<Rightarrow> nat" where
  "id_of_send k = min k (2 ^ 53)"

lemma increment_id: "increment (id_of_send k) = id_of_send (Suc k)"
proof (cases "k < 2 ^ 53")
  case True
  then show ?thesis by (simp add: increment_def id_of_send_def to_number_def)
next
  case False
  have "bit_length 9007199254740993 = 54" by (simp add: bit_length.simps)
  with False show ?thesis by (simp add: increment_def id_of_send_def to_number_def Let_def)
qed

definition sent_ok :: "long_ops \<Rightarrow> (nat \<times> envelope) list \<Rightarrow> 'r machine \<Rightarrow> bool" where
  "sent_ok L log m \<longleftrightarrow>
     map (\<lambda>(t, q). get_requestId q) log = map (\<lambda>k. fromNumber L (id_of_send k)) [1..<Suc (length log)] \<and>
     m_next m = id_of_send (Suc (length log)) \<and> distinct (map fst log) \<and>
     (\<forall>(t, q) \<in> set log. t < m_started m \<and> (\<forall>a. m_phase m t \<noteq> Some (Polling a))) \<and>
     (\<forall>t a i ms. m_phase m t = Some (Sending a i ms) \<or> m_phase m t = Some (Receiving a i ms) \<longrightarrow>
        i \<le> 2 ^ 53 \<and> (t, request_envelope L i a) \<in> set log)"

lemma get_request_envelope [simp]: "get_requestId (request_envelope L i a) = fromNumber L i"
  by (simp add: request_envelope_def envelope_gets envelope_new_defs)

lemma id_of_send_le [simp]: "id_of_send k \<le> 9007199254740992"
  by (simp add: id_of_send_def)

lemma upt_one_Suc: "[Suc 0..<Suc (Suc n)] = [Suc 0..<Suc n] @ [Suc n]"
  by simp

text \<open>A step that sends nothing: calls may wait, end, or go on from sending to receiving.\<close>

definition awaits :: "'r phase option \<Rightarrow> ('r call_args \<times> nat) option" where
  "awaits ph = (case ph of Some (Sending a i ms) \<Rightarrow> Some (a, i) | Some (Receiving a i ms) \<Rightarrow> Some (a, i) | _ \<Rightarrow> None)"

lemma awaits_iff: "awaits ph = Some (a, i) \<longleftrightarrow> (\<exists>ms. ph = Some (Sending a i ms) \<or> ph = Some (Receiving a i ms))"
  by (auto simp: awaits_def split: option.splits phase.splits)

lemma sent_ok_alt: "sent_ok L log m \<longleftrightarrow>
     map (\<lambda>(t, q). get_requestId q) log = map (\<lambda>k. fromNumber L (id_of_send k)) [1..<Suc (length log)] \<and>
     m_next m = id_of_send (Suc (length log)) \<and> distinct (map fst log) \<and>
     (\<forall>(t, q) \<in> set log. t < m_started m \<and> (\<forall>a. m_phase m t \<noteq> Some (Polling a))) \<and>
     (\<forall>t a i. awaits (m_phase m t) = Some (a, i) \<longrightarrow> i \<le> 2 ^ 53 \<and> (t, request_envelope L i a) \<in> set log)"
  unfolding sent_ok_def awaits_iff by blast

lemma sent_ok_mono:
  assumes "sent_ok L log m" "m_next m' = m_next m" "m_started m \<le> m_started m'"
    and "\<And>t a. t < m_started m \<Longrightarrow> m_phase m' t = Some (Polling a) \<Longrightarrow> m_phase m t = Some (Polling a)"
    and "\<And>t x. awaits (m_phase m' t) = Some x \<Longrightarrow> awaits (m_phase m t) = Some x"
  shows "sent_ok L log m'"
proof -
  have "t < m_started m' \<and> (\<forall>a. m_phase m' t \<noteq> Some (Polling a))" if "(t, q) \<in> set log" for t q
  proof -
    have "t < m_started m" "\<forall>a. m_phase m t \<noteq> Some (Polling a)"
      using assms(1) that by (auto simp: sent_ok_alt)
    then show ?thesis using assms(3,4) by (meson order_less_le_trans)
  qed
  moreover have "\<forall>t a i. awaits (m_phase m' t) = Some (a, i) \<longrightarrow> i \<le> 2 ^ 53 \<and> (t, request_envelope L i a) \<in> set log"
    using assms(1,5) unfolding sent_ok_alt by blast
  ultimately show ?thesis using assms(1,2) unfolding sent_ok_alt by auto
qed

lemma sent_ok_trans:
  assumes "call_trans L e m m' ss rs" "sent_ok L log m" "machine_ok m"
  shows "sent_ok L (log @ ss) m'"
  using assms(1)
proof (cases rule: call_trans.cases)
  case (Send_new a ms)
  with assms(2) show ?thesis
    by (auto simp: sent_ok_def increment_id upt_one_Suc simp del: upt_Suc)
next
  case (Send t a ms)
  then have t: "t < m_started m" using assms(3) by (auto simp: machine_ok_def)
  have "t \<notin> fst ` set log" using assms(2) Send by (auto simp: sent_ok_def)
  with Send t assms(2) show ?thesis
    by (auto simp: sent_ok_def increment_id upt_one_Suc simp del: upt_Suc split: if_splits)
qed (auto simp: awaits_def intro!: sent_ok_mono [OF assms(2)] split: if_splits)

text \<open>A call keeps its arguments; an answer comes from a response to the call's own request.\<close>

definition call_list :: "'r client_event list \<Rightarrow> 'r call_args list" where
  "call_list es = concat (map (\<lambda>e. case e of Call a \<Rightarrow> [a] | _ \<Rightarrow> []) es)"

lemma call_list_simps [simp]:
  "call_list [] = []" "call_list (xs @ ys) = call_list xs @ call_list ys"
  "call_list [Call a] = [a]" "\<forall>a. e \<noteq> Call a \<Longrightarrow> call_list [e] = []"
  by (auto simp: call_list_def split: client_event.split)

definition args_of :: "'r phase option \<Rightarrow> 'r call_args option" where
  "args_of ph = (case ph of
     Some (Polling a) \<Rightarrow> Some a | Some (Sending a i ms) \<Rightarrow> Some a | Some (Receiving a i ms) \<Rightarrow> Some a
   | _ \<Rightarrow> None)"

lemma args_of_simps [simp]:
  "args_of None = None" "args_of (Some (Polling a)) = Some a" "args_of (Some (Sending a i ms)) = Some a"
  "args_of (Some (Receiving a i ms)) = Some a" "args_of (Some Stuck) = None"
  by (simp_all add: args_of_def)

definition args_ok :: "'r client_event list \<Rightarrow> 'r machine \<Rightarrow> bool" where
  "args_ok es m \<longleftrightarrow> m_started m = length (call_list es) \<and>
     (\<forall>t a. args_of (m_phase m t) = Some a \<longrightarrow> t < length (call_list es) \<and> call_list es ! t = a)"

lemma args_okD:
  "args_ok es m \<Longrightarrow> args_of (m_phase m t) = Some a \<Longrightarrow> t < length (call_list es) \<and> call_list es ! t = a"
  by (simp add: args_ok_def)

lemma args_ok_mono:
  assumes "args_ok es m" "\<forall>a. e \<noteq> Call a" "m_started m' = m_started m"
    and "\<And>t a. args_of (m_phase m' t) = Some a \<Longrightarrow> args_of (m_phase m t) = Some a"
  shows "args_ok (es @ [e]) m'"
  using assms by (simp add: args_ok_def)

lemma args_ok_call:
  assumes "args_ok es m" "m_started m' = Suc (m_started m)"
    and "\<And>t b. args_of (m_phase m' t) = Some b \<Longrightarrow> t = m_started m \<and> b = a \<or> args_of (m_phase m t) = Some b"
  shows "args_ok (es @ [Call a]) m'"
proof -
  have len: "m_started m = length (call_list es)" using assms(1) by (simp add: args_ok_def)
  have "t < length (call_list (es @ [Call a])) \<and> call_list (es @ [Call a]) ! t = b"
    if "args_of (m_phase m' t) = Some b" for t b
    using assms(3) [OF that] args_okD [OF assms(1), of t b] len by (auto simp: nth_append)
  then show ?thesis using assms(2) len by (simp add: args_ok_def)
qed

lemma args_ok_trans:
  assumes "call_trans L e m m' ss rs" "args_ok es m"
  shows "args_ok (es @ [e]) m'"
  using assms(1)
proof (cases rule: call_trans.cases)
  case (Wait a)
  show ?thesis unfolding Wait(4) by (rule args_ok_call [OF assms(2)]) (auto simp: Wait split: if_splits)
next
  case (Refuse a err)
  show ?thesis unfolding Refuse(4) by (rule args_ok_call [OF assms(2)]) (auto simp: Refuse split: if_splits)
next
  case (Send_new a ms)
  show ?thesis unfolding Send_new(4) by (rule args_ok_call [OF assms(2)]) (auto simp: Send_new split: if_splits)
next
  case (Answer t a i ms response r)
  show ?thesis by (rule args_ok_mono [OF assms(2)]) (auto simp: Answer split: if_splits)
qed (auto intro!: args_ok_mono [OF assms(2)] split: if_splits)

definition answer_ok ::
    "long_ops \<Rightarrow> 'r client_event list \<Rightarrow> (nat \<times> envelope) list \<Rightarrow> (nat \<times> (call_error + 'r)) list \<Rightarrow> bool" where
  "answer_ok L es sent log \<longleftrightarrow> (\<forall>t r. (t, r) \<in> set log \<longrightarrow> (\<forall>e. r = Inl e \<longrightarrow> \<not> local_failure e) \<longrightarrow>
     t < length (call_list es) \<and>
     (\<exists>i response. (t, request_envelope L i (call_list es ! t)) \<in> set sent \<and>
        RecvSettled t (Inr response) \<in> set es \<and>
        call_result L i (call_list es ! t) response = Some r))"

lemma answer_okD:
  assumes "answer_ok L es sent log" "(t, r) \<in> set log" "\<And>e. r = Inl e \<Longrightarrow> \<not> local_failure e"
  obtains i response where "t < length (call_list es)" "(t, request_envelope L i (call_list es ! t)) \<in> set sent"
    "RecvSettled t (Inr response) \<in> set es" "call_result L i (call_list es ! t) response = Some r"
proof -
  from assms(3) have "\<forall>e. r = Inl e \<longrightarrow> \<not> local_failure e" by blast
  with assms(1,2) that show ?thesis unfolding answer_ok_def by blast
qed

lemma answer_ok_mono:
  assumes "answer_ok L es sent log"
  shows "answer_ok L (es @ [e]) (sent @ ss) log"
  unfolding answer_ok_def
proof (intro allI impI)
  fix t r assume "(t, r) \<in> set log" "\<forall>e. r = Inl e \<longrightarrow> \<not> local_failure e"
  with assms obtain i response where t: "t < length (call_list es)"
    and r: "(t, request_envelope L i (call_list es ! t)) \<in> set sent"
      "RecvSettled t (Inr response) \<in> set es" "call_result L i (call_list es ! t) response = Some r"
    unfolding answer_ok_def by blast
  have "call_list (es @ [e]) ! t = call_list es ! t" using t by (simp add: nth_append)
  with t r show "t < length (call_list (es @ [e])) \<and>
     (\<exists>i response. (t, request_envelope L i (call_list (es @ [e]) ! t)) \<in> set (sent @ ss) \<and>
        RecvSettled t (Inr response) \<in> set (es @ [e]) \<and>
        call_result L i (call_list (es @ [e]) ! t) response = Some r)"
    by (intro conjI exI [of _ i] exI [of _ response]) simp_all
qed

lemma answer_ok_trans:
  assumes "call_trans L e m m' ss rs" "sent_ok L sent m" "args_ok es m" "answer_ok L es sent log"
  shows "answer_ok L (es @ [e]) (sent @ ss) (log @ rs)"
proof -
  note old = answer_ok_mono [OF assms(4), of e ss]
  from assms(1) show ?thesis
  proof (cases rule: call_trans.cases)
    case (Answer t a i ms response r)
    have "(t, request_envelope L i a) \<in> set sent"
      using assms(2) Answer(4) unfolding sent_ok_def by blast
    moreover have "t < length (call_list es) \<and> call_list es ! t = a"
      using args_okD [OF assms(3), of t a] Answer(4) by simp
    ultimately show ?thesis using old Answer by (auto simp: answer_ok_def nth_append)
  qed (use old in \<open>auto simp: answer_ok_def\<close>)
qed

subsection \<open>Runs of a client\<close>

definition client_log_ok :: "long_ops \<Rightarrow> 'r client_event list \<Rightarrow> 'r client_effect list \<Rightarrow> 'r client \<Rightarrow> bool" where
  "client_log_ok L es os c \<longleftrightarrow> machine_ok (machine_of c) \<and> settled_ok (settles os) (machine_of c) \<and>
     sent_ok L (sends os) (machine_of c) \<and> args_ok es (machine_of c) \<and>
     answer_ok L es (sends os) (settles os)"

lemma client_log_ok_new: "client_log_ok L [] [] new_client"
  by (simp add: client_log_ok_def machine_ok_def settled_ok_def sent_ok_def answer_ok_def busy_calls_def
    new_client_def machine_of_def id_of_send_def lessThan_0 args_ok_def)

lemma client_log_ok_step:
  assumes "client_log_ok L es os c" "client_step L cfg e c = (c', os')"
  shows "client_log_ok L (es @ [e]) (os @ os') c'"
proof -
  have ok: "machine_ok (machine_of c)" using assms(1) by (simp add: client_log_ok_def)
  then have "map_of (calls c) (called c) = None" by (force simp: machine_ok_def)
  note t = client_refines [OF assms(2) this]
  from machine_ok_trans [OF t] settled_ok_trans [OF t] sent_ok_trans [OF t _ ok] args_ok_trans [OF t]
    answer_ok_trans [OF t] assms(1)
  show ?thesis by (simp add: client_log_ok_def)
qed

lemma client_run_ok: "client_log_ok L es (snd (client_run L cfg es)) (fst (client_run L cfg es))"
  using run_steps_log [where P = "client_log_ok L", OF client_log_ok_step client_log_ok_new, where es = es] by simp

subsection \<open>A concrete \<open>Long\<close>\<close>

text \<open>64-bit words with the exact integer as their value, rounded as a number is.\<close>

definition exact_long :: long_ops where
  "exact_long = \<lparr>fromNumber = of_nat, Number = (\<lambda>v. to_number (unat v))\<rparr>"

lemma bit_length_bounds: "0 < n \<Longrightarrow> 2 ^ (bit_length n - 1) \<le> n \<and> n < 2 ^ bit_length n \<and> 0 < bit_length n"
proof (induction n rule: bit_length.induct)
  case (1 n)
  show ?case
  proof (cases "n div 2 = 0")
    case True
    with 1(2) have "n = 1" by linarith
    then show ?thesis by (simp add: bit_length.simps)
  next
    case False
    let ?b = "bit_length (n div 2)"
    have IH: "2 ^ (?b - 1) \<le> n div 2" "n div 2 < 2 ^ ?b" "0 < ?b" using 1 False by auto
    then obtain b where b: "?b = Suc b" by (cases ?b) auto
    have "2 * 2 ^ b \<le> n" "n < 2 * (2 * 2 ^ b)" using IH(1,2) b by simp_all
    with b 1(2) show ?thesis by (simp add: bit_length.simps [of n])
  qed
qed

lemma to_number_large:
  assumes "2 ^ 53 \<le> n"
  shows "2 ^ 53 \<le> to_number n"
proof (cases "n = 2 ^ 53")
  case False
  with assms have n: "2 ^ 53 < n" by simp
  have "\<not> bit_length n \<le> 53"
  proof
    assume "bit_length n \<le> 53"
    then have "(2::nat) ^ bit_length n \<le> 2 ^ 53" by (intro power_increasing) simp_all
    with bit_length_bounds [of n] n show False by simp
  qed
  define k where "k = bit_length n - 54"
  with \<open>\<not> bit_length n \<le> 53\<close> have k: "bit_length n = 54 + k" by linarith
  let ?u = "2 ^ (bit_length n - 53) :: nat"
  have u: "?u = 2 ^ Suc k" using k by simp
  have "2 ^ 53 * 2 ^ k \<le> n" using bit_length_bounds [of n] n k by (simp add: power_add)
  then have "2 ^ 52 * ?u \<le> n" unfolding u by simp
  then have "2 ^ 52 \<le> n div ?u" by (simp add: less_eq_div_iff_mult_less_eq)
  then have q: "2 ^ 52 * ?u \<le> (n div ?u) * ?u" by (intro mult_right_mono) simp_all
  have "2 ^ 53 \<le> 2 ^ 52 * ?u" unfolding u by simp
  also note q
  also have "(n div ?u) * ?u \<le> to_number n" using n by (simp add: to_number_def Let_def)
  finally show ?thesis .
qed (simp add: to_number_def)

interpretation exact: long_numbers exact_long
proof
  show "Number exact_long (fromNumber exact_long n) = n" if "n \<le> 2 ^ 53" for n
  proof -
    have "n < 2 ^ 64" using that by simp
    with that show ?thesis by (simp add: exact_long_def unat_of_nat to_number_def)
  qed
  show "v = fromNumber exact_long n" if "Number exact_long v = n" "n < 2 ^ 53" for v n
  proof -
    have "\<not> 2 ^ 53 \<le> unat v" using to_number_large [of "unat v"] that by (auto simp: exact_long_def)
    then have "unat v = n" using that(1) by (simp add: exact_long_def to_number_def)
    then show ?thesis by (auto simp: exact_long_def)
  qed
qed

subsection \<open>Properties\<close>

lemma sent_unsettled_busy:
  assumes "client_log_ok L es os c"
  shows "{t \<in> fst ` set (sends os). t \<notin> fst ` set (settles os)} \<subseteq> busy_calls (map_of (calls c))"
proof (rule subsetI, elim CollectE conjE imageE)
  fix t x assume x: "x \<in> set (sends os)" "t = fst x" and ns: "t \<notin> fst ` set (settles os)"
  have "(t, snd x) \<in> set (sends os)" using x by simp
  with assms have "t < called c" "\<forall>a. map_of (calls c) t \<noteq> Some (Polling a)"
    by (auto simp: client_log_ok_def sent_ok_def)
  moreover from this(1) ns assms have "t \<in> dom (map_of (calls c))"
    by (auto simp: client_log_ok_def settled_ok_def)
  ultimately obtain p where "map_of (calls c) t = Some p" "in_try p"
    by (metis domD in_try.elims(3))
  then show "t \<in> busy_calls (map_of (calls c))" by (auto simp: busy_calls_def)
qed

text \<open>
  C14. One call at a time: in every run of a client, whatever the order of calls, replies,
  timeouts, disconnections and reconnections, at most one request has been sent whose call is
  not settled, and none when the client is free for a new call.
\<close>

theorem client_one_in_flight:
  "card {t \<in> fst ` set (sends (snd (client_run L cfg es))). t \<notin> fst ` set (settles (snd (client_run L cfg es)))}
     \<le> (if callInFlight (fst (client_run L cfg es)) then 1 else 0)"
proof -
  let ?c = "fst (client_run L cfg es)"
  let ?B = "busy_calls (map_of (calls ?c))"
  note ok = client_run_ok [of L es cfg]
  have B: "card ?B = (if callInFlight ?c then 1 else 0)" "finite ?B"
    using ok by (auto simp: client_log_ok_def machine_ok_def split: if_splits)
  show ?thesis
    unfolding B(1) [symmetric] by (rule card_mono [OF B(2) sent_unsettled_busy [OF ok]])
qed

text \<open>
  C17. Every call settles at most once, and none is lost: the calls ever made are exactly those
  settled, each once, and those still running.
\<close>

theorem client_settles_once:
  "distinct (map fst (settles (snd (client_run L cfg es)))) \<and>
   fst ` set (settles (snd (client_run L cfg es))) \<inter> dom (map_of (calls (fst (client_run L cfg es)))) = {} \<and>
   fst ` set (settles (snd (client_run L cfg es))) \<union> dom (map_of (calls (fst (client_run L cfg es))))
     = {..<length (call_list es)}"
  using client_run_ok [of L es cfg] by (simp add: client_log_ok_def settled_ok_def args_ok_def)

text \<open>
  C19. Request ids: the requests of a client carry the ids 1, 2, 3, in order and never twice,
  across calls, timeouts and reconnections, until the counter reaches \<open>2 ^ 53\<close>, the largest
  number that can still be told from its predecessor; from there every id is \<open>2 ^ 53\<close>. No call
  sends two requests. The counter belongs to the client and not to its connection, and nothing
  resets it, although the protocol documents (\<open>docs/WIRE_PROTOCOL.md\<close>, section 4, and the check list
  of \<open>docs/ADDING_A_LANGUAGE.md\<close>) have ids that start again at 1 on each connection.
\<close>

theorem client_ids_consecutive:
  assumes "long_numbers L"
  shows "map (\<lambda>(t, q). Number L (get_requestId q)) (sends (snd (client_run L cfg es)))
      = map (\<lambda>k. min k (2 ^ 53)) [1..<Suc (length (sends (snd (client_run L cfg es))))] \<and>
    distinct (map fst (sends (snd (client_run L cfg es))))"
proof
  let ?s = "sends (snd (client_run L cfg es))"
  have ok: "sent_ok L ?s (machine_of (fst (client_run L cfg es)))"
    using client_run_ok [of L es cfg] by (simp add: client_log_ok_def)
  then show "distinct (map fst ?s)" by (simp add: sent_ok_def)
  have "map (\<lambda>(t, q). Number L (get_requestId q)) ?s = map (Number L) (map (\<lambda>(t, q). get_requestId q) ?s)"
    by (simp add: split_def comp_def)
  also have "\<dots> = map (\<lambda>k. Number L (fromNumber L (id_of_send k))) [1..<Suc (length ?s)]"
    using ok by (simp add: sent_ok_def comp_def del: upt_Suc)
  also have "\<dots> = map (\<lambda>k. min k (2 ^ 53)) [1..<Suc (length ?s)]"
    using long_numbers.number_exact [OF assms] by (simp add: id_of_send_def del: upt_Suc)
  finally show "map (\<lambda>(t, q). Number L (get_requestId q)) ?s = map (\<lambda>k. min k (2 ^ 53)) [1..<Suc (length ?s)]" .
qed

definition sample_args :: "bytes call_args" where
  "sample_args = \<lparr>serviceName = ''S'', methodName = ''m'', payload = [1], respDecode = (\<lambda>b. Some (Inr b)), options = None\<rparr>"

definition sample_config :: config where
  "sample_config = \<lparr>defaultTimeout = None, reconnectOpts = None, codec_closes = False\<rparr>"

definition sample_response :: envelope where
  "sample_response = no_envelope_properties\<lparr>e_requestId := Some 1, e_payload := Some [7]\<rparr>"

definition sample_events :: "bytes client_event list" where
  "sample_events = [Connect, ConnectDone None, Call sample_args, SendSettled 0 None,
     RecvSettled 0 (Inr sample_response)]"

lemma sample_result: "call_result exact_long 1 sample_args sample_response = Some (Inr [7])"
  by (simp add: call_result_def sample_response_def sample_args_def exact_long_def to_number_def
    envelope_gets no_envelope_properties_def)

lemmas sample_defs = sample_events_def new_client_def sample_config_def client_defs set_phase_def
  end_call_def effective_timeout_def sample_args_def

lemma sample_run:
  "settles (snd (client_run exact_long sample_config sample_events)) = [(0, Inr [7])]"
  "map fst (sends (snd (client_run exact_long sample_config sample_events))) = [0]"
  using sample_result by (simp_all add: sample_defs)

theorem client_ids_consecutive_witness:
  "map (\<lambda>(t, q). Number exact_long (get_requestId q))
     (sends (snd (client_run exact_long sample_config sample_events))) = [1]"
proof -
  have "length (sends (snd (client_run exact_long sample_config sample_events))) = 1"
    using sample_run(2) by (metis length_map length_Cons list.size(3) One_nat_def)
  with client_ids_consecutive [OF exact.long_numbers_axioms, of sample_config sample_events]
  show ?thesis by simp
qed

text \<open>
  C10. A call that succeeds got the answer to its own request: a successful result for a call
  is what the call's decoder makes of the payload of a response that arrived with status OK and
  the id of the request that this call sent, for this call's service, method and payload.
\<close>

theorem client_success_correlated:
  assumes "(t, Inr r) \<in> set (settles (snd (client_run L cfg es)))"
  shows "\<exists>ident response. t < length (call_list es) \<and>
    (t, request_envelope L ident (call_list es ! t)) \<in> set (sends (snd (client_run L cfg es))) \<and>
    RecvSettled t (Inr response) \<in> set es \<and> Number L (get_requestId response) = ident \<and>
    get_status response = OK \<and>
    respDecode (call_list es ! t) (get_payload response) = Some (Inr r)"
proof -
  from client_run_ok [of L es cfg] have "answer_ok L es (sends (snd (client_run L cfg es))) (settles (snd (client_run L cfg es)))"
    by (simp add: client_log_ok_def)
  then obtain ident response where
    "t < length (call_list es)"
    "(t, request_envelope L ident (call_list es ! t)) \<in> set (sends (snd (client_run L cfg es)))"
    "RecvSettled t (Inr response) \<in> set es"
    "call_result L ident (call_list es ! t) response = Some (Inr r)"
    by (rule answer_okD [OF _ assms]) simp
  moreover from this(4) have "Number L (get_requestId response) = ident" "get_status response = OK"
    "respDecode (call_list es ! t) (get_payload response) = Some (Inr r)"
    by (auto simp: call_result_def split: if_splits option.splits sum.splits)
  ultimately show ?thesis by blast
qed

theorem client_success_correlated_witness:
  "\<exists>ident response. RecvSettled 0 (Inr response) \<in> set sample_events \<and>
     Number exact_long (get_requestId response) = ident \<and>
     (0, request_envelope exact_long ident sample_args)
       \<in> set (sends (snd (client_run exact_long sample_config sample_events)))"
proof -
  have "(0, Inr [7]) \<in> set (settles (snd (client_run exact_long sample_config sample_events)))"
    by (simp add: sample_run)
  moreover have "call_list sample_events = [sample_args]"
    by (simp add: call_list_def sample_events_def)
  ultimately show ?thesis
    using client_success_correlated [of 0 "[7]" exact_long sample_config sample_events] by auto
qed

end
