(* ===== verification/Client_Connection.thy ===== *)
theory Client_Connection
  imports Client_Calls
begin

section \<open>Completion of calls, reconnection and disconnection of a client\<close>

text \<open>
  What a waiting call does with each thing it can wait for, the reconnect loop with its
  back-off, and what \<open>disconnect\<close> and stale connections do to the client.
\<close>

subsection \<open>The reconnect loop\<close>

text \<open>At most one loop runs, exactly when \<open>reconnecting\<close> is set; its attempts are in bounds.\<close>

definition retry_ok :: "config \<Rightarrow> 'r client \<Rightarrow> bool" where
  "retry_ok cfg c \<longleftrightarrow> length (retries c) = (if reconnecting c then 1 else 0)"

definition sleeps :: "'r client_effect list \<Rightarrow> nat list" where
  "sleeps os = concat (map (\<lambda>x. case x of Sleep d \<Rightarrow> [d] | _ \<Rightarrow> []) os)"

lemma sleeps_simps [simp]:
  "sleeps [] = []" "sleeps (Sleep d # os) = d # sleeps os" "sleeps (Settle t r # os) = sleeps os"
  "sleeps (SendEnvelope t g m # os) = sleeps os" "sleeps (RecvEnvelope t g # os) = sleeps os"
  "sleeps (StartTimer t ms # os) = sleeps os" "sleeps (OpenSocket # os) = sleeps os"
  "sleeps (ConnectSettled e # os) = sleeps os" "sleeps (CloseCodec g # os) = sleeps os"
  "sleeps (OnDisconnect # os) = sleeps os" "sleeps (OnReconnect # os) = sleeps os"
  "sleeps (xs @ ys) = sleeps xs @ sleeps ys"
  by (simp_all add: sleeps_def)

definition allowed :: "reconnect_options \<Rightarrow> nat \<Rightarrow> bool" where
  "allowed ro n \<longleftrightarrow> (case maxAttempts ro of None \<Rightarrow> True | Some k \<Rightarrow> n < k)"

text \<open>A step leaves the loops alone, or moves the one loop there is.\<close>

definition untouched :: "'r client \<Rightarrow> 'r client \<times> 'r client_effect list \<Rightarrow> bool" where
  "untouched c r \<longleftrightarrow> retries (fst r) = retries c \<and> reconnecting (fst r) = reconnecting c \<and>
     sleeps (snd r) = [] \<and> (\<forall>g. CloseCodec g \<notin> set (snd r))"

lemma untouched_intros [inv_intros]:
  "untouched c (c, [])" "untouched c (set_phase t ph c, [])"
  "untouched c (set_phase t ph c, [RecvEnvelope t g, StartTimer t ms])"
  "untouched c (reject_early t err c)" "untouched c (leave_try t r c)"
  by (simp_all add: untouched_def reject_early_def leave_try_def set_phase_def end_call_def)

lemma untouched_go [inv_intros]: "untouched c (call_go L cfg t a c)"
  using untouched_intros(4) [of c]
  by (simp add: call_go_def Let_def split: option.split) (simp add: untouched_def set_phase_def)

lemma untouched_call: "untouched c (call L cfg a c)"
proof -
  let ?c1 = "c\<lparr>called := Suc (called c), calls := (called c, Polling a) # calls c\<rparr>"
  have "untouched c r" if "untouched ?c1 r" for r using that by (simp add: untouched_def)
  moreover have "untouched ?c1 (?c1, [])" by (rule untouched_intros)
  ultimately show ?thesis using untouched_go [of ?c1 L cfg "called c" a]
    unfolding call_def Let_def by simp
qed

lemma untouched_settled [inv_intros]:
  "untouched c (send_settled t err a i ms c)" "untouched c (recv_settled L t r a i c)"
  "untouched c (poll L cfg t a c)"
  unfolding send_settled_def recv_settled_def poll_def
  by (simp_all add: inv_intros split: option.split sum.split)

lemma call_step_retries:
  assumes "(\<exists>a. e = Call a) \<or> (\<exists>t x. e = SendSettled t x) \<or> (\<exists>t x. e = RecvSettled t x)
      \<or> (\<exists>t. e = TimerFired t) \<or> (\<exists>t. e = PollFired t)"
  shows "untouched c (client_step L cfg e c)"
  using assms by (elim disjE exE)
    (simp_all add: untouched_call inv_intros split: option.split phase.split)

lemma retry_head_ok:
  assumes "retry_head ro 0 n c = (c', os)" "length (retries c) = 1" "reconnecting c"
  shows "retry_ok cfg c' \<and> set (sleeps os) \<subseteq> backoff ro ` {k. allowed ro k} \<and> (\<forall>g. CloseCodec g \<notin> set os)"
  using assms by (auto simp: retry_head_def retry_ok_def allowed_def split: if_splits option.splits)

lemma retry_step:
  assumes "client_step L cfg e c = (c', os)" "retry_ok cfg c"
  shows "retry_ok cfg c' \<and> (case reconnectOpts cfg of None \<Rightarrow> sleeps os = []
       | Some ro \<Rightarrow> set (sleeps os) \<subseteq> backoff ro ` {k. allowed ro k}) \<and>
    (\<not> codec_closes cfg \<longrightarrow> (\<forall>g. CloseCodec g \<notin> set os))"
proof (cases "(\<exists>a. e = Call a) \<or> (\<exists>t x. e = SendSettled t x) \<or> (\<exists>t x. e = RecvSettled t x)
      \<or> (\<exists>t. e = TimerFired t) \<or> (\<exists>t. e = PollFired t)")
  case True
  from call_step_retries [OF this, of c L cfg] assms show ?thesis
    by (simp add: untouched_def retry_ok_def split: option.split)
next
  case False
  then consider "e \<in> {Connect, Disconnect} \<or> (\<exists>x. e = ConnectDone x)" | g where "e = SocketDown g"
    | i where "e = SleepDone i" | i ok where "e = RetryDone i ok"
    by (cases e) auto
  then show ?thesis
  proof cases
    case 1
    with assms show ?thesis
      by (auto simp: client_defs retry_ok_def codecAsCloseable_def split: if_splits option.splits)
  next
    case 2
    show ?thesis
    proof (cases "reconnectOpts cfg")
      case None
      with 2 assms show ?thesis by (auto simp: socket_down_def Let_def retry_ok_def split: if_splits)
    next
      case (Some ro)
      obtain c2 es where s: "scheduleReconnect ro (c\<lparr>codec := None\<rparr>) = (c2, es)" by fastforce
      have "retry_ok cfg c2 \<and> set (sleeps es) \<subseteq> backoff ro ` {k. allowed ro k} \<and> (\<forall>g. CloseCodec g \<notin> set es)"
      proof (cases "reconnecting c")
        case True
        with s assms(2) show ?thesis by (auto simp: scheduleReconnect_def retry_ok_def)
      next
        case False
        with assms(2) have "retries c = []" by (simp add: retry_ok_def)
        with s False have "retry_head ro 0 0
            (c\<lparr>codec := None, reconnecting := True, retries := [Sleeping 0]\<rparr>) = (c2, es)"
          by (simp add: scheduleReconnect_def)
        then show ?thesis by (rule retry_head_ok) simp_all
      qed
      with 2 Some s assms show ?thesis
        by (auto simp: socket_down_def Let_def split: if_splits)
    qed
  next
    case 3
    show ?thesis
    proof (cases "\<exists>ro n. reconnectOpts cfg = Some ro \<and> i < length (retries c) \<and> retries c ! i = Sleeping n")
      case False
      with 3 assms show ?thesis by (auto split: option.splits if_splits retry.splits)
    next
      case True
      then obtain ro n where r: "reconnectOpts cfg = Some ro" "i < length (retries c)" "retries c ! i = Sleeping n"
        by blast
      with assms(2) have i: "i = 0" "length (retries c) = 1" "reconnecting c"
        by (auto simp: retry_ok_def split: if_splits)
      have "sleep_done ro 0 n c = (c', os)" using 3 assms(1) r i(1) by simp
      then show ?thesis
        using i r(1) retry_head_ok [of ro "Suc n" c c' os cfg]
        by (auto simp: sleep_done_def retry_ok_def split: if_splits)
    qed
  next
    case 4
    show ?thesis
    proof (cases "\<exists>ro n. reconnectOpts cfg = Some ro \<and> i < length (retries c) \<and> retries c ! i = Connecting n")
      case False
      with 4 assms show ?thesis by (auto split: option.splits if_splits retry.splits)
    next
      case True
      then obtain ro n where r: "reconnectOpts cfg = Some ro" "i < length (retries c)" "retries c ! i = Connecting n"
        by blast
      with assms(2) have i: "i = 0" "length (retries c) = 1" "reconnecting c"
        by (auto simp: retry_ok_def split: if_splits)
      have "retry_done ro 0 n ok c = (c', os)" using 4 assms(1) r i(1) by simp
      then show ?thesis
        using i r(1) retry_head_ok [of ro "Suc n" c c' os cfg]
        by (auto simp: retry_done_def connected_now_def retry_ok_def split: if_splits)
    qed
  qed
qed

lemma retry_ok_new: "retry_ok cfg new_client"
  by (simp add: retry_ok_def new_client_def)

lemma retry_run:
  assumes "retry_ok cfg c"
  shows "retry_ok cfg (fst (run_steps (client_step L cfg) es c)) \<and>
    (case reconnectOpts cfg of None \<Rightarrow> sleeps (snd (run_steps (client_step L cfg) es c)) = []
       | Some ro \<Rightarrow> set (sleeps (snd (run_steps (client_step L cfg) es c))) \<subseteq> backoff ro ` {k. allowed ro k}) \<and>
    (\<not> codec_closes cfg \<longrightarrow> (\<forall>g. CloseCodec g \<notin> set (snd (run_steps (client_step L cfg) es c))))"
  using assms
proof (induction es arbitrary: c)
  case (Cons e es)
  obtain c1 o1 where c1: "client_step L cfg e c = (c1, o1)" by fastforce
  note step = retry_step [OF c1 Cons.prems]
  from step have "retry_ok cfg c1" by blast
  from Cons.IH [OF this] step c1 show ?case
    by (cases "reconnectOpts cfg") (simp_all add: Let_def split_def)
qed (simp split: option.split)

lemma backoff_le: "backoff ro n \<le> default 10000 (maxDelayMs ro)"
  by (simp add: backoff_def)

text \<open>Attempts that all fail: the loop tries every allowed attempt, then stops.\<close>

definition failed_attempts :: "nat \<Rightarrow> 'r client_event list" where
  "failed_attempts n = concat (replicate n [SleepDone 0, RetryDone 0 False])"

lemma failing_attempts:
  assumes "reconnectOpts cfg = Some ro" "maxAttempts ro = Some n" "k < n"
    and "codec c = None" "retries c = [Sleeping k]" "reconnecting c"
  shows "run_steps (client_step L cfg) (failed_attempts (n - k)) c
    = (c\<lparr>retries := [], reconnecting := False\<rparr>,
       concat (map (\<lambda>i. [OpenSocket, Sleep (backoff ro i)]) [Suc k..<n]) @ [OpenSocket])"
  using assms(3-)
proof (induction "n - k" arbitrary: k c)
  case (Suc j)
  have att: "failed_attempts (n - k) = SleepDone 0 # RetryDone 0 False # failed_attempts (n - Suc k)"
    using Suc.hyps(2) Suc.prems(1) by (simp add: failed_attempts_def flip: Suc.hyps(2)) (metis Suc_diff_Suc Suc_inject Suc.hyps(2))
  show ?case
  proof (cases "Suc k < n")
    case True
    let ?c = "c\<lparr>retries := [Sleeping (Suc k)]\<rparr>"
    have "run_steps (client_step L cfg) (failed_attempts (n - Suc k)) ?c
        = (?c\<lparr>retries := [], reconnecting := False\<rparr>,
           concat (map (\<lambda>i. [OpenSocket, Sleep (backoff ro i)]) [Suc (Suc k)..<n]) @ [OpenSocket])"
      by (rule Suc.hyps(1)) (use True Suc.prems Suc.hyps(2) in simp_all)
    then show ?thesis
      using True Suc.prems assms(1,2) by (simp add: att sleep_done_def retry_done_def retry_head_def upt_conv_Cons)
  next
    case False
    with Suc.prems have "n = Suc k" by simp
    then show ?thesis
      using Suc.prems assms(1,2) by (simp add: att failed_attempts_def sleep_done_def retry_done_def retry_head_def)
  qed
qed simp

subsection \<open>Properties\<close>

text \<open>
  C27. Reconnecting: in every run at most one reconnect loop is active, exactly while
  \<open>reconnecting\<close> is set; every delay it sleeps is the back-off \<open>min(base * 2^n, max)\<close> of an
  attempt \<open>n\<close> below \<open>maxAttempts\<close>, never above the cap; without reconnect options it never sleeps.
\<close>

theorem reconnect_loop_bounded:
  "length (retries (fst (client_run L cfg es))) = (if reconnecting (fst (client_run L cfg es)) then 1 else 0) \<and>
   (case reconnectOpts cfg of
      None \<Rightarrow> sleeps (snd (client_run L cfg es)) = []
    | Some ro \<Rightarrow> set (sleeps (snd (client_run L cfg es))) \<subseteq> {..default 10000 (maxDelayMs ro)} \<inter>
        {min (default 200 (baseDelayMs ro) * 2 ^ n) (default 10000 (maxDelayMs ro)) | n. allowed ro n})"
proof -
  have img: "backoff ro ` {k. allowed ro k} \<subseteq> {..default 10000 (maxDelayMs ro)} \<inter>
        {min (default 200 (baseDelayMs ro) * 2 ^ n) (default 10000 (maxDelayMs ro)) | n. allowed ro n}" for ro
    by (auto simp: backoff_def)
  show ?thesis
  proof (cases "reconnectOpts cfg")
    case (Some ro)
    with retry_run [OF retry_ok_new [of cfg], of L es]
    have "set (sleeps (snd (client_run L cfg es))) \<subseteq> backoff ro ` {k. allowed ro k}" by simp
    from subset_trans [OF this img [of ro]] Some retry_run [OF retry_ok_new [of cfg], of L es]
    show ?thesis by (simp add: retry_ok_def)
  qed (use retry_run [OF retry_ok_new [of cfg], of L es] in \<open>simp add: retry_ok_def\<close>)
qed

text \<open>
  C28. Reconnecting gives up: when the connection is lost and every attempt fails, the client
  sleeps \<open>backoff 0, backoff 1, ...\<close>, tries each of the \<open>maxAttempts\<close> attempts once, and stops
  with \<open>reconnecting\<close> cleared.
\<close>

theorem reconnect_gives_up:
  assumes "reconnectOpts cfg = Some ro" "maxAttempts ro = Some n" "0 < n"
    and "g < connections c" "\<not> reconnecting c" "retries c = []"
  shows "run_steps (client_step L cfg) (SocketDown g # failed_attempts n) c
    = (c\<lparr>codec := None\<rparr>, OnDisconnect # concat (map (\<lambda>i. [Sleep (backoff ro i), OpenSocket]) [0..<n]))"
proof -
  let ?c = "c\<lparr>codec := None, reconnecting := True, retries := [Sleeping 0]\<rparr>"
  have down: "client_step L cfg (SocketDown g) c = (?c, [OnDisconnect, Sleep (backoff ro 0)])"
    using assms by (simp add: socket_down_def Let_def scheduleReconnect_def retry_head_def)
  have run: "run_steps (client_step L cfg) (failed_attempts n) ?c
    = (?c\<lparr>retries := [], reconnecting := False\<rparr>,
       concat (map (\<lambda>i. [OpenSocket, Sleep (backoff ro i)]) [Suc 0..<n]) @ [OpenSocket])"
    using failing_attempts [OF assms(1,2,3), of ?c L] by simp
  have shift: "Sleep (backoff ro a) # concat (map (\<lambda>i. [OpenSocket, Sleep (backoff ro i)]) [Suc a..<a + Suc k]) @ [OpenSocket]
      = concat (map (\<lambda>i. [Sleep (backoff ro i), OpenSocket]) [a..<a + Suc k])" for a k
    by (induction k arbitrary: a) (simp_all add: upt_conv_Cons)
  have end_state: "?c\<lparr>retries := [], reconnecting := False\<rparr> = c\<lparr>codec := None\<rparr>"
    using assms(5,6) by simp
  show ?thesis
    using run_steps_Cons [OF down run] shift [of 0 "n - 1"] assms(3) unfolding end_state by simp
qed

definition sample_reconnect :: config where
  "sample_reconnect = \<lparr>defaultTimeout = None, reconnectOpts = Some \<lparr>maxAttempts = Some 3,
     baseDelayMs = Some 100, maxDelayMs = Some 300\<rparr>, codec_closes = False\<rparr>"

definition sample_connected :: "bytes client" where
  "sample_connected = new_client\<lparr>codec := Some 0, connections := 1\<rparr>"

theorem reconnect_gives_up_witness:
  "run_steps (client_step exact_long sample_reconnect) (SocketDown 0 # failed_attempts 3) sample_connected
    = (sample_connected\<lparr>codec := None\<rparr>,
       [OnDisconnect, Sleep 100, OpenSocket, Sleep 200, OpenSocket, Sleep 300, OpenSocket])"
  using reconnect_gives_up [of sample_reconnect "\<lparr>maxAttempts = Some 3, baseDelayMs = Some 100, maxDelayMs = Some 300\<rparr>"
      3 0 sample_connected exact_long]
  by (simp add: sample_reconnect_def sample_connected_def new_client_def backoff_def upt_rec)

text \<open>
  A waiting call is always released by what it waits for: a reply, a transport error or
  the timer settles it, with the call's result, the error or a timeout error that names the
  configured time, and leaves the client free for the next call. A reply after the timeout
  changes nothing.
\<close>

lemma reply_or_timeout_releases:
  assumes "map_of (calls c) t = Some (Receiving a ident ms)"
    and "call_result L ident a response = Some result"
  shows "client_step L cfg (RecvSettled t (Inr response)) c
        = ((end_call t c)\<lparr>callInFlight := False\<rparr>, [Settle t result]) \<and>
    client_step L cfg (RecvSettled t (Inl te)) c
        = ((end_call t c)\<lparr>callInFlight := False\<rparr>, [Settle t (Inl (SendOrRecv te))]) \<and>
    client_step L cfg (TimerFired t) c
        = ((end_call t c)\<lparr>callInFlight := False\<rparr>, [Settle t (Inl (TimeoutError ms))]) \<and>
    client_step L cfg (RecvSettled t (Inr response)) (fst (client_step L cfg (TimerFired t) c))
        = (fst (client_step L cfg (TimerFired t) c), [])"
  using assms by (simp add: recv_settled_def leave_try_def map_of_end_call)

text \<open>A call whose response arrives in time, whatever the response.\<close>

lemma call_answered:
  assumes "codec c = Some g" "\<not> callInFlight c" "map_of (calls c) (called c) = None"
    and "call_result L (nextRequestId c) a response = Some result"
  shows "run_steps (client_step L cfg) [Call a, SendSettled (called c) None, RecvSettled (called c) (Inr response)] c
    = (c\<lparr>called := Suc (called c), nextRequestId := increment (nextRequestId c)\<rparr>,
       [SendEnvelope (called c) g (request_envelope L (nextRequestId c) a),
        RecvEnvelope (called c) g, StartTimer (called c) (effective_timeout cfg a),
        Settle (called c) result])"
proof -
  have "filter (\<lambda>(t', ph). t' \<noteq> called c) (calls c) = calls c"
    using assms(3) by (intro filter_True) (auto simp: map_of_eq_None_iff image_iff)
  moreover have "map (\<lambda>(t', ph'). if t' = called c then (t', ph) else (t', ph')) (calls c) = calls c" for ph
    using assms(3) by (intro map_idI) (auto simp: map_of_eq_None_iff image_iff)
  ultimately show ?thesis
    using assms(1,2,4) by (simp add: client_defs set_phase_def end_call_def)
qed

text \<open>
  \<open>disconnect\<close> never closes the connection: the codec the client creates, an
  \<open>EnvelopeCodec\<close>, has no \<open>close\<close>, so no run of the client ever closes a codec, and a
  disconnected client drops the codec of an open connection.
\<close>

lemma disconnect_leaves_socket_open:
  assumes "\<not> codec_closes cfg"
  shows "CloseCodec g \<notin> set (snd (client_run L cfg es)) \<and>
    client_step L cfg Disconnect c = (c\<lparr>codec := None\<rparr>, [])"
  using retry_run [OF retry_ok_new [of cfg], of L es] assms
  by (simp add: disconnect_def codecAsCloseable_def)

text \<open>
  C36. A stale connection disconnects a new one: after \<open>disconnect\<close> and \<open>connect\<close>, the close event
  of the first connection, which was left open, clears the codec of the second and makes every
  following call fail, although the second connection is up.
\<close>

theorem stale_close_disconnects:
  assumes "reconnectOpts cfg = None" "codec c = Some g" "g < connections c" "callInFlight c = False"
    and "connecting c = 0"
  shows "\<exists>c'. run_steps (client_step L cfg) [Disconnect, Connect, ConnectDone None, SocketDown g] c
      = (c', (if codec_closes cfg then [CloseCodec g] else []) @ [OpenSocket, ConnectSettled None, OnDisconnect]) \<and>
    connections c' = Suc (connections c) \<and> codec c' = None \<and>
    snd (client_step L cfg (Call a) c') = [Settle (called c) (Inl NotConnected)]"
  using assms by (simp add: client_defs codecAsCloseable_def)

theorem stale_close_disconnects_witness:
  "\<exists>c'. run_steps (client_step exact_long sample_config) [Disconnect, Connect, ConnectDone None, SocketDown 0] sample_connected
      = (c', [OpenSocket, ConnectSettled None, OnDisconnect]) \<and> codec c' = None"
proof -
  have hyps: "reconnectOpts sample_config = None" "codec sample_connected = Some 0"
    "0 < connections sample_connected" "callInFlight sample_connected = False"
    "connecting sample_connected = 0" "\<not> codec_closes sample_config"
    by (simp_all add: sample_config_def sample_connected_def new_client_def)
  from stale_close_disconnects [OF hyps(1-5), of exact_long sample_args] hyps(6) show ?thesis by auto
qed

text \<open>
  C37. A reconnect loop does not notice a manual \<open>connect\<close>: while the client has a codec, every
  attempt of the loop fails with "Already connected" and sleeps again, so without
  \<open>maxAttempts\<close> the loop runs and \<open>reconnecting\<close> stays set for as long as the connection lives.
\<close>

theorem manual_connect_keeps_retrying:
  assumes "reconnectOpts cfg = Some ro" "maxAttempts ro = None" "codec c = Some g"
    and "retries c = [Sleeping n]" "reconnecting c"
  shows "run_steps (client_step L cfg) (replicate k (SleepDone 0)) c
    = (c\<lparr>retries := [Sleeping (n + k)]\<rparr>, map (\<lambda>i. Sleep (backoff ro i)) [Suc n..<Suc (n + k)])"
  using assms(3-)
proof (induction k arbitrary: n c)
  case (Suc k)
  let ?c = "c\<lparr>retries := [Sleeping (Suc n)]\<rparr>"
  have "client_step L cfg (SleepDone 0) c = (?c, [Sleep (backoff ro (Suc n))])"
    using Suc.prems assms(1,2) by (simp add: sleep_done_def retry_head_def)
  from run_steps_Cons [OF this Suc.IH [of ?c "Suc n"]] Suc.prems show ?case
    by (simp add: upt_conv_Cons del: upt_Suc)
qed simp

theorem manual_connect_keeps_retrying_witness:
  "\<exists>c'. run_steps (client_step exact_long (sample_reconnect\<lparr>reconnectOpts := Some \<lparr>maxAttempts = None,
        baseDelayMs = Some 100, maxDelayMs = Some 300\<rparr>\<rparr>)) (replicate 3 (SleepDone 0))
      (sample_connected\<lparr>retries := [Sleeping 0], reconnecting := True\<rparr>) = (c', [Sleep 200, Sleep 300, Sleep 300])
    \<and> reconnecting c'"
  using manual_connect_keeps_retrying [of "sample_reconnect\<lparr>reconnectOpts := Some \<lparr>maxAttempts = None,
        baseDelayMs = Some 100, maxDelayMs = Some 300\<rparr>\<rparr>" "\<lparr>maxAttempts = None,
        baseDelayMs = Some 100, maxDelayMs = Some 300\<rparr>"
      "sample_connected\<lparr>retries := [Sleeping 0], reconnecting := True\<rparr>" 0 0 exact_long 3]
  by (simp add: sample_reconnect_def sample_connected_def backoff_def upt_rec)

end
