(* ===== verification/Server_Lifecycle.thy ===== *)
theory Server_Lifecycle
  imports Prelude
begin

section \<open>Starting and stopping a server (\<open>sdk/js/src/rpc/server.ts\<close>, \<open>sdk/js/src/transport/unix-socket-server.ts\<close>)\<close>

text \<open>
  The classes \<open>UnixSocketServer\<close> and the life cycle of \<open>IBridgerServer\<close>. Every
  \<open>UnixSocketServer\<close> object a server ever created is an entry of \<open>listeners\<close>, and
  \<open>socketServer\<close> refers to one of them, so that a second \<open>start\<close> before the first has settled,
  or during a \<open>stop\<close>, is seen for what it does. Node's \<open>net.Server\<close> appears as events (it is
  listening, it failed, it closed, it accepted a socket) and as effects (bind, close). The
  dispatch loop of a connection is a promise here; \<open>Dispatch_Loop\<close> has the loop itself.
\<close>

subsection \<open>\<open>UnixSocketServer\<close>\<close>

record listener =
  hasServer :: bool    \<comment> \<open>\<open>server !== null\<close>\<close>
  isListening :: bool
  onceError :: bool    \<comment> \<open>the listener of \<open>once('error', reject)\<close> is still there\<close>

datatype server_effect =
    Unlink
  | Bind nat
  | CloseServer nat
  | RunLoop nat
  | CloseConn nat
  | StartSettled "string option"
  | StopSettled
  | Uncaught string

definition new_listener :: listener where
  "new_listener = \<lparr>hasServer = False, isListening = False, onceError = False\<rparr>"

definition listen :: "nat \<Rightarrow> listener \<Rightarrow> listener \<times> server_effect list" where
  "listen i l = (l\<lparr>hasServer := True, onceError := True\<rparr>, [Unlink, Bind i])"

definition listening :: "listener \<Rightarrow> listener" where
  "listening l = l\<lparr>isListening := True\<rparr>"

text \<open>\<open>close\<close>, with whether its promise is resolved at once.\<close>

definition close_listener :: "nat \<Rightarrow> listener \<Rightarrow> listener \<times> server_effect list \<times> bool" where
  "close_listener i l = (l\<lparr>isListening := False\<rparr>,
     if \<not> hasServer l then ([], True) else ([CloseServer i], False))"

text \<open>
  The callback of Node's \<open>close\<close>: \<open>Unlink\<close> is its own \<open>unlinkSync\<close>. That Node removes the path of
  a listener when it closes it is left to Node.
\<close>

definition closed_listener :: "server_effect list" where
  "closed_listener = [Unlink]"

subsection \<open>\<open>IBridgerServer\<close>\<close>

record server =
  running :: bool
  socketServer :: "nat option"
  activeConnections :: "nat list"
  listeners :: "listener list"
  loops :: "nat list"      \<comment> \<open>dispatch loops that have not ended\<close>
  accepted :: nat
  starting :: "nat list"   \<comment> \<open>listeners whose \<open>listen\<close> is awaited\<close>
  stopping :: "nat list"   \<comment> \<open>listeners whose \<open>close\<close> is awaited\<close>

definition new_server :: server where
  "new_server = \<lparr>running = False, socketServer = None, activeConnections = [], listeners = [],
     loops = [], accepted = 0, starting = [], stopping = []\<rparr>"

definition start :: "server \<Rightarrow> server \<times> server_effect list" where
  "start s =
     (if running s then (s, [StartSettled (Some ''Server is already running'')])
      else let i = length (listeners s); (l, es) = listen i new_listener
           in (s\<lparr>socketServer := Some i, listeners := listeners s @ [l], starting := starting s @ [i]\<rparr>, es))"

definition started :: "nat \<Rightarrow> server \<Rightarrow> server \<times> server_effect list" where
  "started i s = (s\<lparr>listeners := (listeners s)[i := listening (listeners s ! i)],
     starting := remove1 i (starting s), running := True\<rparr>, [StartSettled None])"

text \<open>An error of the \<open>net.Server\<close>: the first is given to the promise, a second is not handled.\<close>

definition listen_failed :: "nat \<Rightarrow> string \<Rightarrow> server \<Rightarrow> server \<times> server_effect list" where
  "listen_failed i e s =
     (if \<not> onceError (listeners s ! i) then (s, [Uncaught e])
      else let s1 = s\<lparr>listeners := (listeners s)[i := (listeners s ! i)\<lparr>onceError := False\<rparr>]\<rparr>
           in if i \<in> set (starting s) then (s1\<lparr>starting := remove1 i (starting s)\<rparr>, [StartSettled (Some e)])
              else (s1, []))"

definition stopped :: "server \<Rightarrow> server \<times> server_effect list" where
  "stopped s = (s\<lparr>socketServer := None\<rparr>, [StopSettled])"

definition stop :: "server \<Rightarrow> server \<times> server_effect list" where
  "stop s =
     (if \<not> running s then (s, [StopSettled])
      else let closes = map CloseConn (activeConnections s);
               s1 = s\<lparr>running := False, activeConnections := []\<rparr>
           in case socketServer s of
                None \<Rightarrow> (s1, closes @ [StopSettled])
              | Some i \<Rightarrow> (let (l, es, settled) = close_listener i (listeners s ! i);
                    s2 = s1\<lparr>listeners := (listeners s)[i := l]\<rparr>
                  in if settled then (let (s3, es') = stopped s2 in (s3, closes @ es @ es'))
                     else (s2\<lparr>stopping := stopping s @ [i]\<rparr>, closes @ es)))"

definition server_closed :: "nat \<Rightarrow> server \<Rightarrow> server \<times> server_effect list" where
  "server_closed i s = (let (s1, es) = stopped (s\<lparr>stopping := remove1 i (stopping s)\<rparr>)
     in (s1, closed_listener @ es))"

definition handleConnection :: "server \<Rightarrow> server \<times> server_effect list" where
  "handleConnection s = (let c = accepted s in
     (s\<lparr>accepted := Suc c, activeConnections := activeConnections s @ [c], loops := loops s @ [c]\<rparr>,
      [RunLoop c]))"

definition loop_ended :: "nat \<Rightarrow> server \<Rightarrow> server \<times> server_effect list" where
  "loop_ended c s =
     (s\<lparr>activeConnections := remove1 c (activeConnections s), loops := remove1 c (loops s)\<rparr>, [CloseConn c])"

definition isRunning :: "server \<Rightarrow> bool" where
  "isRunning s = running s"

datatype server_event =
    Start
  | Listening nat
  | ListenFailed nat string
  | Stop
  | ServerClosed nat
  | Accept nat
  | LoopEnded nat

text \<open>
  An event about a promise that is settled already has no effect. Sockets come from a
  \<open>net.Server\<close> that was created; that it accepts none after it closed is not used.
\<close>

fun server_step :: "server_event \<Rightarrow> server \<Rightarrow> server \<times> server_effect list" where
  "server_step Start s = start s"
| "server_step (Listening i) s = (if i \<in> set (starting s) then started i s else (s, []))"
| "server_step (ListenFailed i e) s = (if i < length (listeners s) then listen_failed i e s else (s, []))"
| "server_step Stop s = stop s"
| "server_step (ServerClosed i) s = (if i \<in> set (stopping s) then server_closed i s else (s, []))"
| "server_step (Accept i) s = (if i < length (listeners s) then handleConnection s else (s, []))"
| "server_step (LoopEnded c) s = (if c \<in> set (loops s) then loop_ended c s else (s, []))"

abbreviation server_run :: "server_event list \<Rightarrow> server \<times> server_effect list" where
  "server_run es \<equiv> run_steps server_step es new_server"

lemmas server_defs = start_def started_def listen_failed_def stop_def stopped_def server_closed_def
  handleConnection_def loop_ended_def listen_def listening_def close_listener_def closed_listener_def
  new_listener_def Let_def

subsection \<open>Connections\<close>

definition run_loops :: "server_effect list \<Rightarrow> nat list" where
  "run_loops os = concat (map (\<lambda>e. case e of RunLoop c \<Rightarrow> [c] | _ \<Rightarrow> []) os)"

definition closed_conns :: "server_effect list \<Rightarrow> nat set" where
  "closed_conns os = {c. CloseConn c \<in> set os}"

lemma run_loops_simps [simp]:
  "run_loops [] = []" "run_loops (xs @ ys) = run_loops xs @ run_loops ys"
  "run_loops (e # os) = (case e of RunLoop c \<Rightarrow> c # run_loops os | _ \<Rightarrow> run_loops os)"
  "run_loops (map CloseConn cs) = []"
  by (simp_all add: run_loops_def comp_def split: server_effect.split)

lemma closed_conns_simps [simp]:
  "closed_conns [] = {}" "closed_conns (xs @ ys) = closed_conns xs \<union> closed_conns ys"
  "closed_conns (e # os) = (case e of CloseConn c \<Rightarrow> insert c (closed_conns os) | _ \<Rightarrow> closed_conns os)"
  "closed_conns (map CloseConn cs) = set cs"
  by (auto simp: closed_conns_def split: server_effect.split)

text \<open>The active connections are the accepted ones that were never closed.\<close>

definition conns_ok :: "server_event list \<Rightarrow> server_effect list \<Rightarrow> server \<Rightarrow> bool" where
  "conns_ok es os s \<longleftrightarrow> distinct (activeConnections s) \<and> distinct (loops s) \<and>
     set (activeConnections s) \<subseteq> set (loops s) \<and> set (loops s) \<subseteq> {..<accepted s} \<and>
     closed_conns os = {..<accepted s} - set (activeConnections s) \<and>
     run_loops os = [0..<accepted s]"

lemma conns_ok_step:
  assumes "conns_ok es os s" "server_step e s = (s', os')"
  shows "conns_ok (es @ [e]) (os @ os') s'"
proof (cases e)
  case Stop
  from assms(1) have "set (activeConnections s) \<subseteq> {..<accepted s}" by (auto simp: conns_ok_def)
  with Stop assms show ?thesis
    by (auto simp: conns_ok_def server_defs split: if_splits option.splits)
next
  case (Accept i)
  with assms show ?thesis by (auto simp: conns_ok_def server_defs split: if_splits)
next
  case (LoopEnded c)
  show ?thesis
  proof (cases "c \<in> set (loops s)")
    case True
    with LoopEnded assms(2) have s': "s' = fst (loop_ended c s)" "os' = [CloseConn c]" by (auto simp: loop_ended_def)
    have "c < accepted s" using True assms(1) by (auto simp: conns_ok_def)
    then have "insert c ({..<accepted s} - set (activeConnections s))
        = {..<accepted s} - (set (activeConnections s) - {c})" by auto
    with assms(1) show ?thesis unfolding s' by (auto simp: conns_ok_def loop_ended_def)
  qed (use LoopEnded assms in \<open>auto simp: conns_ok_def\<close>)
qed (use assms in \<open>auto simp: conns_ok_def server_defs split: if_splits\<close>)

lemma conns_ok_run: "conns_ok es (snd (server_run es)) (fst (server_run es))"
proof -
  have "conns_ok [] [] new_server" by (simp add: conns_ok_def new_server_def)
  from run_steps_log [where P = conns_ok, OF conns_ok_step this, where es = es] show ?thesis by simp
qed

subsection \<open>One start or stop at a time\<close>

text \<open>No \<open>start\<close> while another \<open>start\<close> or a \<open>stop\<close> is pending.\<close>

fun one_at_a_time :: "server_event list \<Rightarrow> server \<Rightarrow> bool" where
  "one_at_a_time [] s = True"
| "one_at_a_time (e # es) s =
     ((e = Start \<longrightarrow> starting s = [] \<and> stopping s = []) \<and> one_at_a_time es (fst (server_step e s)))"

definition listening_now :: "server \<Rightarrow> nat set" where
  "listening_now s = {i. i < length (listeners s) \<and> isListening (listeners s ! i)}"

definition lifecycle_ok :: "server \<Rightarrow> bool" where
  "lifecycle_ok s \<longleftrightarrow> (\<forall>l \<in> set (listeners s). hasServer l) \<and>
     listening_now s = (if running s then set_option (socketServer s) else {}) \<and>
     (\<forall>i. socketServer s = Some i \<longrightarrow> i < length (listeners s)) \<and>
     (running s \<longrightarrow> socketServer s \<noteq> None \<and> starting s = [] \<and> stopping s = []) \<and>
     (starting s \<noteq> [] \<longrightarrow> (\<exists>i. starting s = [i] \<and> socketServer s = Some i \<and> stopping s = []))"

lemma lifecycle_ok_step:
  assumes "lifecycle_ok s" "e = Start \<longrightarrow> starting s = [] \<and> stopping s = []"
  shows "lifecycle_ok (fst (server_step e s))"
proof (cases e)
  case Start
  with assms show ?thesis
    by (auto simp: lifecycle_ok_def server_defs listening_now_def nth_append less_Suc_eq split: if_splits)
next
  case (Listening i)
  with assms show ?thesis
    by (auto simp: lifecycle_ok_def server_defs listening_now_def nth_list_update
      dest!: set_update_subset_insert [THEN subsetD] split: if_splits)
next
  case (ListenFailed i m)
  with assms show ?thesis
    by (auto simp: lifecycle_ok_def server_defs listening_now_def nth_list_update
      dest!: set_update_subset_insert [THEN subsetD] split: if_splits)
next
  case Stop
  with assms show ?thesis
    by (auto simp: lifecycle_ok_def server_defs listening_now_def nth_list_update
      dest!: set_update_subset_insert [THEN subsetD] split: if_splits option.splits)
next
  case (ServerClosed i)
  with assms show ?thesis
    by (auto simp: lifecycle_ok_def server_defs listening_now_def)
qed (use assms in \<open>auto simp: lifecycle_ok_def server_defs listening_now_def\<close>)

lemma lifecycle_ok_run:
  "lifecycle_ok s \<Longrightarrow> one_at_a_time es s \<Longrightarrow> lifecycle_ok (fst (run_steps server_step es s))"
  by (induction es arbitrary: s) (simp_all add: lifecycle_ok_step Let_def split_def)

subsection \<open>Properties\<close>

text \<open>
  C23. A server loses no connection: in every run each accepted connection gets one dispatch
  loop, and the connections the server holds as active are exactly the accepted ones it has
  never closed; each of them has a loop still running. So a connection whose loop has ended, or
  that was there when the server stopped, has been closed.
\<close>

theorem server_tracks_connections:
  "run_loops (snd (server_run es)) = [0..<accepted (fst (server_run es))] \<and>
   set (activeConnections (fst (server_run es)))
     = {..<accepted (fst (server_run es))} - closed_conns (snd (server_run es)) \<and>
   set (activeConnections (fst (server_run es))) \<subseteq> set (loops (fst (server_run es)))"
  using conns_ok_run [of es] by (auto simp: conns_ok_def)

text \<open>
  C35. Stopping: when a running server is stopped, whatever happened before, it no longer runs,
  holds no connection, and every connection it ever accepted has been closed.
\<close>

theorem stop_closes_all:
  assumes "running (fst (server_run es))"
  shows "\<not> isRunning (fst (server_run (es @ [Stop]))) \<and>
    activeConnections (fst (server_run (es @ [Stop]))) = [] \<and>
    closed_conns (snd (server_run (es @ [Stop]))) = {..<accepted (fst (server_run es))}"
proof -
  let ?s = "fst (server_run es)"
  have app: "server_run (es @ [Stop])
      = (fst (stop ?s), snd (server_run es) @ snd (stop ?s))"
    by (simp add: run_steps_append Let_def split_def)
  have "\<not> isRunning (fst (stop ?s)) \<and> activeConnections (fst (stop ?s)) = []
      \<and> accepted (fst (stop ?s)) = accepted ?s"
    using assms by (simp add: stop_def stopped_def isRunning_def Let_def split_def split: option.split)
  moreover have "closed_conns (snd (server_run (es @ [Stop])))
      = {..<accepted (fst (server_run (es @ [Stop])))} - set (activeConnections (fst (server_run (es @ [Stop]))))"
    using conns_ok_run [of "es @ [Stop]"] by (simp add: conns_ok_def)
  ultimately show ?thesis unfolding app by simp
qed

theorem stop_closes_all_witness:
  "closed_conns (snd (server_run [Start, Listening 0, Accept 0, Accept 0, LoopEnded 0, Stop])) = {..<2}"
proof -
  have run: "server_run [Start, Listening 0, Accept 0, Accept 0, LoopEnded 0]
    = (\<lparr>running = True, socketServer = Some 0, activeConnections = [1],
        listeners = [\<lparr>hasServer = True, isListening = True, onceError = True\<rparr>],
        loops = [1], accepted = 2, starting = [], stopping = []\<rparr>,
       [Unlink, Bind 0, StartSettled None, RunLoop 0, RunLoop 1, CloseConn 0])"
    by (simp add: server_defs new_server_def)
  from stop_closes_all [of "[Start, Listening 0, Accept 0, Accept 0, LoopEnded 0]"] show ?thesis
    unfolding run by simp
qed

text \<open>
  C25. One listener: when no \<open>start\<close> is made while another \<open>start\<close> or a \<open>stop\<close> is pending, at
  every moment the server that is running listens on exactly the one socket server it refers
  to, and a server that is not running listens on none.
\<close>

theorem running_iff_listening:
  assumes "one_at_a_time es new_server"
  shows "listening_now (fst (server_run es)) =
      (if isRunning (fst (server_run es)) then set_option (socketServer (fst (server_run es))) else {}) \<and>
    (isRunning (fst (server_run es)) \<longrightarrow> socketServer (fst (server_run es)) \<noteq> None)"
proof -
  have "lifecycle_ok new_server" by (simp add: lifecycle_ok_def new_server_def listening_now_def)
  from lifecycle_ok_run [OF this assms] show ?thesis by (simp add: lifecycle_ok_def isRunning_def)
qed

theorem running_iff_listening_witness:
  "listening_now (fst (server_run [Start, Listening 0, Stop, ServerClosed 0, Start, Listening 1])) = {1}"
proof -
  let ?es = "[Start, Listening 0, Stop, ServerClosed 0, Start, Listening 1]"
  have "one_at_a_time ?es new_server" by (simp add: server_defs new_server_def)
  note * = running_iff_listening [OF this]
  have "isRunning (fst (server_run ?es))" "socketServer (fst (server_run ?es)) = Some 1"
    by (simp_all add: server_defs new_server_def isRunning_def)
  with * show ?thesis by simp
qed

text \<open>A server that neither runs nor has a promise of its own pending.\<close>

definition server_idle :: "server \<Rightarrow> bool" where
  "server_idle s \<longleftrightarrow> \<not> running s \<and> starting s = [] \<and> stopping s = [] \<and> activeConnections s = []"

lemma accept_run:
  assumes "i < length (listeners s)"
  shows "run_steps server_step (replicate n (Accept i)) s =
    (s\<lparr>accepted := accepted s + n, activeConnections := activeConnections s @ [accepted s..<accepted s + n],
       loops := loops s @ [accepted s..<accepted s + n]\<rparr>, map RunLoop [accepted s..<accepted s + n])"
  using assms
proof (induction n arbitrary: s)
  case (Suc n)
  then show ?case by (simp add: handleConnection_def Let_def upt_conv_Cons del: upt_Suc)
qed simp

text \<open>
  A full cycle: an idle server that is started, accepts \<open>n\<close> connections and is stopped
  binds its path once, runs a loop for each connection, closes each of them and then the
  listener, removes the socket file, settles both promises, and is idle again, with no listener
  left, ready for the next \<open>start\<close>.
\<close>

lemma start_stop_cycle:
  assumes "server_idle s" "i = length (listeners s)" "a = accepted s"
  shows "\<exists>s'. run_steps server_step ([Start, Listening i] @ replicate n (Accept i) @ [Stop, ServerClosed i]) s
      = (s', [Unlink, Bind i, StartSettled None] @ map RunLoop [a..<a + n] @ map CloseConn [a..<a + n]
           @ [CloseServer i, Unlink, StopSettled]) \<and>
    server_idle s' \<and> socketServer s' = None \<and> listening_now s' = listening_now s"
proof -
  define s1 where "s1 = fst (run_steps server_step [Start, Listening i] s)"
  have s1: "s1 = s\<lparr>socketServer := Some i, running := True, starting := [],
      listeners := listeners s @ [\<lparr>hasServer = True, isListening = True, onceError = True\<rparr>]\<rparr>"
    using assms by (simp add: s1_def server_idle_def server_defs)
  have r1: "run_steps server_step [Start, Listening i] s = (s1, [Unlink, Bind i, StartSettled None])"
    using assms by (simp add: s1 server_idle_def server_defs)
  have r2: "run_steps server_step (replicate n (Accept i)) s1
      = (s1\<lparr>accepted := a + n, activeConnections := [a..<a + n], loops := loops s @ [a..<a + n]\<rparr>,
         map RunLoop [a..<a + n])"
    using accept_run [of i s1 n] assms by (simp add: s1 server_idle_def)
  have r3: "run_steps server_step [Stop, ServerClosed i]
      (s1\<lparr>accepted := a + n, activeConnections := [a..<a + n], loops := loops s @ [a..<a + n]\<rparr>)
    = (s1\<lparr>accepted := a + n, activeConnections := [], loops := loops s @ [a..<a + n], running := False,
         listeners := listeners s @ [\<lparr>hasServer = True, isListening = False, onceError = True\<rparr>],
         socketServer := None, stopping := []\<rparr>,
       map CloseConn [a..<a + n] @ [CloseServer i, Unlink, StopSettled])"
    using assms by (simp add: s1 server_idle_def server_defs)
  show ?thesis
    unfolding run_steps_append r1 r2 r3 Let_def split_def fst_conv snd_conv append_assoc
    using assms by (auto simp: s1 server_idle_def listening_now_def nth_append less_Suc_eq)
qed

text \<open>
  C39. Overlapping starts leak a listener: the guard of \<open>start\<close> reads a flag that is set only
  after the \<open>await\<close>, so two starts in a row both bind; the first listener is then no longer
  referred to, keeps listening after \<open>stop\<close>, and further stops do nothing.
\<close>

theorem overlapping_starts_leak:
  assumes "server_idle s" "i = length (listeners s)"
  shows "\<exists>s'. run_steps server_step [Start, Start, Listening i, Listening (Suc i), Stop, ServerClosed (Suc i)] s
      = (s', [Unlink, Bind i, Unlink, Bind (Suc i), StartSettled None, StartSettled None,
           CloseServer (Suc i), Unlink, StopSettled]) \<and>
    server_idle s' \<and> i \<in> listening_now s' \<and> server_step Stop s' = (s', [StopSettled])"
  using assms by (simp add: server_idle_def server_defs listening_now_def nth_append)

theorem overlapping_starts_leak_witness:
  "\<exists>s'. server_run [Start, Start, Listening 0, Listening 1, Stop, ServerClosed 1]
      = (s', [Unlink, Bind 0, Unlink, Bind 1, StartSettled None, StartSettled None,
           CloseServer 1, Unlink, StopSettled]) \<and> 0 \<in> listening_now s'"
  using overlapping_starts_leak [of new_server 0] by (auto simp: server_idle_def new_server_def)

text \<open>
  C40. A start during a stop loses the new listener: when the old listener's close completes,
  the continuation of \<open>stop\<close> clears \<open>socketServer\<close>, which by then refers to the new listener,
  and removes the socket file the new listener has bound; the server runs, but stopping it
  does not close its listener.
\<close>

theorem start_during_stop_loses_listener:
  assumes "running s" "socketServer s = Some j" "j < length (listeners s)" "hasServer (listeners s ! j)"
    and "starting s = []" "stopping s = []" "activeConnections s = []" "i = length (listeners s)"
  shows "\<exists>s'. run_steps server_step [Stop, Start, ServerClosed j, Listening i] s
      = (s', [CloseServer j, Unlink, Bind i, Unlink, StopSettled, StartSettled None]) \<and>
    running s' \<and> socketServer s' = None \<and> i \<in> listening_now s' \<and>
    snd (server_step Stop s') = [StopSettled] \<and> i \<in> listening_now (fst (server_step Stop s'))"
  using assms by (simp add: server_defs listening_now_def nth_append)

theorem start_during_stop_loses_listener_witness:
  "\<exists>s'. run_steps server_step [Stop, Start, ServerClosed 0, Listening 1] (fst (server_run [Start, Listening 0]))
      = (s', [CloseServer 0, Unlink, Bind 1, Unlink, StopSettled, StartSettled None]) \<and>
    running s' \<and> socketServer s' = None"
proof -
  let ?s = "fst (server_run [Start, Listening 0])"
  have s: "?s = \<lparr>running = True, socketServer = Some 0, activeConnections = [],
        listeners = [\<lparr>hasServer = True, isListening = True, onceError = True\<rparr>],
        loops = [], accepted = 0, starting = [], stopping = []\<rparr>"
    by (simp add: server_defs new_server_def)
  have "running ?s" "socketServer ?s = Some 0" "0 < length (listeners ?s)" "hasServer (listeners ?s ! 0)"
    "starting ?s = []" "stopping ?s = []" "activeConnections ?s = []" "1 = length (listeners ?s)"
    unfolding s by simp_all
  from start_during_stop_loses_listener [OF this] show ?thesis by blast
qed

end
