(* ===== verification/Client_Callbacks.thy ===== *)
theory Client_Callbacks
  imports Client_Connection
begin

section \<open>Callbacks that throw (\<open>sdk/js/src/rpc/client.ts\<close>)\<close>

text \<open>
  The owner's callbacks \<open>onDisconnect\<close> and \<open>onReconnect\<close> may throw. \<open>onReconnect\<close> is called inside
  the \<open>try\<close> of the reconnect loop, so the loop takes its exception for a failed attempt;
  \<open>onDisconnect\<close> is called in the handler of the connection before \<open>scheduleReconnect\<close>, so its
  exception leaves the handler (and, uncaught, ends the process unless the owner handles
  \<open>uncaughtException\<close>). An event comes with whether the callback that it runs throws. Lemmas:
  calls are not affected; but the reconnect loops are.
\<close>

definition retry_connected ::
    "reconnect_options \<Rightarrow> nat \<Rightarrow> nat \<Rightarrow> bool \<Rightarrow> 'r client \<Rightarrow> 'r client \<times> 'r client_effect list" where
  "retry_connected ro i attempt throws c =
     (if throws
      then let (c1, es) = retry_head ro i (Suc attempt) ((connected_now c)\<lparr>reconnecting := False\<rparr>)
           in (c1, OnReconnect # es)
      else retry_done ro i attempt True c)"

definition socket_lost :: "config \<Rightarrow> bool \<Rightarrow> 'r client \<Rightarrow> 'r client \<times> 'r client_effect list" where
  "socket_lost cfg throws c = (if throws then (c\<lparr>codec := None\<rparr>, [OnDisconnect]) else socket_down cfg c)"

definition callback_step ::
    "long_ops \<Rightarrow> config \<Rightarrow> bool \<times> 'r client_event \<Rightarrow> 'r client \<Rightarrow> 'r client \<times> 'r client_effect list" where
  "callback_step L cfg te c = (case te of
     (True, SocketDown g) \<Rightarrow> if g < connections c then socket_lost cfg True c else (c, [])
   | (True, RetryDone i True) \<Rightarrow> (case reconnectOpts cfg of
         None \<Rightarrow> (c, [])
       | Some ro \<Rightarrow>
           if i < length (retries c)
           then (case (retries c) ! i of Connecting n \<Rightarrow> retry_connected ro i n True c | Sleeping n \<Rightarrow> (c, []))
           else (c, []))
   | (_, e) \<Rightarrow> client_step L cfg e c)"

text \<open>The client of \<open>Client\<close> is the one whose callbacks return.\<close>

lemma callback_returns: "callback_step L cfg (False, e) c = client_step L cfg e c"
  by (simp add: callback_step_def)

lemma callback_returns_parts:
  "retry_connected ro i n False c = retry_done ro i n True c" "socket_lost cfg False c = socket_down cfg c"
  by (simp_all add: retry_connected_def socket_lost_def)

text \<open>A callback that throws does nothing to a call, so all that is shown of calls still holds.\<close>

lemma callback_calls:
  assumes "callback_step L cfg (True, e) c = (c', os)"
  shows "callback_step L cfg (True, e) c = client_step L cfg e c \<or>
    machine_of c' = machine_of c \<and> sends os = [] \<and> settles os = [] \<and> (\<forall>a. e \<noteq> Call a)"
proof -
  have head: "machine_of (fst (retry_head ro i n c1)) = machine_of c1 \<and> sends (snd (retry_head ro i n c1)) = [] \<and>
      settles (snd (retry_head ro i n c1)) = []" for ro i n and c1 :: "'a client"
    using retry_head_calls [of ro i n c1] by (cases "retry_head ro i n c1") simp
  show ?thesis
  proof (cases e)
    case (SocketDown g)
    with assms show ?thesis by (auto simp: callback_step_def socket_lost_def split: if_splits)
  next
    case (RetryDone i ok)
    with assms head show ?thesis
      by (cases ok) (auto simp: callback_step_def retry_connected_def connected_now_def Let_def split_def
        split: option.splits if_splits retry.splits)
  qed (simp_all add: callback_step_def)
qed

lemma callback_log_ok:
  "client_log_ok L (map snd es) (snd (run_steps (callback_step L cfg) es new_client)) (fst (run_steps (callback_step L cfg) es new_client))"
proof -
  have step: "client_log_ok L (map snd (es @ [e])) (os @ os') c'"
    if "client_log_ok L (map snd es) os c" "callback_step L cfg e c = (c', os')" for es os e os' and c c' :: "'a client"
  proof -
    obtain throws ev where e: "e = (throws, ev)" by fastforce
    from callback_calls [of L cfg ev c c' os'] that(2) e callback_returns [of L cfg ev c]
    consider "client_step L cfg ev c = (c', os')"
      | "machine_of c' = machine_of c" "sends os' = []" "settles os' = []" "\<forall>a. ev \<noteq> Call a"
      by (cases throws) auto
    then show ?thesis
    proof cases
      case 1
      from client_log_ok_step [OF that(1) 1] e show ?thesis by simp
    next
      case 2
      have t: "call_trans L ev (machine_of c) (machine_of c') (sends os') (settles os')"
        by (rule Skip [THEN call_trans_eq]) (simp_all add: 2)
      have ok: "machine_ok (machine_of c)" using that(1) by (simp add: client_log_ok_def)
      from machine_ok_trans [OF t] settled_ok_trans [OF t] sent_ok_trans [OF t _ ok] args_ok_trans [OF t]
        answer_ok_trans [OF t] that(1) e
      show ?thesis by (simp add: client_log_ok_def)
    qed
  qed
  have "client_log_ok L (map snd ([] @ es)) ([] @ snd (run_steps (callback_step L cfg) es new_client))
      (fst (run_steps (callback_step L cfg) es new_client))"
    by (rule run_steps_log [where P = "\<lambda>es. client_log_ok L (map snd es)"]) (rule step, simp_all add: client_log_ok_new)
  then show ?thesis by simp
qed

subsection \<open>Properties\<close>

text \<open>
  C34. A throwing \<open>onReconnect\<close> breaks the reconnect loop: the client is connected and not
  \<open>reconnecting\<close>, but the loop takes the exception for a failed attempt and goes on; when the
  connection is lost again, a second loop is started beside it. A throwing \<open>onDisconnect\<close> leaves
  the client without connection and without any loop.
\<close>

theorem throwing_callback_breaks_reconnect:
  assumes "reconnectOpts cfg = Some ro" "maxAttempts ro = None" "retries c = [Connecting n]" "reconnecting c"
  shows "callback_step L cfg (True, RetryDone 0 True) c
      = (c\<lparr>codec := Some (connections c), connections := Suc (connections c), reconnecting := False,
           retries := [Sleeping (Suc n)]\<rparr>, [OnReconnect, Sleep (backoff ro (Suc n))]) \<and>
    run_steps (callback_step L cfg) [(True, RetryDone 0 True), (False, SocketDown (connections c))] c
      = (c\<lparr>codec := None, connections := Suc (connections c), reconnecting := True,
           retries := [Sleeping (Suc n), Sleeping 0]\<rparr>,
         [OnReconnect, Sleep (backoff ro (Suc n)), OnDisconnect, Sleep (backoff ro 0)]) \<and>
    run_steps (callback_step L cfg) [(False, RetryDone 0 True), (True, SocketDown (connections c))] c
      = (c\<lparr>codec := None, connections := Suc (connections c), reconnecting := False, retries := []\<rparr>,
         [OnReconnect, OnDisconnect])"
  using assms by (simp add: callback_step_def retry_connected_def socket_lost_def retry_done_def retry_head_def connected_now_def
    socket_down_def scheduleReconnect_def)

theorem throwing_callback_breaks_reconnect_witness:
  "\<exists>c. run_steps (callback_step exact_long (sample_reconnect\<lparr>reconnectOpts := Some \<lparr>maxAttempts = None,
        baseDelayMs = Some 100, maxDelayMs = Some 300\<rparr>\<rparr>)) [(True, RetryDone 0 True), (False, SocketDown 1)]
      (sample_connected\<lparr>codec := None, retries := [Connecting 0], reconnecting := True\<rparr>) =
      (c, [OnReconnect, Sleep 200, OnDisconnect, Sleep 100]) \<and> length (retries c) = 2"
proof -
  let ?ro = "\<lparr>maxAttempts = None, baseDelayMs = Some 100, maxDelayMs = Some 300\<rparr>"
  let ?c = "sample_connected\<lparr>codec := None, retries := [Connecting 0], reconnecting := True\<rparr>"
  have "connections ?c = 1" "backoff ?ro (Suc 0) = 200" "backoff ?ro 0 = 100"
    by (simp_all add: sample_connected_def backoff_def)
  then show ?thesis
    using throwing_callback_breaks_reconnect [of "sample_reconnect\<lparr>reconnectOpts := Some ?ro\<rparr>" ?ro ?c 0 exact_long,
        THEN conjunct2, THEN conjunct1]
    by (simp del: run_steps.simps)
qed

end
