(* ===== verification/Live_Client.thy ===== *)
theory Live_Client
  imports Client_Calls
begin

section \<open>The whole client (\<open>sdk/js/src/rpc/client.ts\<close>): calls, codec, framing and sockets together\<close>

text \<open>
  \<open>IBridgerClient\<close> over real connections: the client of \<open>Client\<close> and, for each connection it
  opened, the \<open>EnvelopeCodec\<close>, \<open>FramedConnection\<close> and \<open>UnixSocketConnection\<close> under it. What the
  client asks of its codec is carried out on the connection; what a connection settles continues
  the call that awaits it. A call that timed out leaves its \<open>recvFrame\<close> behind, so a connection
  may have several readers; a promise is named by the number of its call. Lemmas: the client goes
  through a run of its own, so its properties carry over; what it writes on a connection are the
  frames of its requests; and while no call times out, what its calls receive are the frames
  that arrived.
\<close>

subsection \<open>State\<close>

record link =
  lk_conn :: logged_conn
  lk_readers :: "(nat \<times> recv_point) list"   \<comment> \<open>calls inside \<open>recvFrame\<close>\<close>
  lk_writers :: "(nat \<times> send_point) list"   \<comment> \<open>calls inside \<open>sendFrame\<close>\<close>

definition new_link :: link where
  "new_link = \<lparr>lk_conn = (new_connection\<lparr>onDisconnect := True\<rparr>, []), lk_readers = [], lk_writers = []\<rparr>"

record 'r live_client =
  lc_client :: "'r client"
  lc_links :: "link list"   \<comment> \<open>by the number of the connection\<close>

definition new_live_client :: "'r live_client" where
  "new_live_client = \<lparr>lc_client = new_client, lc_links = []\<rparr>"

definition on_link :: "nat \<Rightarrow> (link \<Rightarrow> link) \<Rightarrow> 'r live_client \<Rightarrow> 'r live_client" where
  "on_link g f s = s\<lparr>lc_links := (lc_links s)[g := f (lc_links s ! g)]\<rparr>"

abbreviation link_conn :: "nat \<Rightarrow> 'r live_client \<Rightarrow> logged_conn" where
  "link_conn g s \<equiv> lk_conn (lc_links s ! g)"

datatype 'r live_client_event =
    Own "'r client_event"                 \<comment> \<open>calls, connecting, disconnecting, timers\<close>
  | Incoming nat bytes                    \<comment> \<open>\<open>data\<close> on a connection\<close>
  | LinkClosed nat
  | LinkErrored nat errno_exception
  | Wrote nat nat "errno_exception option" \<comment> \<open>the callback of a \<open>write\<close>: connection, call\<close>

text \<open>The notes of what arrived and of the frames received are for the properties.\<close>

datatype 'r live_client_effect =
    Did "'r client_effect"
  | Arrived nat bytes                     \<comment> \<open>connection, chunk\<close>
  | Framed nat nat bytes                  \<comment> \<open>connection, call, frame\<close>

subsection \<open>Operations\<close>

text \<open>\<open>EnvelopeCodec\<close> has no \<open>close\<close>.\<close>

definition over_codec :: "config \<Rightarrow> config" where
  "over_codec cfg = cfg\<lparr>codec_closes := False\<rparr>"

text \<open>A step of the client that asks nothing of a connection.\<close>

definition client_alone ::
    "long_ops \<Rightarrow> config \<Rightarrow> 'r client_event \<Rightarrow> 'r live_client \<Rightarrow> 'r live_client \<times> 'r live_client_effect list" where
  "client_alone L cfg e s =
     (let (c, es) = client_step L (over_codec cfg) e (lc_client s) in (s\<lparr>lc_client := c\<rparr>, map Did es))"

text \<open>
  \<open>codec.recv()\<close> of a call when its \<open>recvFrame\<close> returns, throws or waits; a decoder that does not
  return would leave the call where it is.
\<close>

definition received ::
    "long_ops \<Rightarrow> config \<Rightarrow> reader_ops \<Rightarrow> nat \<Rightarrow> nat \<Rightarrow> logged_conn \<times> recv_outcome \<Rightarrow> 'r live_client
       \<Rightarrow> 'r live_client \<times> 'r live_client_effect list" where
  "received L cfg R t g r s =
     (let (c, out) = codec_received R r;
          s1 = on_link g (\<lambda>l. l\<lparr>lk_conn := c\<rparr>) s;
          notes = (case snd r of Got f \<Rightarrow> [Framed g t f] | _ \<Rightarrow> [])
      in case out of
           CBlocked k \<Rightarrow> (on_link g (\<lambda>l. l\<lparr>lk_readers := lk_readers l @ [(t, k)]\<rparr>) s1, notes)
         | CGot m \<Rightarrow> (let (s2, os) = client_alone L cfg (RecvSettled t (Inr m)) s1 in (s2, notes @ os))
         | CThrew e \<Rightarrow> (let (s2, os) = client_alone L cfg (RecvSettled t (Inl e)) s1 in (s2, notes @ os))
         | CLoops \<Rightarrow> (s1, notes))"

text \<open>What the client asks of the codec of a connection.\<close>

definition carry_out ::
    "long_ops \<Rightarrow> config \<Rightarrow> 'w writer_ops \<Rightarrow> reader_ops \<Rightarrow> 'r client_effect \<Rightarrow> 'r live_client
       \<Rightarrow> 'r live_client \<times> 'r live_client_effect list" where
  "carry_out L cfg W R e s = (case e of
     SendEnvelope t g m \<Rightarrow>
       (let (c, out) = codec_send W (token_iconnection t) m (link_conn g s);
            s1 = on_link g (\<lambda>l. l\<lparr>lk_conn := c\<rparr>) s
        in case out of
             SBlocked k \<Rightarrow> (on_link g (\<lambda>l. l\<lparr>lk_writers := lk_writers l @ [(t, k)]\<rparr>) s1, [])
           | SThrew err \<Rightarrow> client_alone L cfg (SendSettled t (Some err)) s1
           | SDone \<Rightarrow> (s1, []))   \<comment> \<open>not an outcome of the first part of \<open>sendFrame\<close>\<close>
   | RecvEnvelope t g \<Rightarrow> received L cfg R t g (recvFrame (token_iconnection t) (link_conn g s)) s
   | _ \<Rightarrow> (s, []))"

text \<open>A step of the client; a connection that it opened gets its codec.\<close>

definition advance ::
    "long_ops \<Rightarrow> config \<Rightarrow> 'w writer_ops \<Rightarrow> reader_ops \<Rightarrow> 'r client_event \<Rightarrow> 'r live_client
       \<Rightarrow> 'r live_client \<times> 'r live_client_effect list" where
  "advance L cfg W R e s =
     (let (c, es) = client_step L (over_codec cfg) e (lc_client s);
          opened = replicate (connections c - connections (lc_client s)) new_link;
          (s1, os) = run_steps (carry_out L cfg W R) es (s\<lparr>lc_client := c, lc_links := lc_links s @ opened\<rparr>)
      in (s1, map Did es @ os))"

text \<open>A call inside \<open>recvFrame\<close> goes on when its \<open>recv\<close> promise settles.\<close>

definition resume_reader ::
    "long_ops \<Rightarrow> config \<Rightarrow> reader_ops \<Rightarrow> nat \<Rightarrow> nat \<Rightarrow> transport_error + bytes \<Rightarrow> 'r live_client
       \<Rightarrow> 'r live_client \<times> 'r live_client_effect list" where
  "resume_reader L cfg R g t r s = (case map_of (lk_readers (lc_links s ! g)) t of
     None \<Rightarrow> (s, [])
   | Some k \<Rightarrow> received L cfg R t g (recvFrame_resume (token_iconnection t) k r (link_conn g s))
       (on_link g (\<lambda>l. l\<lparr>lk_readers := filter (\<lambda>(t', k). t' \<noteq> t) (lk_readers l)\<rparr>) s))"

definition resume ::
    "long_ops \<Rightarrow> config \<Rightarrow> 'w writer_ops \<Rightarrow> reader_ops \<Rightarrow> nat \<Rightarrow> effect \<Rightarrow> 'r live_client
       \<Rightarrow> 'r live_client \<times> 'r live_client_effect list" where
  "resume L cfg W R g e s = (case e of
     Resolve t bs \<Rightarrow> resume_reader L cfg R g t (Inr bs) s
   | Reject t err \<Rightarrow> resume_reader L cfg R g t (Inl err) s
   | CallOnDisconnect \<Rightarrow> advance L cfg W R (SocketDown g) s
   | _ \<Rightarrow> (s, []))"

text \<open>
  A handler of the socket runs to its end, with \<open>onDisconnect\<close> called from it; who awaits the
  promises it settled goes on afterwards, in their order.
\<close>

definition by_turn :: "effect list \<Rightarrow> effect list" where
  "by_turn es = filter (\<lambda>e. e = CallOnDisconnect) es @ filter (\<lambda>e. e \<noteq> CallOnDisconnect) es"

definition socket_event ::
    "long_ops \<Rightarrow> config \<Rightarrow> 'w writer_ops \<Rightarrow> reader_ops \<Rightarrow> nat \<Rightarrow> (unix_conn \<Rightarrow> unix_conn \<times> effect list)
       \<Rightarrow> 'r live_client \<Rightarrow> 'r live_client \<times> 'r live_client_effect list" where
  "socket_event L cfg W R g f s =
     (if g < length (lc_links s)
      then let (c, es) = f (fst (link_conn g s))
           in run_steps (resume L cfg W R g) (by_turn es)
                (on_link g (\<lambda>l. l\<lparr>lk_conn := (c, snd (lk_conn l) @ es)\<rparr>) s)
      else (s, []))"

text \<open>The callback of a \<open>write\<close> continues the \<open>sendFrame\<close> of the call.\<close>

definition wrote ::
    "long_ops \<Rightarrow> config \<Rightarrow> 'w writer_ops \<Rightarrow> reader_ops \<Rightarrow> nat \<Rightarrow> nat \<Rightarrow> send_point \<Rightarrow> errno_exception option
       \<Rightarrow> 'r live_client \<Rightarrow> 'r live_client \<times> 'r live_client_effect list" where
  "wrote L cfg W R g t k err s =
     (let (c, out) = codec_send_resume (token_iconnection t) k (map_option wrap_errno err) (link_conn g s);
          s1 = on_link g (\<lambda>l. l\<lparr>lk_conn := c, lk_writers := filter (\<lambda>(t', k). t' \<noteq> t) (lk_writers l)\<rparr>) s
      in case out of
           SBlocked k' \<Rightarrow> (on_link g (\<lambda>l. l\<lparr>lk_writers := lk_writers l @ [(t, k')]\<rparr>) s1, [])
         | SDone \<Rightarrow> advance L cfg W R (SendSettled t None) s1
         | SThrew e \<Rightarrow> advance L cfg W R (SendSettled t (Some e)) s1)"

text \<open>What the connections of the model decide does not come from outside.\<close>

definition from_link :: "'r client_event \<Rightarrow> bool" where
  "from_link e \<longleftrightarrow> (case e of SendSettled t r \<Rightarrow> True | RecvSettled t r \<Rightarrow> True | SocketDown g \<Rightarrow> True | _ \<Rightarrow> False)"

fun live_client_step ::
    "long_ops \<Rightarrow> config \<Rightarrow> 'w writer_ops \<Rightarrow> reader_ops \<Rightarrow> 'r live_client_event \<Rightarrow> 'r live_client
       \<Rightarrow> 'r live_client \<times> 'r live_client_effect list" where
  "live_client_step L cfg W R (Own e) s = (if from_link e then (s, []) else advance L cfg W R e s)"
| "live_client_step L cfg W R (Incoming g d) s =
     (if g < length (lc_links s)
      then let (s1, os) = socket_event L cfg W R g (on_data d) s in (s1, Arrived g d # os)
      else (s, []))"
| "live_client_step L cfg W R (LinkClosed g) s = socket_event L cfg W R g on_close s"
| "live_client_step L cfg W R (LinkErrored g err) s = socket_event L cfg W R g (on_error err) s"
| "live_client_step L cfg W R (Wrote g t err) s =
     (case (if g < length (lc_links s) then map_of (lk_writers (lc_links s ! g)) t else None) of
        None \<Rightarrow> (s, []) | Some k \<Rightarrow> wrote L cfg W R g t k err s)"

abbreviation live_client_run ::
    "long_ops \<Rightarrow> config \<Rightarrow> 'w writer_ops \<Rightarrow> reader_ops \<Rightarrow> 'r live_client_event list
       \<Rightarrow> 'r live_client \<times> 'r live_client_effect list" where
  "live_client_run L cfg W R es \<equiv> run_steps (live_client_step L cfg W R) es new_live_client"

lemmas live_client_defs = client_alone_def received_def carry_out_def advance_def resume_reader_def resume_def
  socket_event_def wrote_def Let_def

subsection \<open>What a run shows\<close>

definition did :: "'r live_client_effect list \<Rightarrow> 'r client_effect list" where
  "did os = concat (map (\<lambda>e. case e of Did a \<Rightarrow> [a] | _ \<Rightarrow> []) os)"

definition link_data :: "nat \<Rightarrow> 'r live_client_effect list \<Rightarrow> bytes" where
  "link_data g os = concat (map (\<lambda>e. case e of Arrived g' d \<Rightarrow> if g' = g then d else [] | _ \<Rightarrow> []) os)"

definition frames_in :: "nat \<Rightarrow> 'r live_client_effect list \<Rightarrow> bytes list" where
  "frames_in g os = concat (map (\<lambda>e. case e of Framed g' t f \<Rightarrow> if g' = g then [f] else [] | _ \<Rightarrow> []) os)"

text \<open>The requests that the client sends on a connection; one that is over the limit is refused.\<close>

definition requests_on :: "'w writer_ops \<Rightarrow> nat \<Rightarrow> 'r client_effect list \<Rightarrow> envelope list" where
  "requests_on W g os = concat (map (\<lambda>e. case e of
     SendEnvelope t g' m \<Rightarrow> if g' = g \<and> frame_ok (encode_envelope W m) then [m] else [] | _ \<Rightarrow> []) os)"

definition calls_made :: "'r live_client_event list \<Rightarrow> 'r call_args list" where
  "calls_made es = concat (map (\<lambda>e. case e of Own (Call a) \<Rightarrow> [a] | _ \<Rightarrow> []) es)"

lemma did_simps [simp]:
  "did [] = []" "did (xs @ ys) = did xs @ did ys" "did (Did a # os) = a # did os"
  "did (Framed g t f # os) = did os" "did (Arrived g d # os) = did os" "did (map Did as) = as"
  by (simp_all add: did_def comp_def)

lemma link_data_simps [simp]:
  "link_data g [] = []" "link_data g (xs @ ys) = link_data g xs @ link_data g ys"
  "link_data g (Did a # os) = link_data g os" "link_data g (map Did as) = []"
  "link_data g (Framed g' t f # os) = link_data g os"
  "link_data g (Arrived g' d # os) = (if g' = g then d else []) @ link_data g os"
  by (simp_all add: link_data_def comp_def)

lemma frames_in_simps [simp]:
  "frames_in g [] = []" "frames_in g (xs @ ys) = frames_in g xs @ frames_in g ys"
  "frames_in g (Did a # os) = frames_in g os" "frames_in g (map Did as) = []"
  "frames_in g (Framed g' t f # os) = (if g' = g then [f] else []) @ frames_in g os"
  "frames_in g (Arrived g' d # os) = frames_in g os"
  by (simp_all add: frames_in_def comp_def)

lemma requests_on_simps [simp]:
  "requests_on W g [] = []" "requests_on W g (xs @ ys) = requests_on W g xs @ requests_on W g ys"
  "requests_on W g (SendEnvelope t g' m # os) =
     (if g' = g \<and> frame_ok (encode_envelope W m) then [m] else []) @ requests_on W g os"
  by (simp_all add: requests_on_def)

lemma calls_made_simps [simp]:
  "calls_made [] = []" "calls_made (xs @ ys) = calls_made xs @ calls_made ys"
  by (simp_all add: calls_made_def)

lemma frames_in_set: "f \<in> set (frames_in g os) \<longleftrightarrow> (\<exists>t. Framed g t f \<in> set os)"
  by (force simp: frames_in_def split: live_client_effect.splits if_splits)

subsection \<open>Steps of the client, seen from its connections\<close>

text \<open>An event that is not about a call leaves it where it is.\<close>

lemma set_phase_sels [simp]:
  "codec (set_phase t ph c) = codec c" "connections (set_phase t ph c) = connections c"
  "codec (end_call t c) = codec c" "connections (end_call t c) = connections c"
  by (simp_all add: set_phase_def end_call_def)

lemma retry_head_sels [simp]:
  "codec (fst (retry_head ro i n c)) = codec c" "connections (fst (retry_head ro i n c)) = connections c"
  by (simp_all add: retry_head_def)

lemma scheduleReconnect_sels [simp]:
  "codec (fst (scheduleReconnect ro c)) = codec c" "connections (fst (scheduleReconnect ro c)) = connections c"
  by (simp_all add: scheduleReconnect_def)

text \<open>The codec is cleared, kept, or that of a connection just opened.\<close>

lemma step_codec:
  "(codec (fst (client_step L cfg e c)) = None \<or> codec (fst (client_step L cfg e c)) = codec c) \<and>
     connections (fst (client_step L cfg e c)) = connections c \<or>
   codec (fst (client_step L cfg e c)) = Some (connections c) \<and>
     connections (fst (client_step L cfg e c)) = Suc (connections c)"
  by (cases e) (auto simp: call_def call_go_def poll_def reject_early_def leave_try_def send_settled_def recv_settled_def
    connect_def connect_done_def connected_now_def socket_down_def disconnect_def sleep_done_def retry_done_def Let_def
    split_def split: option.splits phase.splits sum.splits retry.splits)

lemma down_codec: "g < connections c \<Longrightarrow> codec (fst (client_step L cfg (SocketDown g) c)) = None"
  by (simp add: socket_down_def Let_def split_def split: option.splits)

lemma settled_codec:
  "codec (fst (client_step L cfg (RecvSettled t r) c)) = codec c" "connections (fst (client_step L cfg (RecvSettled t r) c)) = connections c"
  "codec (fst (client_step L cfg (SendSettled t x) c)) = codec c" "connections (fst (client_step L cfg (SendSettled t x) c)) = connections c"
  by (auto simp: send_settled_def recv_settled_def leave_try_def split: option.splits phase.splits sum.splits)

text \<open>A call inside its \<open>try\<close> moves only when what it awaits settles.\<close>

definition settles_phase :: "'r client_event \<Rightarrow> nat \<Rightarrow> 'r phase \<Rightarrow> bool" where
  "settles_phase e t p \<longleftrightarrow> (case p of
     Sending a i ms \<Rightarrow> (case e of SendSettled t' r \<Rightarrow> t' = t | _ \<Rightarrow> False)
   | Receiving a i ms \<Rightarrow> (case e of RecvSettled t' r \<Rightarrow> t' = t | TimerFired t' \<Rightarrow> t' = t | _ \<Rightarrow> False)
   | _ \<Rightarrow> False)"

lemma go_kept:
  "t \<noteq> t' \<Longrightarrow> map_of (calls (fst (call_go L cfg t' a c))) t = map_of (calls c) t"
  by (simp add: call_go_def reject_early_def map_of_set_phase map_of_end_call Let_def split: option.split)

lemma machine_calls: "machine_of c' = machine_of c \<Longrightarrow> map_of (calls c') = map_of (calls c)"
  by (metis machine_of_sels(1))

lemma phase_kept:
  assumes "map_of (calls c) t = Some p" "in_try p" "map_of (calls c) (called c) = None" "\<not> settles_phase e t p"
  shows "map_of (calls (fst (client_step L cfg e c))) t = Some p"
proof -
  have other: ?thesis if "e \<in> {Connect, Disconnect} \<or> (\<exists>x. e = ConnectDone x) \<or> (\<exists>g. e = SocketDown g)
      \<or> (\<exists>i. e = SleepDone i) \<or> (\<exists>i ok. e = RetryDone i ok)"
  proof -
    obtain c' os where c': "client_step L cfg e c = (c', os)" by fastforce
    from machine_calls [of c' c] other_calls [OF this that] c' assms(1) show ?thesis by simp
  qed
  show ?thesis
  proof (cases e)
    case (Call a)
    have t: "t \<noteq> called c" using assms(1,3) by auto
    let ?c1 = "c\<lparr>called := Suc (called c), calls := (called c, Polling a) # calls c\<rparr>"
    have "map_of (calls ?c1) t = Some p" using t assms(1) by simp
    with go_kept [OF t, of L cfg a ?c1] Call show ?thesis by (simp add: call_def Let_def)
  next
    case (PollFired t')
    with assms(1,2) go_kept [of t t' L cfg _ c] show ?thesis
      by (cases "t' = t")
        (auto simp: poll_def reject_early_def map_of_end_call split: option.splits phase.splits)
  next
    case (SendSettled t' err)
    with assms(1,2,4) show ?thesis
      by (cases "t' = t")
        (auto simp: settles_phase_def send_settled_def leave_try_def map_of_end_call map_of_set_phase
          split: option.splits phase.splits)
  next
    case (RecvSettled t' r)
    with assms(1,2,4) show ?thesis
      by (cases "t' = t")
        (auto simp: settles_phase_def recv_settled_def leave_try_def map_of_end_call map_of_set_phase
          split: option.splits phase.splits sum.splits)
  next
    case (TimerFired t')
    with assms(1,2,4) show ?thesis
      by (cases "t' = t")
        (auto simp: settles_phase_def leave_try_def map_of_end_call split: option.splits phase.splits)
  qed (use other in auto)
qed

text \<open>What a step asks of a connection: one request, one receive, or nothing.\<close>

definition off_wire :: "'r client_effect \<Rightarrow> bool" where
  "off_wire e \<longleftrightarrow> (case e of SendEnvelope t g m \<Rightarrow> False | RecvEnvelope t g \<Rightarrow> False | _ \<Rightarrow> True)"

lemma requests_on_off: "list_all off_wire os \<Longrightarrow> requests_on W g os = []"
  by (induction os) (auto simp: requests_on_def off_wire_def split: client_effect.splits)

lemma retry_head_off: "list_all off_wire (snd (retry_head ro i n c))"
  by (simp add: retry_head_def off_wire_def)

lemma down_off: "list_all off_wire (snd (socket_down cfg c))"
  using retry_head_off
  by (auto simp: socket_down_def scheduleReconnect_def off_wire_def Let_def split_def split: option.splits)

lemma go_wire:
  assumes "map_of (calls c) t \<noteq> None"
  shows "list_all off_wire (snd (call_go L cfg t a c)) \<or>
    (\<exists>g m. snd (call_go L cfg t a c) = [SendEnvelope t g m] \<and> codec (fst (call_go L cfg t a c)) = Some g \<and>
       \<not> callInFlight c \<and> (\<exists>i ms. map_of (calls (fst (call_go L cfg t a c))) t = Some (Sending a i ms)))"
  using assms by (auto simp: call_go_def reject_early_def off_wire_def map_of_set_phase Let_def split: option.split)

lemma step_wire:
  obtains (Quiet) "list_all off_wire (snd (client_step L cfg e c))"
    | (Sends) t g m where "snd (client_step L cfg e c) = [SendEnvelope t g m]"
        "codec (fst (client_step L cfg e c)) = Some g" "\<not> callInFlight c"
        "\<exists>a i ms. map_of (calls (fst (client_step L cfg e c))) t = Some (Sending a i ms)"
        "(\<exists>a. e = Call a) \<or> (\<exists>t. e = PollFired t)"
    | (Receives) t g ms where "e = SendSettled t None" "snd (client_step L cfg e c) = [RecvEnvelope t g, StartTimer t ms]"
        "codec (fst (client_step L cfg e c)) = Some g"
        "\<exists>a i. map_of (calls (fst (client_step L cfg e c))) t = Some (Receiving a i ms)"
        "\<exists>a i ms. map_of (calls c) t = Some (Sending a i ms)"
proof -
  have go: thesis if step: "client_step L cfg e c = call_go L cfg t a c1" and c1: "map_of (calls c1) t \<noteq> None"
      "callInFlight c1 = callInFlight c" and e: "(\<exists>a. e = Call a) \<or> (\<exists>t. e = PollFired t)" for t a c1
    using go_wire [OF c1(1), of L cfg a]
  proof (elim disjE exE conjE)
    fix g m i ms
    assume "snd (call_go L cfg t a c1) = [SendEnvelope t g m]" "codec (fst (call_go L cfg t a c1)) = Some g"
      "\<not> callInFlight c1" "map_of (calls (fst (call_go L cfg t a c1))) t = Some (Sending a i ms)"
    with step c1 e show ?thesis by (intro Sends) auto
  qed (use step in \<open>auto intro: Quiet\<close>)
  show thesis
  proof (cases e)
    case (Call a)
    let ?c1 = "c\<lparr>called := Suc (called c), calls := (called c, Polling a) # calls c\<rparr>"
    show ?thesis
    proof (cases "codec c = None \<and> reconnectOpts cfg \<noteq> None")
      case True
      with Call have "client_step L cfg e c = (?c1, [])" by (simp add: call_def Let_def)
      then show ?thesis by (intro Quiet) simp
    next
      case False
      then have step: "client_step L cfg e c = call_go L cfg (called c) a ?c1"
        unfolding Call client_step.simps call_def Let_def by (rule if_not_P)
      show ?thesis by (rule go [OF step]) (use Call in simp_all)
    qed
  next
    case (PollFired t)
    show ?thesis
    proof (cases "\<exists>a. map_of (calls c) t = Some (Polling a) \<and> codec c \<noteq> None")
      case True
      then obtain a where a: "map_of (calls c) t = Some (Polling a)" "codec c \<noteq> None" by blast
      with PollFired have step: "client_step L cfg e c = call_go L cfg t a c" by (simp add: poll_def)
      show ?thesis by (rule go [OF step]) (use PollFired a in simp_all)
    next
      case False
      with PollFired show ?thesis
        by (intro Quiet) (auto simp: poll_def reject_early_def off_wire_def split: option.splits phase.splits)
    qed
  next
    case (SendSettled t err)
    show ?thesis
    proof (cases "\<exists>a i ms g. map_of (calls c) t = Some (Sending a i ms) \<and> err = None \<and> codec c = Some g")
      case True
      then obtain a i ms g where a: "map_of (calls c) t = Some (Sending a i ms)" "err = None" "codec c = Some g" by blast
      with SendSettled have step: "client_step L cfg e c
          = (set_phase t (Receiving a i ms) c, [RecvEnvelope t g, StartTimer t ms])"
        by (simp add: send_settled_def)
      show ?thesis by (rule Receives [of t g ms]) (use SendSettled a step in \<open>simp_all add: map_of_set_phase\<close>)
    next
      case False
      with SendSettled show ?thesis
        by (intro Quiet) (auto simp: send_settled_def leave_try_def off_wire_def split: option.splits phase.splits)
    qed
  next
    case (SocketDown g)
    then show ?thesis using down_off [of cfg c] by (intro Quiet) simp
  next
    case (SleepDone i)
    then have "list_all off_wire (snd (client_step L cfg e c))"
      by (simp add: retry_head_off sleep_done_def off_wire_def Let_def split: option.split retry.split)
    then show ?thesis by (rule Quiet)
  next
    case (RetryDone i ok)
    then have "list_all off_wire (snd (client_step L cfg e c))"
      by (simp add: retry_head_off retry_done_def off_wire_def Let_def split: option.split retry.split)
    then show ?thesis by (rule Quiet)
  qed (use Quiet in \<open>auto simp: recv_settled_def leave_try_def connect_def connect_done_def disconnect_def
    off_wire_def Let_def split: option.splits phase.splits sum.splits if_splits\<close>)
qed

subsection \<open>The connection under a codec\<close>

text \<open>What receiving and sending leave as it was.\<close>

lemma ic_recv_keeps:
  assumes "ic_recv (token_iconnection t) n c = (c', r)"
  shows "connected (fst c') = connected (fst c)" "onDisconnect (fst c') = onDisconnect (fst c)" "written (snd c') = written (snd c)"
  using assms by (auto simp: provider_defs recv_def splice_def Let_def split: if_splits)

lemma recv_header_keeps:
  assumes "recv_header (token_iconnection t) h c = (c', r)"
  shows "connected (fst c') = connected (fst c)" "onDisconnect (fst c') = onDisconnect (fst c)" "written (snd c') = written (snd c)"
proof -
  have "connected (fst c') = connected (fst c) \<and> onDisconnect (fst c') = onDisconnect (fst c) \<and>
      written (snd c') = written (snd c)"
    if "recv_payload (ic_recv (token_iconnection t) n c) = (c', r)" for n
    using that ic_recv_keeps [of t n c]
    by (cases "ic_recv (token_iconnection t) n c") (auto simp: recv_payload_def split: recv_result.splits)
  with assms show "connected (fst c') = connected (fst c)" "onDisconnect (fst c') = onDisconnect (fst c)"
    "written (snd c') = written (snd c)"
    by (auto simp: recv_header_def split: option.splits if_splits)
qed

lemma recvFrame_keeps:
  assumes "recvFrame (token_iconnection t) c = (c', r)"
  shows "connected (fst c') = connected (fst c)" "onDisconnect (fst c') = onDisconnect (fst c)" "written (snd c') = written (snd c)"
proof -
  obtain c1 q where q: "ic_recv (token_iconnection t) 4 c = (c1, q)" by fastforce
  show "connected (fst c') = connected (fst c)" "onDisconnect (fst c') = onDisconnect (fst c)" "written (snd c') = written (snd c)"
    using assms q ic_recv_keeps [OF q] recv_header_keeps [of t _ c1 c' r]
    by (auto simp: recvFrame_def split: recv_result.splits)
qed

lemma recvFrame_resume_keeps:
  assumes "recvFrame_resume (token_iconnection t) k a c = (c', r)"
  shows "connected (fst c') = connected (fst c)" "onDisconnect (fst c') = onDisconnect (fst c)" "written (snd c') = written (snd c)"
  using assms recv_header_keeps [of t _ c c' r]
  by (auto simp: recvFrame_resume_def split: sum.splits recv_point.splits)

text \<open>The two parts of a send.\<close>

lemma ic_send_token:
  "ic_send (token_iconnection t) d c = (if connected (fst c) then ((fst c, snd c @ [SocketWrite t d]), SPending)
     else ((fst c, snd c @ [SendFail t not_connected]), SFail not_connected))"
  by (simp add: provider_defs send_def)

lemma codec_send_cases:
  assumes "connected (fst c)"
  obtains (Refused) err where "codec_send W (token_iconnection t) m c = (c, SThrew err)" "\<not> frame_ok (encode_envelope W m)"
    | (Header) "codec_send W (token_iconnection t) m c
        = ((fst c, snd c @ [SocketWrite t (writeUInt32BE (length (encode_envelope W m)))]), SBlocked (SentHeader (encode_envelope W m)))"
      "frame_ok (encode_envelope W m)"
  using assms by (cases "frame_ok (encode_envelope W m)")
    (auto simp: codec_send_def sendFrame_def frame_ok_def ic_send_token await_send_def)

lemma codec_resume_cases:
  obtains (Failed) e c' where "codec_send_resume (token_iconnection t) k err c = (c', SThrew e)"
      "fst c' = fst c" "written (snd c') = written (snd c)" "err \<noteq> None \<or> \<not> connected (fst c)"
    | (Empty) "codec_send_resume (token_iconnection t) k err c = (c, SDone)" "k = SentHeader []" "err = None"
    | (Whole) "codec_send_resume (token_iconnection t) k err c = (c, SDone)" "k = SentBody" "err = None"
    | (Body) data where "codec_send_resume (token_iconnection t) k err c
        = ((fst c, snd c @ [SocketWrite t data]), SBlocked SentBody)" "k = SentHeader data" "err = None" "connected (fst c)"
proof (cases err)
  case (Some e)
  then show ?thesis by (intro Failed [of c e]) (simp_all add: codec_send_resume_def sendFrame_resume_def)
next
  case None
  show ?thesis
  proof (cases k)
    case (SentHeader data)
    show ?thesis
    proof (cases "data = []")
      case True
      with None SentHeader show ?thesis by (intro Empty) (simp_all add: codec_send_resume_def sendFrame_resume_def)
    next
      case False
      show ?thesis
      proof (cases "connected (fst c)")
        case True
        with None SentHeader False show ?thesis
          by (intro Body [of data]) (simp_all add: codec_send_resume_def sendFrame_resume_def ic_send_token await_send_def)
      next
        case down: False
        with None SentHeader False show ?thesis
          by (intro Failed [of "(fst c, snd c @ [SendFail t not_connected])" not_connected])
            (simp_all add: codec_send_resume_def sendFrame_resume_def ic_send_token await_send_def)
      qed
    qed
  next
    case SentBody
    with None show ?thesis by (intro Whole) (simp_all add: codec_send_resume_def sendFrame_resume_def)
  qed
qed

lemma codec_received_fst [simp]: "fst (codec_received R r) = fst r"
  by (cases r; cases "snd r") (auto simp: codec_received_def)

lemma on_link_sels [simp]:
  "lc_client (on_link g f s) = lc_client s" "length (lc_links (on_link g f s)) = length (lc_links s)"
  "g < length (lc_links s) \<Longrightarrow> lc_links (on_link g f s) ! g = f (lc_links s ! g)"
  "g' \<noteq> g \<Longrightarrow> lc_links (on_link g f s) ! g' = lc_links s ! g'"
  by (simp_all add: on_link_def)

end
