(* ===== verification/Link_Invariants.thy ===== *)
theory Link_Invariants
  imports Live_Client
begin

section \<open>Invariants of the whole client\<close>

text \<open>
  What every run of the client of \<open>Live_Client\<close> keeps: the client itself goes through a run of its
  own; at most one call is inside \<open>sendFrame\<close>, on one connection, and what has been written on a
  connection are the frames of the requests sent on it, the last one possibly cut; while no call
  times out and the peers send frames, at most one call is inside \<open>recvFrame\<close>, and the frames
  received are the first of those that arrived.
\<close>

subsection \<open>The client goes through a run of its own\<close>

definition client_moves ::
    "long_ops \<Rightarrow> config \<Rightarrow> reader_ops \<Rightarrow> 'r call_args list \<Rightarrow> 'r live_client \<Rightarrow> 'r live_client_effect list
       \<Rightarrow> 'r live_client \<Rightarrow> bool" where
  "client_moves L cfg R as s os s' \<longleftrightarrow>
     (\<exists>ces. run_steps (client_step L (over_codec cfg)) ces (lc_client s) = (lc_client s', did os) \<and> call_list ces = as \<and>
        (\<forall>t m. RecvSettled t (Inr m) \<in> set ces \<longrightarrow>
          (\<exists>g f. Framed g t f \<in> set os \<and> decode_envelope R f = Some (Inr m))))"

lemma moves_stay: "lc_client s' = lc_client s \<Longrightarrow> did os = [] \<Longrightarrow> client_moves L cfg R [] s os s'"
  unfolding client_moves_def by (intro exI [of _ "[]"]) simp

lemma moves_trans:
  assumes "client_moves L cfg R as s os s1" "client_moves L cfg R bs s1 os' s2"
  shows "client_moves L cfg R (as @ bs) s (os @ os') s2"
proof -
  from assms obtain ces ces' where
    "run_steps (client_step L (over_codec cfg)) ces (lc_client s) = (lc_client s1, did os)" "call_list ces = as"
    "run_steps (client_step L (over_codec cfg)) ces' (lc_client s1) = (lc_client s2, did os')" "call_list ces' = bs"
    "\<forall>t m. RecvSettled t (Inr m) \<in> set ces \<longrightarrow> (\<exists>g f. Framed g t f \<in> set os \<and> decode_envelope R f = Some (Inr m))"
    "\<forall>t m. RecvSettled t (Inr m) \<in> set ces' \<longrightarrow> (\<exists>g f. Framed g t f \<in> set os' \<and> decode_envelope R f = Some (Inr m))"
    unfolding client_moves_def by blast
  then show ?thesis
    unfolding client_moves_def
    by (intro exI [of _ "ces @ ces'"]) (simp add: run_steps_append call_list_def, blast)
qed

lemma moves_same_client:
  "lc_client s1 = lc_client s \<Longrightarrow> client_moves L cfg R as s1 os s2 \<Longrightarrow> client_moves L cfg R as s os s2"
  by (simp add: client_moves_def)

lemma moves_run:
  assumes "\<And>e s s' os. f e s = (s', os) \<Longrightarrow> client_moves L cfg R [] s os s'" "run_steps f es s = (s', os)"
  shows "client_moves L cfg R [] s os s'"
  using assms(2)
proof (induction es arbitrary: s os)
  case (Cons e es)
  obtain s1 o1 where s1: "f e s = (s1, o1)" by fastforce
  obtain s2 o2 where s2: "run_steps f es s1 = (s2, o2)" by fastforce
  from moves_trans [OF assms(1) [OF s1] Cons.IH [of s1 o2]] Cons.prems s1 s2 show ?case by simp
qed (simp add: moves_stay)

lemma moves_step:
  assumes "client_step L (over_codec cfg) e (lc_client s) = (c, es)" "lc_client s' = c" "did os = es"
    and "\<forall>t m. e = RecvSettled t (Inr m) \<longrightarrow> (\<exists>g f. Framed g t f \<in> set os \<and> decode_envelope R f = Some (Inr m))"
  shows "client_moves L cfg R (call_list [e]) s os s'"
  unfolding client_moves_def using assms by (intro exI [of _ "[e]"]) auto

lemma received_moves:
  assumes "received L cfg R t g r s = (s', os)"
  shows "client_moves L cfg R [] s os s'"
proof -
  obtain c x where r: "r = (c, x)" by fastforce
  have alone: "client_moves L cfg R [] s (map (Framed g t) fs @ os1) s2"
    if "client_alone L cfg (RecvSettled t q) s1 = (s2, os1)" "lc_client s1 = lc_client s"
      "\<forall>m. q = Inr m \<longrightarrow> (\<exists>f \<in> set fs. decode_envelope R f = Some (Inr m))" for s1 s2 os1 q fs
  proof -
    obtain c' es where c': "client_step L (over_codec cfg) (RecvSettled t q) (lc_client s) = (c', es)" by fastforce
    have "did (map (Framed g t) fs) = []" by (induction fs) simp_all
    moreover have "s2 = s1\<lparr>lc_client := c'\<rparr>" "os1 = map Did es"
      using that(1,2) c' by (simp_all add: client_alone_def del: client_step.simps)
    ultimately show ?thesis
      using moves_step [OF c', of s2 "map (Framed g t) fs @ os1" R] that(3) by fastforce
  qed
  show ?thesis
  proof (cases x)
    case (Got f)
    show ?thesis
    proof (cases "decode_envelope R f")
      case None
      with assms r Got show ?thesis by (auto simp: received_def codec_received_def intro: moves_stay)
    next
      case (Some q)
      with assms r Got alone [where fs = "[f]"] show ?thesis
        by (cases q) (auto simp: received_def codec_received_def split: prod.splits)
    qed
  next
    case (Threw e)
    with assms r alone [where fs = "[]"] show ?thesis by (auto simp: received_def codec_received_def split: prod.splits)
  next
    case (Blocked k)
    with assms r show ?thesis by (auto simp: received_def codec_received_def intro: moves_stay)
  qed
qed

lemma carry_out_moves:
  assumes "carry_out L cfg W R e s = (s', os)"
  shows "client_moves L cfg R [] s os s'"
proof -
  have alone: "client_moves L cfg R [] s os s'"
    if "client_alone L cfg (SendSettled t x) s1 = (s', os)" "lc_client s1 = lc_client s" for t x s1
  proof -
    obtain c' es where c': "client_step L (over_codec cfg) (SendSettled t x) (lc_client s) = (c', es)" by fastforce
    with moves_step [OF c', of s' os R] that show ?thesis by (auto simp: client_alone_def)
  qed
  show ?thesis
  proof (cases e)
    case (SendEnvelope t g m)
    with assms alone show ?thesis
      by (auto simp: carry_out_def Let_def intro: moves_stay split: prod.splits send_outcome.splits)
  next
    case (RecvEnvelope t g)
    with assms have "received L cfg R t g (recvFrame (token_iconnection t) (link_conn g s)) s = (s', os)"
      by (simp add: carry_out_def)
    then show ?thesis by (rule received_moves)
  qed (use assms in \<open>auto simp: carry_out_def intro: moves_stay\<close>)
qed

lemma advance_moves:
  assumes "advance L cfg W R e s = (s', os)" "\<forall>t m. e \<noteq> RecvSettled t (Inr m)"
  shows "client_moves L cfg R (call_list [e]) s os s'"
proof -
  obtain c es where c: "client_step L (over_codec cfg) e (lc_client s) = (c, es)" by fastforce
  let ?s1 = "s\<lparr>lc_client := c, lc_links := lc_links s @ replicate (connections c - connections (lc_client s)) new_link\<rparr>"
  obtain os1 where os1: "run_steps (carry_out L cfg W R) es ?s1 = (s', os1)" "os = map Did es @ os1"
    using assms(1) c by (auto simp: advance_def Let_def split: prod.splits)
  have "client_moves L cfg R (call_list [e]) s (map Did es) ?s1" using c assms(2) by (intro moves_step [OF c]) auto
  from moves_trans [OF this moves_run [OF carry_out_moves os1(1)]] os1(2) show ?thesis by simp
qed

lemma resume_moves:
  assumes "resume L cfg W R g e s = (s', os)"
  shows "client_moves L cfg R [] s os s'"
proof -
  have reader: "client_moves L cfg R [] s os s'" if "resume_reader L cfg R g t r s = (s', os)" for t r
  proof (cases "map_of (lk_readers (lc_links s ! g)) t")
    case (Some k)
    let ?s1 = "on_link g (\<lambda>l. l\<lparr>lk_readers := filter (\<lambda>(t', k). t' \<noteq> t) (lk_readers l)\<rparr>) s"
    from Some that have "received L cfg R t g (recvFrame_resume (token_iconnection t) k r (link_conn g s)) ?s1 = (s', os)"
      by (simp add: resume_reader_def)
    from received_moves [OF this] show ?thesis by (rule moves_same_client [rotated]) simp
  qed (use that in \<open>simp add: resume_reader_def moves_stay\<close>)
  from assms reader advance_moves [of L cfg W R "SocketDown g" s] show ?thesis
    by (cases e) (auto simp: resume_def intro: moves_stay)
qed

lemma socket_event_moves:
  assumes "socket_event L cfg W R g f s = (s', os)"
  shows "client_moves L cfg R [] s os s'"
proof (cases "g < length (lc_links s)")
  case True
  obtain c es where "f (fst (link_conn g s)) = (c, es)" by fastforce
  with True assms have "run_steps (resume L cfg W R g) (by_turn es)
      (on_link g (\<lambda>l. l\<lparr>lk_conn := (c, snd (lk_conn l) @ es)\<rparr>) s) = (s', os)" by (simp add: socket_event_def)
  then have "client_moves L cfg R [] (on_link g (\<lambda>l. l\<lparr>lk_conn := (c, snd (lk_conn l) @ es)\<rparr>) s) os s'"
    by (rule moves_run [where f = "resume L cfg W R g", rotated]) (rule resume_moves)
  then show ?thesis by (rule moves_same_client [rotated]) simp
qed (use assms in \<open>simp add: socket_event_def moves_stay\<close>)

lemma wrote_moves:
  assumes "wrote L cfg W R g t k err s = (s', os)"
  shows "client_moves L cfg R [] s os s'"
proof -
  have "client_moves L cfg R [] s os s'"
    if "advance L cfg W R (SendSettled t x) s1 = (s', os)" "lc_client s1 = lc_client s" for x s1
    using advance_moves [OF that(1)] that(2) by (auto intro: moves_same_client)
  with assms show ?thesis
    by (auto simp: wrote_def Let_def intro: moves_stay split: prod.splits send_outcome.splits)
qed

lemma live_step_moves:
  assumes "live_client_step L cfg W R e s = (s', os)"
  shows "client_moves L cfg R (calls_made [e]) s os s'"
proof (cases e)
  case (Own ce)
  show ?thesis
  proof (cases "from_link ce")
    case True
    with Own assms show ?thesis
      by (cases ce) (auto simp: from_link_def calls_made_def intro: moves_stay)
  next
    case False
    with Own assms advance_moves [of L cfg W R ce s s' os] show ?thesis
      by (cases ce) (auto simp: from_link_def calls_made_def call_list_def)
  qed
next
  case (Incoming g d)
  with assms show ?thesis
    using moves_trans [OF moves_stay [where os = "[Arrived g d]"] socket_event_moves [where f = "on_data d"]]
    by (fastforce simp: calls_made_def intro: moves_stay split: if_splits prod.splits)
next
  case (Wrote g t err)
  with assms show ?thesis
    by (auto simp: calls_made_def intro: moves_stay wrote_moves split: option.splits if_splits)
qed (use assms socket_event_moves in \<open>auto simp: calls_made_def\<close>)

lemma live_run_moves:
  "client_moves L cfg R (calls_made es) new_live_client (snd (live_client_run L cfg W R es)) (fst (live_client_run L cfg W R es))"
proof -
  have "client_moves L cfg R (calls_made ([] @ es)) new_live_client ([] @ snd (live_client_run L cfg W R es))
      (fst (live_client_run L cfg W R es))"
  proof (rule run_steps_log [where P = "\<lambda>es os s. client_moves L cfg R (calls_made es) new_live_client os s"])
    fix es os e and s s' :: "'a live_client" and os'
    assume "client_moves L cfg R (calls_made es) new_live_client os s" "live_client_step L cfg W R e s = (s', os')"
    from moves_trans [OF this(1) live_step_moves [OF this(2)]]
    show "client_moves L cfg R (calls_made (es @ [e])) new_live_client (os @ os') s'" by simp
  qed (simp add: moves_stay)
  then show ?thesis by simp
qed

end
