(* ===== verification/Link_Frames.thy ===== *)
theory Link_Frames
  imports Link_Invariants
begin

section \<open>What goes over the connections of the client\<close>

text \<open>
  The invariant of the client's connections: at most one call is inside \<open>sendFrame\<close>, on one
  connection, and the bytes written on a connection are the frames of the requests sent on it,
  the last one possibly cut short; while no call times out and the peers send frames, at most one
  call is inside \<open>recvFrame\<close>, and the frames received on a connection are the first of those that
  arrived on it.
\<close>

subsection \<open>The invariant\<close>

definition sending :: "'r client \<Rightarrow> nat \<Rightarrow> bool" where
  "sending c t \<longleftrightarrow> (\<exists>a i ms. map_of (calls c) t = Some (Sending a i ms))"

definition receiving :: "'r client \<Rightarrow> nat \<Rightarrow> bool" where
  "receiving c t \<longleftrightarrow> (\<exists>a i ms. map_of (calls c) t = Some (Receiving a i ms))"

text \<open>At most one call is at that point, on at most one connection.\<close>

definition alone_at :: "(nat \<Rightarrow> bool) \<Rightarrow> (link \<Rightarrow> (nat \<times> 'k) list) \<Rightarrow> link list \<Rightarrow> bool" where
  "alone_at p f ls \<longleftrightarrow> (\<forall>g < length ls. f (ls ! g) = [] \<or>
     (\<exists>t k. f (ls ! g) = [(t, k)] \<and> p t \<and> (\<forall>g' < length ls. g' \<noteq> g \<longrightarrow> f (ls ! g') = [])))"

text \<open>What has been written on a connection on which the requests \<open>ms\<close> were sent.\<close>

definition frames_bytes :: "'w writer_ops \<Rightarrow> envelope list \<Rightarrow> bytes" where
  "frames_bytes W ms = concat (map (\<lambda>m. encode_frame (encode_envelope W m)) ms)"

definition link_out :: "'w writer_ops \<Rightarrow> envelope list \<Rightarrow> link \<Rightarrow> bool" where
  "link_out W ms l \<longleftrightarrow>
     (if connected (fst (lk_conn l))
      then written (snd (lk_conn l)) @ (case lk_writers l of (t, SentHeader d) # _ \<Rightarrow> d | _ \<Rightarrow> []) = frames_bytes W ms
      else \<exists>rest. written (snd (lk_conn l)) @ rest = frames_bytes W ms)"

text \<open>What has been received on a connection on which the bytes \<open>inp\<close> arrived.\<close>

definition link_reader :: "link \<Rightarrow> bool \<Rightarrow> logged_conn reader" where
  "link_reader l b = \<lparr>rd_conn = lk_conn l, rd_point = (case lk_readers l of [] \<Rightarrow> None | (t, k) # _ \<Rightarrow> Some k), rd_dead = b\<rparr>"

definition link_in :: "bytes \<Rightarrow> bytes list \<Rightarrow> link \<Rightarrow> bool" where
  "link_in inp fs l \<longleftrightarrow> single_reader (lk_conn l) \<and>
     (\<exists>b. reader_inv unix_view (\<not> connected (fst (lk_conn l))) inp fs (link_reader l b)) \<and>
     (\<forall>w \<in> set (waiters (fst (lk_conn l))). token w \<in> fst ` set (lk_readers l))"

definition frames_of :: "bytes \<Rightarrow> bytes list \<Rightarrow> bool" where
  "frames_of inp hs \<longleftrightarrow> list_all frame_ok hs \<and> (\<exists>later. inp @ later = concat (map encode_frame hs))"

text \<open>
  The invariant, with what was sent, arrived and received on each connection as \<open>ms\<close>, \<open>inp\<close> and
  \<open>fs\<close>; \<open>clean g\<close> when no write on \<open>g\<close> has failed, \<open>sound\<close> when no call timed out and what
  arrived begins frames. \<open>X\<close> is the connection, if any, in the middle of a handler.
\<close>

definition live_inv ::
    "'w writer_ops \<Rightarrow> (nat \<Rightarrow> bool) \<Rightarrow> bool \<Rightarrow> nat set \<Rightarrow> (nat \<Rightarrow> envelope list) \<Rightarrow> (nat \<Rightarrow> bytes) \<Rightarrow> (nat \<Rightarrow> bytes list)
       \<Rightarrow> 'r live_client \<Rightarrow> bool" where
  "live_inv W clean sound X ms inp fs s \<longleftrightarrow>
     machine_ok (machine_of (lc_client s)) \<and> length (lc_links s) = connections (lc_client s) \<and>
     (\<forall>g < length (lc_links s). onDisconnect (fst (link_conn g s))) \<and>
     (\<forall>g \<ge> length (lc_links s). ms g = [] \<and> inp g = [] \<and> fs g = []) \<and>
     alone_at (sending (lc_client s)) lk_writers (lc_links s) \<and>
     (\<forall>g < length (lc_links s). clean g \<longrightarrow> link_out W (ms g) (lc_links s ! g)) \<and>
     (sound \<longrightarrow> alone_at (receiving (lc_client s)) lk_readers (lc_links s) \<and>
       (\<forall>g < length (lc_links s). g \<notin> X \<longrightarrow> link_in (inp g) (fs g) (lc_links s ! g)))"

definition codec_ok :: "'r live_client \<Rightarrow> bool" where
  "codec_ok s \<longleftrightarrow> (\<forall>g. codec (lc_client s) = Some g \<longrightarrow> g < length (lc_links s) \<and> connected (fst (link_conn g s)))"

lemma live_invD:
  assumes "live_inv W clean sound X ms inp fs s"
  shows "machine_ok (machine_of (lc_client s))" "length (lc_links s) = connections (lc_client s)"
    "g < length (lc_links s) \<Longrightarrow> onDisconnect (fst (link_conn g s))"
    "length (lc_links s) \<le> g \<Longrightarrow> ms g = [] \<and> inp g = [] \<and> fs g = []"
    "alone_at (sending (lc_client s)) lk_writers (lc_links s)"
    "g < length (lc_links s) \<Longrightarrow> clean g \<Longrightarrow> link_out W (ms g) (lc_links s ! g)"
    "sound \<Longrightarrow> alone_at (receiving (lc_client s)) lk_readers (lc_links s)"
    "sound \<Longrightarrow> g < length (lc_links s) \<Longrightarrow> g \<notin> X \<Longrightarrow> link_in (inp g) (fs g) (lc_links s ! g)"
  using assms by (auto simp: live_inv_def)

lemma live_inv_weaken:
  assumes "live_inv W clean sound X ms inp fs s"
    and "\<And>g. clean' g \<Longrightarrow> clean g" "sound' \<Longrightarrow> sound" "X \<subseteq> X'"
  shows "live_inv W clean' sound' X' ms inp fs s"
  using assms by (auto simp: live_inv_def)

lemma alone_atD:
  assumes "alone_at p f ls" "g < length ls" "(t, k) \<in> set (f (ls ! g))"
  shows "p t" "f (ls ! g) = [(t, k)]" "g' < length ls \<Longrightarrow> g' \<noteq> g \<Longrightarrow> f (ls ! g') = []"
  using assms by (fastforce simp: alone_at_def)+

lemma alone_at_mono:
  assumes "alone_at p f ls" "\<And>g t k. g < length ls \<Longrightarrow> (t, k) \<in> set (f (ls ! g)) \<Longrightarrow> p t \<Longrightarrow> q t"
  shows "alone_at q f ls"
  unfolding alone_at_def
proof (intro allI impI)
  fix g assume g: "g < length ls"
  with assms(1) show "f (ls ! g) = [] \<or>
     (\<exists>t k. f (ls ! g) = [(t, k)] \<and> q t \<and> (\<forall>g' < length ls. g' \<noteq> g \<longrightarrow> f (ls ! g') = []))"
    using assms(2) [OF g] unfolding alone_at_def by fastforce
qed

lemma alone_at_empty: "\<forall>g < length ls. f (ls ! g) = [] \<Longrightarrow> alone_at p f ls"
  by (simp add: alone_at_def)

lemma alone_at_put:
  assumes "\<And>g'. g' < length ls \<Longrightarrow> g' \<noteq> g \<Longrightarrow> f (ls ! g') = []" "f l = [] \<or> (\<exists>t k. f l = [(t, k)] \<and> p t)"
  shows "alone_at p f (ls[g := l])"
  using assms by (cases "g < length ls") (auto simp: alone_at_def nth_list_update)

lemma alone_at_same:
  assumes "alone_at p f ls" "g < length ls \<Longrightarrow> f l = f (ls ! g)"
  shows "alone_at p f (ls[g := l])"
proof -
  have "f (ls[g := l] ! g') = f (ls ! g')" if "g' < length ls" for g'
    using assms(2) that by (cases "g' = g") simp_all
  with assms(1) show ?thesis by (simp add: alone_at_def)
qed

lemma alone_at_append:
  assumes "alone_at p f ls" "\<forall>l \<in> set ls'. f l = []"
  shows "alone_at p f (ls @ ls')"
proof -
  have new: "f ((ls @ ls') ! g) = []" if "\<not> g < length ls" "g < length ls + length ls'" for g
    using that assms(2) by (simp add: nth_append)
  show ?thesis
    unfolding alone_at_def
  proof (intro allI impI)
    fix g assume g: "g < length (ls @ ls')"
    show "f ((ls @ ls') ! g) = [] \<or> (\<exists>t k. f ((ls @ ls') ! g) = [(t, k)] \<and> p t \<and>
       (\<forall>g' < length (ls @ ls'). g' \<noteq> g \<longrightarrow> f ((ls @ ls') ! g') = []))"
    proof (cases "g < length ls")
      case True
      from assms(1) True consider "f (ls ! g) = []"
        | t k where "f (ls ! g) = [(t, k)]" "p t" "\<forall>g' < length ls. g' \<noteq> g \<longrightarrow> f (ls ! g') = []"
        by (auto simp: alone_at_def)
      then show ?thesis
      proof cases
        case 2
        then have "f ((ls @ ls') ! g') = []" if "g' < length (ls @ ls')" "g' \<noteq> g" for g'
          using new [of g'] that by (cases "g' < length ls") (simp_all add: nth_append)
        with 2(1,2) True show ?thesis by (simp add: nth_append)
      qed (use True in \<open>simp add: nth_append\<close>)
    qed (use new g in simp)
  qed
qed

text \<open>Two calls cannot both be inside their \<open>try\<close>.\<close>

lemma busy_unique:
  assumes "machine_ok (machine_of c)" "map_of (calls c) t = Some p" "in_try p"
  shows "callInFlight c" "map_of (calls c) t' = Some p' \<Longrightarrow> in_try p' \<Longrightarrow> t' = t"
proof -
  have t: "t \<in> busy_calls (map_of (calls c))" using assms(2,3) by (simp add: busy_calls_def)
  then show busy: "callInFlight c" using assms(1) by (auto simp: machine_ok_def split: if_splits)
  assume "map_of (calls c) t' = Some p'" "in_try p'"
  then have "t' \<in> busy_calls (map_of (calls c))" by (simp add: busy_calls_def)
  with t busy assms(1) show "t' = t" by (auto simp: machine_ok_def)
qed

lemma sending_receiving:
  assumes "machine_ok (machine_of c)" "sending c t"
  shows "callInFlight c" "\<not> receiving c t'" "sending c t' \<Longrightarrow> t' = t"
  using busy_unique [OF assms(1), of t] assms(2) by (fastforce simp: sending_def receiving_def)+

lemma receiving_busy:
  assumes "machine_ok (machine_of c)" "receiving c t"
  shows "callInFlight c" "\<not> sending c t'" "receiving c t' \<Longrightarrow> t' = t"
  using busy_unique [OF assms(1), of t] assms(2) by (fastforce simp: sending_def receiving_def)+

subsection \<open>A step of the client\<close>

lemma new_link_ok:
  "onDisconnect (fst (lk_conn new_link))" "connected (fst (lk_conn new_link))" "lk_readers new_link = []"
  "lk_writers new_link = []" "link_out W [] new_link" "link_in [] [] new_link"
proof -
  have "reader_inv unix_view False [] [] (link_reader new_link False)"
    by (simp add: new_link_def reader_inv_def link_reader_def unix_view_def new_connection_def)
  moreover have "single_reader (lk_conn new_link)" "waiters (fst (lk_conn new_link)) = []"
    "connected (fst (lk_conn new_link))"
    by (simp_all add: new_link_def new_connection_def single_reader_def conn_ok_def)
  ultimately show "link_in [] [] new_link" by (auto simp: link_in_def)
qed (simp_all add: new_link_def new_connection_def link_out_def frames_bytes_def)

text \<open>
  A step of the client that settles nothing a connection still waits for; the requests and
  receives it asks for are carried out next.
\<close>

lemma client_keeps:
  assumes inv: "live_inv W clean sound X ms inp fs s"
    and step: "client_step L cfg e (lc_client s) = (c', es)"
    and quiet: "\<And>t x. e = SendSettled t x \<Longrightarrow> \<forall>g < length (lc_links s). lk_writers (lc_links s ! g) = []"
      "\<And>t x. sound \<Longrightarrow> e = RecvSettled t x \<Longrightarrow> \<forall>g < length (lc_links s). lk_readers (lc_links s ! g) = []"
      "\<And>t. sound \<Longrightarrow> e \<noteq> TimerFired t"
    and s': "s' = s\<lparr>lc_client := c', lc_links := lc_links s @ replicate (connections c' - connections (lc_client s)) new_link\<rparr>"
  shows "live_inv W clean sound X ms inp fs s'"
    and "codec_ok s \<Longrightarrow> codec_ok s'"
proof -
  let ?c = "lc_client s" and ?new = "replicate (connections c' - connections (lc_client s)) new_link"
  note I = live_invD [OF inv]
  have fresh: "map_of (calls ?c) (called ?c) = None" using I(1) by (force simp: machine_ok_def)
  have c': "c' = fst (client_step L cfg e ?c)" using step by simp
  have conns: "connections c' = connections ?c \<or> connections c' = Suc (connections ?c)"
    using step_codec [of L cfg e ?c] c' by auto
  have len: "length (lc_links s') = connections c'" using I(2) conns s' by auto
  have old: "lc_links s' ! g = lc_links s ! g" if "g < length (lc_links s)" for g
    using that s' by (simp add: nth_append)
  have new: "lc_links s' ! g = new_link" if "\<not> g < length (lc_links s)" "g < length (lc_links s')" for g
    using that s' by (simp add: nth_append)
  have "sending c' t" if "g < length (lc_links s)" "(t, k) \<in> set (lk_writers (lc_links s ! g))" for g t k
  proof -
    from alone_atD(1) [OF I(5) that] obtain a i m where p: "map_of (calls ?c) t = Some (Sending a i m)"
      by (auto simp: sending_def)
    have "\<not> settles_phase e t (Sending a i m)"
      using quiet(1) that by (cases e) (auto simp: settles_phase_def)
    from phase_kept [OF p _ fresh this] show ?thesis by (auto simp: sending_def c')
  qed
  then have "alone_at (sending c') lk_writers (lc_links s)" by (rule alone_at_mono [OF I(5)])
  then have writers: "alone_at (sending c') lk_writers (lc_links s')"
    unfolding s' by (simp add: alone_at_append new_link_ok)
  have readers: "alone_at (receiving c') lk_readers (lc_links s')" if sound
  proof -
    have "receiving c' t" if "g < length (lc_links s)" "(t, k) \<in> set (lk_readers (lc_links s ! g))" for g t k
    proof -
      from alone_atD(1) [OF I(7) [OF \<open>sound\<close>] that] obtain a i m where p: "map_of (calls ?c) t = Some (Receiving a i m)"
        by (auto simp: receiving_def)
      have "\<not> settles_phase e t (Receiving a i m)"
        using quiet(2,3) [OF \<open>sound\<close>] that by (cases e) (auto simp: settles_phase_def)
      from phase_kept [OF p _ fresh this] show ?thesis by (auto simp: receiving_def c')
    qed
    then have "alone_at (receiving c') lk_readers (lc_links s)" by (rule alone_at_mono [OF I(7) [OF that]])
    then show ?thesis unfolding s' by (simp add: alone_at_append new_link_ok)
  qed
  have mok: "machine_ok (machine_of c')" by (rule machine_ok_trans [OF client_refines [OF step fresh] I(1)])
  have each: "onDisconnect (fst (link_conn g s')) \<and> (clean g \<longrightarrow> link_out W (ms g) (lc_links s' ! g)) \<and>
      (sound \<longrightarrow> g \<notin> X \<longrightarrow> link_in (inp g) (fs g) (lc_links s' ! g))" if "g < length (lc_links s')" for g
  proof (cases "g < length (lc_links s)")
    case True
    with old [OF True] I(3,6,8) show ?thesis by simp
  next
    case False
    with new [OF False that] I(4) [of g] show ?thesis by (simp add: new_link_ok)
  qed
  show "live_inv W clean sound X ms inp fs s'"
    unfolding live_inv_def using mok len each writers readers I(4) s' by simp
  assume ok: "codec_ok s"
  show "codec_ok s'"
    unfolding codec_ok_def
  proof (intro allI impI)
    fix g assume "codec (lc_client s') = Some g"
    then have g: "codec c' = Some g" by (simp add: s')
    from step_codec [of L cfg e ?c] g
    consider "codec ?c = Some g" | "g = connections ?c" "connections c' = Suc (connections ?c)" unfolding c' by auto
    then show "g < length (lc_links s') \<and> connected (fst (link_conn g s'))"
    proof cases
      case 1
      with ok have "g < length (lc_links s)" "connected (fst (link_conn g s))" by (auto simp: codec_ok_def)
      with old show ?thesis by (simp add: s')
    next
      case 2
      with I(2) new [of g] len new_link_ok show ?thesis by simp
    qed
  qed
qed

subsection \<open>Sending\<close>

lemma off_wire_carried:
  "list_all off_wire es \<Longrightarrow> run_steps (carry_out L cfg W R) es s = (s, [])"
  by (induction es) (auto simp: off_wire_def carry_out_def split: client_effect.splits)

text \<open>A change of one connection.\<close>

lemma link_change:
  assumes inv: "live_inv W clean sound X ms inp fs s" and g: "g < length (lc_links s)"
    and "onDisconnect (fst (lk_conn (f (lc_links s ! g))))"
    and "clean' g \<Longrightarrow> link_out W (ms' g) (f (lc_links s ! g))" "\<And>g. clean' g \<Longrightarrow> clean g"
    and "alone_at (sending (lc_client s)) lk_writers ((lc_links s)[g := f (lc_links s ! g)])"
    and "sound \<Longrightarrow> alone_at (receiving (lc_client s)) lk_readers ((lc_links s)[g := f (lc_links s ! g)])"
    and "sound \<Longrightarrow> g \<notin> X' \<Longrightarrow> link_in (inp' g) (fs' g) (f (lc_links s ! g))"
    and "\<And>g'. g' \<noteq> g \<Longrightarrow> ms' g' = ms g' \<and> inp' g' = inp g' \<and> fs' g' = fs g'" "X \<subseteq> insert g X'"
  shows "live_inv W clean' sound X' ms' inp' fs' (on_link g f s)"
proof -
  note I = live_invD [OF inv]
  have "g' \<notin> X" if "g' \<notin> X'" "g' \<noteq> g" for g' using assms(10) that by blast
  with assms(3-9) I g show ?thesis
    unfolding live_inv_def on_link_def by (auto simp: nth_list_update)
qed

text \<open>What waits to be read is not touched by a write.\<close>

lemma reader_inv_cong:
  assumes "reader_inv view hung inp fs r" "rd_point r' = rd_point r" "rd_dead r' = rd_dead r"
    and "s_buf (view (rd_conn r')) = s_buf (view (rd_conn r))" "s_want (view (rd_conn r')) = s_want (view (rd_conn r))"
    and "s_up (view (rd_conn r')) = s_up (view (rd_conn r))"
  shows "reader_inv view hung inp fs r'"
  using assms(1) unfolding reader_inv_def Let_def assms(2-6) .

lemma link_in_log:
  assumes "link_in inp fs l" "lk_readers l' = lk_readers l" "fst (lk_conn l') = fst (lk_conn l)"
  shows "link_in inp fs l'"
proof -
  from assms(1) obtain b where b: "reader_inv unix_view (\<not> connected (fst (lk_conn l))) inp fs (link_reader l b)"
    by (auto simp: link_in_def)
  have "reader_inv unix_view (\<not> connected (fst (lk_conn l'))) inp fs (link_reader l' b)"
    unfolding assms(3) by (rule reader_inv_cong [OF b]) (simp_all add: link_reader_def unix_view_def assms)
  moreover have "single_reader (lk_conn l') = single_reader (lk_conn l)" using assms(3) by (simp add: single_reader_def)
  ultimately show ?thesis using assms unfolding link_in_def by auto
qed

lemma send_keeps:
  assumes inv: "live_inv W clean sound {} ms inp fs s" and cok: "codec_ok s"
    and t: "sending (lc_client s) t" "codec (lc_client s) = Some g"
    and free: "\<forall>g < length (lc_links s). lk_writers (lc_links s ! g) = []"
    and out: "carry_out L cfg W R (SendEnvelope t g m) s = (s', os)"
  shows "live_inv W clean sound {} (if frame_ok (encode_envelope W m) then ms(g := ms g @ [m]) else ms) inp fs s' \<and>
    codec_ok s' \<and> (\<forall>g. requests_on W g (did os) = [] \<and> link_data g os = [] \<and> frames_in g os = [])"
proof -
  from t(2) cok have g: "g < length (lc_links s)" "connected (fst (link_conn g s))" by (auto simp: codec_ok_def)
  note I = live_invD [OF inv]
  from g(2) show ?thesis
  proof (cases rule: codec_send_cases [where W = W and t = t and m = m])
    case (Refused err)
    obtain c' es where c': "client_step L (over_codec cfg) (SendSettled t (Some err)) (lc_client s) = (c', es)" by fastforce
    have same: "on_link g (\<lambda>l. l\<lparr>lk_conn := lk_conn (lc_links s ! g)\<rparr>) s = s"
      by (simp add: on_link_def)
    have s': "s' = s\<lparr>lc_client := c'\<rparr>" "os = map Did es"
      using out Refused c' by (simp_all add: carry_out_def same client_alone_def Let_def del: client_step.simps)
    have "connections c' = connections (lc_client s)" using settled_codec(4) [of L _ t "Some err" "lc_client s"] c' by (metis fst_conv)
    with s' have s'': "s' = s\<lparr>lc_client := c', lc_links := lc_links s @ replicate (connections c' - connections (lc_client s)) new_link\<rparr>"
      by simp
    from t(1) c' have "requests_on W g es = []" for g
      by (intro requests_on_off) (auto simp: sending_def send_settled_def leave_try_def off_wire_def)
    with client_keeps [OF inv c' _ _ _ s''] Refused free cok s'(2) show ?thesis by auto
  next
    case Header
    let ?l = "lc_links s ! g" and ?data = "encode_envelope W m"
    let ?f = "\<lambda>l. l\<lparr>lk_conn := (fst (lk_conn ?l), snd (lk_conn ?l) @ [SocketWrite t (writeUInt32BE (length ?data))]),
      lk_writers := lk_writers l @ [(t, SentHeader ?data)]\<rparr>"
    have s': "s' = on_link g ?f s" "os = []"
      using out Header g(1) by (auto simp: carry_out_def on_link_def Let_def)
    have lw: "lk_writers ?l = []" using free g by simp
    have "live_inv W clean sound {} (ms(g := ms g @ [m])) inp fs s'"
      unfolding s'
    proof (rule link_change [OF inv g(1)])
      show "link_out W ((ms(g := ms g @ [m])) g) (?f ?l)" if "clean g"
        using I(6) [OF g(1) that] g(2) lw by (simp add: link_out_def frames_bytes_def encode_frame_def)
      show "alone_at (sending (lc_client s)) lk_writers ((lc_links s)[g := ?f ?l])"
        using free lw t(1) by (intro alone_at_put) auto
      show "alone_at (receiving (lc_client s)) lk_readers ((lc_links s)[g := ?f ?l])" if sound
        by (rule alone_at_same [OF I(7) [OF that]]) simp
      show "link_in (inp g) (fs g) (?f ?l)" if sound
        by (rule link_in_log [OF I(8) [OF that g(1)]]) simp_all
    qed (use I(3) g in auto)
    moreover have "codec_ok s'"
      using cok g unfolding s' codec_ok_def on_link_def by (auto simp: nth_list_update)
    ultimately show ?thesis using Header s' by simp
  qed
qed

subsection \<open>Receiving\<close>

text \<open>A \<open>recv\<close> that waits, waits for its own call.\<close>

lemma recv_tokens:
  assumes "ic_recv (token_iconnection t) n c = (c', r)" "w \<in> set (waiters (fst c'))"
  shows "w \<in> set (waiters (fst c)) \<or> token w = t"
  using assms by (auto simp: provider_defs recv_def splice_def Let_def split: if_splits)

lemma recv_header_tokens:
  assumes "recv_header (token_iconnection t) h c = (c', r)" "w \<in> set (waiters (fst c'))"
  shows "w \<in> set (waiters (fst c)) \<or> token w = t"
proof -
  have "w \<in> set (waiters (fst c)) \<or> token w = t" if "recv_payload (ic_recv (token_iconnection t) n c) = (c', r)" for n
    using that assms(2) recv_tokens [of t n c _ _ w]
    by (cases "ic_recv (token_iconnection t) n c") (auto simp: recv_payload_def split: recv_result.splits)
  with assms show ?thesis by (auto simp: recv_header_def split: option.splits if_splits)
qed

lemma recvFrame_tokens:
  assumes "recvFrame (token_iconnection t) c = (c', r)" "w \<in> set (waiters (fst c'))"
  shows "w \<in> set (waiters (fst c)) \<or> token w = t"
proof -
  obtain c1 q where q: "ic_recv (token_iconnection t) 4 c = (c1, q)" by fastforce
  show ?thesis
    using assms q recv_tokens [OF q, of w] recv_header_tokens [of t _ c1 c' r w]
    by (auto simp: recvFrame_def split: recv_result.splits)
qed

lemma recvFrame_resume_tokens:
  assumes "recvFrame_resume (token_iconnection t) k a c = (c', r)" "w \<in> set (waiters (fst c'))"
  shows "w \<in> set (waiters (fst c)) \<or> token w = t"
  using assms recv_header_tokens [of t _ c c' r w] by (auto simp: recvFrame_resume_def split: sum.splits recv_point.splits)

text \<open>A reader that does not wait has nobody waiting.\<close>

lemma no_waiters:
  assumes "reader_inv unix_view hung inp fs r" "rd_point r = None"
  shows "waiters (fst (rd_conn r)) = []"
  using assms by (auto simp: reader_inv_def Let_def unix_view_def split: list.splits)

lemma codec_ok_change:
  assumes "codec_ok s" "connected (fst (lk_conn (f (lc_links s ! g)))) = connected (fst (link_conn g s))"
  shows "codec_ok (on_link g f s)"
proof (cases "g < length (lc_links s)")
  case True
  with assms show ?thesis unfolding codec_ok_def on_link_def by (auto simp: nth_list_update)
qed (use assms in \<open>simp add: codec_ok_def on_link_def not_less list_update_beyond\<close>)

lemma framed_notes [simp]:
  "did (map (Framed g t) fs) = []" "link_data g' (map (Framed g t) fs) = []"
  "frames_in g' (map (Framed g t) fs) = (if g' = g then fs else [])"
  by (induction fs) simp_all

lemma client_alone_keeps:
  assumes "live_inv W clean sound X ms inp fs s" "codec_ok s" "client_alone L cfg e s = (s', os)"
    and "e = RecvSettled t x" "sound \<Longrightarrow> \<forall>g < length (lc_links s). lk_readers (lc_links s ! g) = []"
  shows "live_inv W clean sound X ms inp fs s' \<and> codec_ok s' \<and>
    (\<forall>g. requests_on W g (did os) = [] \<and> link_data g os = [] \<and> frames_in g os = [])"
proof -
  obtain c' es where c': "client_step L (over_codec cfg) e (lc_client s) = (c', es)" by fastforce
  with assms(3) have s': "s' = s\<lparr>lc_client := c'\<rparr>" "os = map Did es" by (simp_all add: client_alone_def)
  have "connections c' = connections (lc_client s)"
    using settled_codec(2) [of L "over_codec cfg" t x "lc_client s"] c' assms(4) by (metis fst_conv)
  with s' have s'': "s' = s\<lparr>lc_client := c', lc_links := lc_links s @ replicate (connections c' - connections (lc_client s)) new_link\<rparr>"
    by simp
  have "list_all off_wire (snd (client_step L (over_codec cfg) e (lc_client s)))"
    using assms(4) by (auto simp: recv_settled_def leave_try_def off_wire_def split: option.splits phase.splits sum.splits)
  with c' have "requests_on W g es = []" for g by (simp add: requests_on_off)
  with client_keeps [OF assms(1) c' _ _ _ s''] assms(2,4,5) s'(2) show ?thesis by auto
qed

lemma recv_keeps:
  assumes inv: "live_inv W clean sound {g} ms inp fs s" and cok: "codec_ok s" and g: "g < length (lc_links s)"
    and c: "connected (fst (fst r)) = connected (fst (link_conn g s))" "onDisconnect (fst (fst r))"
      "written (snd (fst r)) = written (snd (link_conn g s))"
    and free: "sound \<Longrightarrow> receiving (lc_client s) t"
      "sound \<Longrightarrow> \<forall>g' < length (lc_links s). lk_readers (lc_links s ! g') = []"
    and rd: "sound \<Longrightarrow> single_reader (fst r) \<and> (\<forall>w \<in> set (waiters (fst (fst r))). token w = t) \<and>
      reader_inv unix_view (\<not> connected (fst (fst r))) (inp g) (fs g @ got_frames (snd (reader_note r))) (fst (reader_note r))"
    and out: "received L cfg R t g r s = (s', os)"
  shows "live_inv W clean sound {} ms inp (fs(g := fs g @ frames_in g os)) s' \<and> codec_ok s' \<and>
    (\<forall>g'. requests_on W g' (did os) = [] \<and> link_data g' os = [] \<and> (g' \<noteq> g \<longrightarrow> frames_in g' os = []))"
proof -
  note I = live_invD [OF inv]
  let ?l = "lc_links s ! g"
  obtain cn x where r: "r = (cn, x)" by fastforce
  have lo: "link_out W (ms g) (f ?l)" if "clean g" "lk_conn (f ?l) = cn" "lk_writers (f ?l) = lk_writers ?l" for f
    using I(6) [OF g that(1)] that(2,3) c by (simp add: link_out_def r)
  have aw: "alone_at (sending (lc_client s)) lk_writers ((lc_links s)[g := f ?l])" if "lk_writers (f ?l) = lk_writers ?l" for f
    using that by (intro alone_at_same [OF I(5)])
  show ?thesis
  proof (cases "\<exists>k. x = Blocked k")
    case True
    then obtain k where k: "x = Blocked k" by blast
    let ?f = "\<lambda>l. l\<lparr>lk_conn := cn, lk_readers := lk_readers l @ [(t, k)]\<rparr>"
    have s': "s' = on_link g ?f s" "os = []"
      using out r k g by (auto simp: received_def codec_received_def on_link_def Let_def)
    have "live_inv W clean sound {} ms inp fs s'"
      unfolding s'
    proof (rule link_change [OF inv g])
      show "alone_at (receiving (lc_client s)) lk_readers ((lc_links s)[g := ?f ?l])" if sound
        using free [OF that] g by (intro alone_at_put) auto
      show "link_in (inp g) (fs g) (?f ?l)" if sound
      proof -
        have "lk_readers ?l = []" using free(2) [OF that] g by simp
        with rd [OF that] r k show ?thesis
          by (auto simp: link_in_def link_reader_def reader_note_def intro!: exI [of _ False])
      qed
    qed (use lo [of ?f] aw [of ?f] c(2) r in auto)
    moreover have "codec_ok s'" unfolding s' by (rule codec_ok_change [OF cok]) (use c(1) r in simp)
    ultimately show ?thesis using s' by simp
  next
    case False
    let ?f = "\<lambda>l. l\<lparr>lk_conn := cn\<rparr>" and ?fs = "fs(g := fs g @ got_frames (snd (reader_note r)))"
    let ?s1 = "on_link g ?f s"
    have ok1: "live_inv W clean sound {} ms inp ?fs ?s1"
    proof (rule link_change [OF inv g])
      show "alone_at (receiving (lc_client s)) lk_readers ((lc_links s)[g := ?f ?l])" if sound
        by (intro alone_at_same [OF I(7) [OF that]]) simp
      show "link_in (inp g) (?fs g) (?f ?l)" if sound
      proof -
        have "lk_readers ?l = []" using free(2) [OF that] g by simp
        moreover obtain b where b: "fst (reader_note r) = \<lparr>rd_conn = cn, rd_point = None, rd_dead = b\<rparr>"
          using False r by (cases x) (auto simp: reader_note_def)
        moreover have "waiters (fst cn) = []"
          using no_waiters [of _ _ _ "fst (reader_note r)"] rd [OF that] b by auto
        ultimately show ?thesis using rd [OF that] r by (auto simp: link_in_def link_reader_def intro!: exI [of _ b])
      qed
    qed (use lo [of ?f] aw [of ?f] c(2) r in auto)
    have cok1: "codec_ok ?s1" by (rule codec_ok_change [OF cok]) (use c(1) r in simp)
    have free1: "\<forall>g' < length (lc_links ?s1). lk_readers (lc_links ?s1 ! g') = []" if sound
      using free(2) [OF that] g by (auto simp: on_link_def nth_list_update)
    have alone: ?thesis
      if "client_alone L cfg (RecvSettled t q) ?s1 = (s', os1)" "os = map (Framed g t) (got_frames (snd (reader_note r))) @ os1" for q os1
      using client_alone_keeps [OF ok1 cok1 that(1) refl free1] that(2) by auto
    show ?thesis
    proof (cases x)
      case (Got f)
      show ?thesis
      proof (cases "decode_envelope R f")
        case None
        with out r Got have "s' = ?s1" "os = [Framed g t f]" by (auto simp: received_def codec_received_def)
        with ok1 cok1 r Got show ?thesis by (simp add: reader_note_def)
      next
        case (Some q)
        obtain s2 os1 where a: "client_alone L cfg (RecvSettled t q) ?s1 = (s2, os1)" by fastforce
        with out r Got Some have "s' = s2" "os = Framed g t f # os1"
          by (cases q; simp add: received_def codec_received_def Let_def)+
        with alone [of q os1] a r Got show ?thesis by (simp add: reader_note_def)
      qed
    next
      case (Threw e)
      obtain s2 os1 where a: "client_alone L cfg (RecvSettled t (Inl e)) ?s1 = (s2, os1)" by fastforce
      with out r Threw have "s' = s2" "os = os1"
        by (simp_all add: received_def codec_received_def Let_def)
      with alone [of "Inl e" os1] a r Threw show ?thesis by (simp add: reader_note_def)
    qed (use False in simp)
  qed
qed

text \<open>While frames arrive, a reader stops only when its connection went down.\<close>

lemma live_reader:
  assumes "reader_inv view hung inp fs r" "frames_of inp hs" "rd_dead r"
  shows hung
proof (rule ccontr)
  assume "\<not> hung"
  with assms(1,3) obtain rest where rest: "inp = concat (map encode_frame fs) @ rest" "oversized_header rest"
    by (auto simp: reader_inv_def Let_def split: option.splits recv_point.splits)
  from assms(2) obtain later where hs: "list_all frame_ok hs" "inp @ later = concat (map encode_frame hs)"
    by (auto simp: frames_of_def)
  moreover from assms(1) have "list_all frame_ok fs" by (simp add: reader_inv_def)
  ultimately obtain hs' where hs': "hs = fs @ hs'" "rest @ later = concat (map encode_frame hs')"
    using encode_frames_prefix [of fs "rest @ later" hs] rest(1) by auto
  from oversized_not_frames [OF rest(2) hs'(2)] hs(1) hs'(1) show False by simp
qed

text \<open>The first part of \<open>recvFrame\<close>, for a call that awaits its reply.\<close>

lemma receive_keeps:
  assumes inv: "live_inv W clean sound {} ms inp fs s" and cok: "codec_ok s"
    and t: "receiving (lc_client s) t" "codec (lc_client s) = Some g"
    and free: "sound \<Longrightarrow> \<forall>g < length (lc_links s). lk_readers (lc_links s ! g) = []"
    and sound: "sound \<Longrightarrow> \<exists>hs. frames_of (inp g) hs"
    and out: "carry_out L cfg W R (RecvEnvelope t g) s = (s', os)"
  shows "live_inv W clean sound {} ms inp (fs(g := fs g @ frames_in g os)) s' \<and> codec_ok s' \<and>
    (\<forall>g'. requests_on W g' (did os) = [] \<and> link_data g' os = [] \<and> (g' \<noteq> g \<longrightarrow> frames_in g' os = []))"
proof -
  from t(2) cok have g: "g < length (lc_links s)" and up: "connected (fst (link_conn g s))" by (auto simp: codec_ok_def)
  note I = live_invD [OF inv]
  let ?c = "link_conn g s"
  obtain cn x where r: "recvFrame (token_iconnection t) ?c = (cn, x)" by fastforce
  note k = recvFrame_keeps [OF r]
  have rd: "single_reader cn \<and> (\<forall>w \<in> set (waiters (fst cn)). token w = t) \<and>
      reader_inv unix_view (\<not> connected (fst cn)) (inp g) (fs g @ got_frames (snd (reader_note (cn, x)))) (fst (reader_note (cn, x)))"
    if sound
  proof -
    have none: "lk_readers (lc_links s ! g) = []" using free [OF that] g by simp
    from I(8) [OF that g] obtain b where l: "single_reader ?c" "reader_inv unix_view False (inp g) (fs g) (link_reader (lc_links s ! g) b)"
      using up by (auto simp: link_in_def)
    have point: "rd_point (link_reader (lc_links s ! g) b) = None" "rd_conn (link_reader (lc_links s ! g) b) = ?c"
      "rd_dead (link_reader (lc_links s ! g) b) = b"
      by (simp_all add: link_reader_def none)
    have "\<not> b" using live_reader [OF l(2)] sound [OF that] point by auto
    with l(2) point have v: "s_want (unix_view ?c) = None" "list_all frame_ok (fs g)" "s_up (unix_view ?c) = (\<not> False)"
      "inp g = concat (map encode_frame (fs g)) @ s_buf (unix_view ?c)"
      by (auto simp: reader_inv_def Let_def)
    have w: "waiters (fst ?c) = []" using no_waiters [OF l(2)] point by simp
    have "single_reader (rd_conn (fst (reader_note (cn, x)))) \<and> reader_inv unix_view False (inp g)
        (fs g @ got_frames (snd (reader_note (cn, x)))) (fst (reader_note (cn, x)))"
      by (rule by_token.recvFrame_inv [OF l(1) v, of t]) (simp add: r)
    moreover have "rd_conn (fst (reader_note (cn, x))) = cn" by (cases x) (simp_all add: reader_note_def)
    moreover have "\<forall>w \<in> set (waiters (fst cn)). token w = t" using recvFrame_tokens [OF r] w by auto
    ultimately show ?thesis using k(1) up by simp
  qed
  show ?thesis
    by (rule recv_keeps [OF live_inv_weaken [OF inv] cok g, where r = "(cn, x)"])
      (use k I(3) [OF g] t(1) free rd out r in \<open>auto simp: carry_out_def\<close>)
qed

subsection \<open>Steps\<close>

definition log_inv ::
    "'w writer_ops \<Rightarrow> (nat \<Rightarrow> bool) \<Rightarrow> bool \<Rightarrow> nat set \<Rightarrow> 'r live_client_effect list \<Rightarrow> 'r live_client \<Rightarrow> bool" where
  "log_inv W clean sound X os s \<longleftrightarrow>
     live_inv W clean sound X (\<lambda>g. requests_on W g (did os)) (\<lambda>g. link_data g os) (\<lambda>g. frames_in g os) s"

text \<open>What arrived begins frames, on every connection.\<close>

definition framed_input :: "'r live_client_effect list \<Rightarrow> bool" where
  "framed_input os \<longleftrightarrow> (\<forall>g. \<exists>hs. frames_of (link_data g os) hs)"

lemma frames_of_prefix: "frames_of (xs @ ys) hs \<Longrightarrow> frames_of xs hs"
  by (auto simp: frames_of_def)

lemma framed_input_prefix: "framed_input (os @ os') \<Longrightarrow> framed_input os"
  unfolding framed_input_def link_data_simps using frames_of_prefix by metis

lemma log_inv_quiet:
  assumes "live_inv W clean sound X (\<lambda>g. requests_on W g (did os)) (\<lambda>g. link_data g os) (\<lambda>g. frames_in g os) s"
    and "\<And>g. requests_on W g (did os') = []" "\<And>g. link_data g os' = []" "\<And>g. frames_in g os' = []"
  shows "log_inv W clean sound X (os @ os') s"
  using assms by (simp add: log_inv_def)

lemma empty_append:
  "\<forall>g < length ls. f (ls ! g) = [] \<Longrightarrow> f l = [] \<Longrightarrow> \<forall>g < length (ls @ replicate n l). f ((ls @ replicate n l) ! g) = []"
  by (auto simp: nth_append)

lemma advance_quiet:
  assumes "client_step L (over_codec cfg) e (lc_client s) = (c, es)" "list_all off_wire es"
  shows "advance L cfg W R e s = (s\<lparr>lc_client := c,
    lc_links := lc_links s @ replicate (connections c - connections (lc_client s)) new_link\<rparr>, map Did es)"
  using assms by (simp add: advance_def off_wire_carried)

lemma quiet_keeps:
  assumes inv: "log_inv W clean sound X os s"
    and step: "client_step L (over_codec cfg) e (lc_client s) = (c, es)" "list_all off_wire es"
    and quiet: "\<And>t x. e = SendSettled t x \<Longrightarrow> \<forall>g < length (lc_links s). lk_writers (lc_links s ! g) = []"
      "\<And>t x. e \<noteq> RecvSettled t x" "\<And>t. sound \<Longrightarrow> e \<noteq> TimerFired t"
    and out: "advance L cfg W R e s = (s', os')"
  shows "log_inv W clean sound X (os @ os') s'" "codec_ok s \<Longrightarrow> codec_ok s'" "link_data g os' = []"
    "lc_client s' = c" "lc_links s' = lc_links s @ replicate (connections c - connections (lc_client s)) new_link"
    "frames_in g os' = []"
proof -
  have s': "s' = s\<lparr>lc_client := c, lc_links := lc_links s @ replicate (connections c - connections (lc_client s)) new_link\<rparr>"
    "os' = map Did es"
    using advance_quiet [OF step, of W R] out by simp_all
  note kept = client_keeps [OF inv [unfolded log_inv_def] step(1) _ _ _ s'(1)]
  have "live_inv W clean sound X (\<lambda>g. requests_on W g (did os)) (\<lambda>g. link_data g os) (\<lambda>g. frames_in g os) s'"
    using quiet by (intro kept(1)) auto
  then show "log_inv W clean sound X (os @ os') s'"
    by (rule log_inv_quiet) (simp_all add: s'(2) requests_on_off [OF step(2)])
  show "codec_ok s \<Longrightarrow> codec_ok s'" using quiet by (intro kept(2)) auto
qed (use advance_quiet [OF step, of W R] out in auto)

lemma advance_keeps:
  fixes s :: "'r live_client"
  assumes inv: "log_inv W clean sound {} os s" and cok: "codec_ok s"
    and quiet: "\<And>t x. e = SendSettled t x \<Longrightarrow> \<forall>g < length (lc_links s). lk_writers (lc_links s ! g) = []"
      "\<And>t x. e \<noteq> RecvSettled t x" "\<And>t. sound \<Longrightarrow> e \<noteq> TimerFired t"
    and sound: "sound \<Longrightarrow> framed_input os"
    and out: "advance L cfg W R e s = (s', os')"
  shows "log_inv W clean sound {} (os @ os') s' \<and> codec_ok s' \<and> (\<forall>g. link_data g os' = [])"
proof -
  let ?c = "lc_client s"
  let ?ms = "\<lambda>g. requests_on W g (did os)" and ?inp = "\<lambda>g. link_data g os" and ?fs = "\<lambda>g. frames_in g os"
  note I = live_invD [OF inv [unfolded log_inv_def]]
  obtain c es where step: "client_step L (over_codec cfg) e ?c = (c, es)" by fastforce
  let ?s1 = "s\<lparr>lc_client := c, lc_links := lc_links s @ replicate (connections c - connections ?c) new_link\<rparr>"
  obtain os1 where os1: "run_steps (carry_out L cfg W R) es ?s1 = (s', os1)" "os' = map Did es @ os1"
    using out step by (auto simp: advance_def Let_def split: prod.splits)
  have kept: "live_inv W clean sound {} ?ms ?inp ?fs ?s1" "codec_ok ?s1"
    using client_keeps [OF inv [unfolded log_inv_def] step _ _ _ refl] quiet cok by auto
  show ?thesis
  proof (cases rule: step_wire [of L "over_codec cfg" e ?c])
    case Quiet
    then have "list_all off_wire es" using step by simp
    note kept = quiet_keeps [OF inv step this _ quiet(2) _ out]
    show ?thesis using cok quiet(1,3) by (intro conjI allI kept(1-3)) auto
  next
    case (Sends t g m)
    have "lk_writers (lc_links s ! g') = []" if "g' < length (lc_links s)" for g'
    proof (rule ccontr)
      assume "lk_writers (lc_links s ! g') \<noteq> []"
      with alone_atD(1) [OF I(5) that] obtain t' where "sending ?c t'" by (metis list.set_intros(1) neq_Nil_conv surj_pair)
      with sending_receiving(1) [OF I(1)] Sends(3) show False by blast
    qed
    then have free: "\<forall>g < length (lc_links ?s1). lk_writers (lc_links ?s1 ! g) = []"
      using empty_append [of "lc_links s" lk_writers new_link] new_link_ok(4) by simp
    have es: "es = [SendEnvelope t g m]" using Sends(1) step by simp
    have carried: "carry_out L cfg W R (SendEnvelope t g m) ?s1 = (s', os1)"
      using os1(1) by (simp add: es split: prod.splits)
    have "sending (lc_client ?s1) t" "codec (lc_client ?s1) = Some g"
      using Sends(2,4) step by (auto simp: sending_def)
    note sent = send_keeps [OF kept this free carried]
    then have none: "requests_on W g' (did os1) = []" "link_data g' os1 = []" "frames_in g' os1 = []" for g' by auto
    have eq: "(if frame_ok (encode_envelope W m) then ?ms(g := ?ms g @ [m]) else ?ms) = (\<lambda>g. requests_on W g (did (os @ os')))"
      "?inp = (\<lambda>g. link_data g (os @ os'))" "?fs = (\<lambda>g. frames_in g (os @ os'))"
      by (auto simp: os1(2) es none)
    have "log_inv W clean sound {} (os @ os') s'"
      using conjunct1 [OF sent] unfolding log_inv_def eq .
    with sent none show ?thesis by (simp add: os1(2) es)
  next
    case (Receives t g ms)
    have "lk_readers (lc_links s ! g') = []" if "g' < length (lc_links s)" sound for g'
    proof (rule ccontr)
      assume "lk_readers (lc_links s ! g') \<noteq> []"
      with alone_atD(1) [OF I(7) [OF that(2)] that(1)] obtain t' where "receiving ?c t'"
        by (metis list.set_intros(1) neq_Nil_conv surj_pair)
      moreover have "sending ?c t" using Receives(5) by (auto simp: sending_def)
      ultimately show False using sending_receiving(2) [OF I(1)] by blast
    qed
    then have free: "sound \<Longrightarrow> \<forall>g < length (lc_links ?s1). lk_readers (lc_links ?s1 ! g) = []"
      using empty_append [of "lc_links s" lk_readers new_link] new_link_ok(3) by simp
    have es: "es = [RecvEnvelope t g, StartTimer t ms]" using Receives(2) step by simp
    have "carry_out L cfg W R (StartTimer t ms) s2 = (s2, [])" for s2 :: "'r live_client" by (simp add: carry_out_def)
    then have carried: "carry_out L cfg W R (RecvEnvelope t g) ?s1 = (s', os1)"
      using os1(1) by (simp add: es split: prod.splits)
    have "receiving (lc_client ?s1) t" "codec (lc_client ?s1) = Some g"
      using Receives(3,4) step by (auto simp: receiving_def)
    note received = receive_keeps [OF kept this free _ carried]
    have got: "live_inv W clean sound {} ?ms ?inp (?fs(g := ?fs g @ frames_in g os1)) s' \<and> codec_ok s' \<and>
      (\<forall>g'. requests_on W g' (did os1) = [] \<and> link_data g' os1 = [] \<and> (g' \<noteq> g \<longrightarrow> frames_in g' os1 = []))"
      by (rule received) (use sound in \<open>auto simp: framed_input_def\<close>)
    then have none: "requests_on W g' (did os1) = []" "link_data g' os1 = []" "g' \<noteq> g \<Longrightarrow> frames_in g' os1 = []" for g' by auto
    have "requests_on W g' (RecvEnvelope t g # StartTimer t ms # did os1) = requests_on W g' (did os1)" for g'
      by (simp add: requests_on_def)
    with none have eq: "?ms = (\<lambda>g. requests_on W g (did (os @ os')))" "?inp = (\<lambda>g. link_data g (os @ os'))"
      "?fs(g := ?fs g @ frames_in g os1) = (\<lambda>g. frames_in g (os @ os'))" by (auto simp: os1(2) es)
    have "log_inv W clean sound {} (os @ os') s'" using conjunct1 [OF got] unfolding log_inv_def eq .
    with got none show ?thesis by (simp add: os1(2) es)
  qed
qed

lemma advance_change_keeps:
  assumes inv: "log_inv W clean sound {} os s" and cok: "codec_ok s" and g: "g < length (lc_links s)"
    and wr: "lk_writers (lc_links s ! g) = [(t, k)]"
    and f: "lk_writers (f (lc_links s ! g)) = []" "lk_readers (f (lc_links s ! g)) = lk_readers (lc_links s ! g)"
      "fst (lk_conn (f (lc_links s ! g))) = fst (link_conn g s)"
    and clean: "\<And>g. clean' g \<Longrightarrow> clean g" "clean' g \<Longrightarrow> link_out W (requests_on W g (did os)) (f (lc_links s ! g))"
    and sound: "sound \<Longrightarrow> framed_input os"
    and out: "advance L cfg W R (SendSettled t' x) (on_link g f s) = (s', os')"
  shows "log_inv W clean' sound {} (os @ os') s' \<and> codec_ok s' \<and> (\<forall>g. link_data g os' = [])"
proof -
  note I = live_invD [OF inv [unfolded log_inv_def]]
  have others: "lk_writers (lc_links s ! g') = []" if "g' < length (lc_links s)" "g' \<noteq> g" for g'
    using alone_atD(3) [OF I(5) g _ that, of t k] wr by simp
  have "log_inv W clean' sound {} os (on_link g f s)"
    unfolding log_inv_def
  proof (rule link_change [OF inv [unfolded log_inv_def] g])
    show "alone_at (sending (lc_client s)) lk_writers ((lc_links s)[g := f (lc_links s ! g)])"
      using others f(1) by (intro alone_at_put) auto
    show "alone_at (receiving (lc_client s)) lk_readers ((lc_links s)[g := f (lc_links s ! g)])" if sound
      by (rule alone_at_same [OF I(7) [OF that]]) (simp add: f)
    show "link_in (link_data g os) (frames_in g os) (f (lc_links s ! g))" if sound
      by (rule link_in_log [OF I(8) [OF that g]]) (simp_all add: f)
  qed (use I(3) [OF g] f clean in auto)
  moreover have "codec_ok (on_link g f s)" by (rule codec_ok_change [OF cok]) (simp add: f)
  moreover have "\<forall>g' < length (lc_links (on_link g f s)). lk_writers (lc_links (on_link g f s) ! g') = []"
  proof (intro allI impI)
    fix g' assume "g' < length (lc_links (on_link g f s))"
    then show "lk_writers (lc_links (on_link g f s) ! g') = []"
      using others [of g'] f(1) g by (cases "g' = g") simp_all
  qed
  ultimately show ?thesis using sound by (intro advance_keeps [OF _ _ _ _ _ _ out]) auto
qed

lemma wrote_keeps:
  assumes inv: "log_inv W clean sound {} os s" and cok: "codec_ok s" and g: "g < length (lc_links s)"
    and k: "map_of (lk_writers (lc_links s ! g)) t = Some k"
    and clean: "\<And>g. clean' g \<Longrightarrow> clean g" "clean' g \<Longrightarrow> err = None"
    and sound: "sound \<Longrightarrow> framed_input os"
    and out: "wrote L cfg W R g t k err s = (s', os')"
  shows "log_inv W clean' sound {} (os @ os') s' \<and> codec_ok s' \<and> (\<forall>g. link_data g os' = [])"
proof -
  note I = live_invD [OF inv [unfolded log_inv_def]]
  let ?l = "lc_links s ! g"
  have wr: "lk_writers ?l = [(t, k)]" using alone_atD(2) [OF I(5) g] map_of_SomeD [OF k] by blast
  have lo: "link_out W (requests_on W g (did os)) ?l" if "clean' g" using I(6) [OF g] clean(1) that by blast
  have filt: "filter (\<lambda>(t', k). t' \<noteq> t) (lk_writers ?l) = []" by (simp add: wr)
  show ?thesis
  proof (cases rule: codec_resume_cases [of t k "map_option wrap_errno err" "link_conn g s"])
    case (Failed e c')
    let ?f = "\<lambda>l. l\<lparr>lk_conn := c', lk_writers := filter (\<lambda>(t', k). t' \<noteq> t) (lk_writers l)\<rparr>"
    have "advance L cfg W R (SendSettled t (Some e)) (on_link g ?f s) = (s', os')"
      using out Failed(1) by (simp add: wrote_def)
    moreover have "link_out W (requests_on W g (did os)) (?f ?l)" if "clean' g"
      using lo [OF that] clean(2) [OF that] Failed by (simp add: link_out_def)
    ultimately show ?thesis
      by (intro advance_change_keeps [OF inv cok g wr _ _ _ clean(1) _ sound]) (simp_all add: filt Failed)
  next
    case Empty
    let ?f = "\<lambda>l. l\<lparr>lk_conn := link_conn g s, lk_writers := filter (\<lambda>(t', k). t' \<noteq> t) (lk_writers l)\<rparr>"
    have "advance L cfg W R (SendSettled t None) (on_link g ?f s) = (s', os')"
      using out Empty(1) by (simp add: wrote_def)
    moreover have "link_out W (requests_on W g (did os)) (?f ?l)" if "clean' g"
      using lo [OF that] Empty by (cases "connected (fst (link_conn g s))") (simp_all add: link_out_def wr)
    ultimately show ?thesis
      by (intro advance_change_keeps [OF inv cok g wr _ _ _ clean(1) _ sound]) (simp_all add: filt)
  next
    case Whole
    let ?f = "\<lambda>l. l\<lparr>lk_conn := link_conn g s, lk_writers := filter (\<lambda>(t', k). t' \<noteq> t) (lk_writers l)\<rparr>"
    have "advance L cfg W R (SendSettled t None) (on_link g ?f s) = (s', os')"
      using out Whole(1) by (simp add: wrote_def)
    moreover have "link_out W (requests_on W g (did os)) (?f ?l)" if "clean' g"
      using lo [OF that] Whole by (cases "connected (fst (link_conn g s))") (simp_all add: link_out_def wr)
    ultimately show ?thesis
      by (intro advance_change_keeps [OF inv cok g wr _ _ _ clean(1) _ sound]) (simp_all add: filt)
  next
    case (Body data)
    let ?f = "\<lambda>l. l\<lparr>lk_conn := (fst (link_conn g s), snd (link_conn g s) @ [SocketWrite t data]), lk_writers := [(t, SentBody)]\<rparr>"
    have s': "s' = on_link g ?f s" "os' = []"
      using out Body(1) g filt by (auto simp: wrote_def on_link_def Let_def)
    have "log_inv W clean' sound {} os s'"
      unfolding log_inv_def s'
    proof (rule link_change [OF inv [unfolded log_inv_def] g])
      show "link_out W (requests_on W g (did os)) (?f ?l)" if "clean' g"
        using lo [OF that] Body by (simp add: link_out_def wr)
      show "alone_at (sending (lc_client s)) lk_writers ((lc_links s)[g := ?f ?l])"
      proof (rule alone_at_put)
        show "lk_writers (lc_links s ! g') = []" if "g' < length (lc_links s)" "g' \<noteq> g" for g'
          using alone_atD(3) [OF I(5) g _ that, of t k] wr by simp
        show "lk_writers (?f ?l) = [] \<or> (\<exists>t k. lk_writers (?f ?l) = [(t, k)] \<and> sending (lc_client s) t)"
          using alone_atD(1) [OF I(5) g, of t k] wr by simp
      qed
      show "alone_at (receiving (lc_client s)) lk_readers ((lc_links s)[g := ?f ?l])" if sound
        by (rule alone_at_same [OF I(7) [OF that]]) simp
      show "link_in (link_data g os) (frames_in g os) (?f ?l)" if sound
        by (rule link_in_log [OF I(8) [OF that g]]) simp_all
    qed (use I(3) [OF g] clean in auto)
    moreover have "codec_ok s'" unfolding s' by (rule codec_ok_change [OF cok]) simp
    ultimately show ?thesis by (simp add: s')
  qed
qed

subsection \<open>Socket events\<close>

text \<open>What a chunk does to a connection with at most one reader.\<close>

lemma link_arrives:
  assumes l: "link_in inp fs l" "length (lk_readers l) \<le> 1" and d: "on_data d (fst (lk_conn l)) = (c, es)"
  obtains (Stored) "es = []" "link_in (inp @ d) fs (l\<lparr>lk_conn := (c, snd (lk_conn l) @ es)\<rparr>)"
    | (Served) t k bs where "es = [Resolve t bs]" "lk_readers l = [(t, k)]"
        "\<And>cn x. recvFrame_resume (token_iconnection t) k (Inr bs) (c, snd (lk_conn l) @ es) = (cn, x) \<Longrightarrow>
          single_reader cn \<and> (\<forall>w \<in> set (waiters (fst cn)). token w = t) \<and>
          reader_inv unix_view (\<not> connected (fst cn)) (inp @ d) (fs @ got_frames (snd (reader_note (cn, x))))
            (fst (reader_note (cn, x)))"
proof -
  let ?hung = "\<not> connected (fst (lk_conn l))" and ?cn = "(c, snd (lk_conn l) @ es)"
  from l(1) obtain b where b: "single_reader (lk_conn l)" "reader_inv unix_view ?hung inp fs (link_reader l b)"
    "\<forall>w \<in> set (waiters (fst (lk_conn l))). token w \<in> fst ` set (lk_readers l)"
    by (auto simp: link_in_def)
  have conn: "rd_conn (link_reader l b) = lk_conn l" by (simp add: link_reader_def)
  have se: "se_arrive unix_events d (lk_conn l) = (?cn, settlement_of es)" using d by (simp add: unix_events_def logged_def)
  note settle = by_token.reader_settle_inv [of "link_reader l b" ?hung inp fs _ d, unfolded conn, OF b(1,2)]
  have up: "connected c = connected (fst (lk_conn l))" using drain_connected [of _ c es] d by (simp add: on_data_def)
  have single: "length (waiters (fst (lk_conn l))) \<le> 1" using b(1) by (simp add: single_reader_def)
  show ?thesis
  proof (cases "lk_readers l")
    case Nil
    then have "waiters (fst (lk_conn l)) = []" using b(3) by auto
    then have es: "es = []" "waiters c = []" using d by (auto simp: on_data_def)
    have "reader_settle (token_iconnection 0) (se_arrive unix_events d (lk_conn l)) (link_reader l b)
        = ((link_reader l b)\<lparr>rd_conn := ?cn\<rparr>, [])" by (simp add: se es reader_settle_def settlement_of_def)
    from settle [OF this] up es Nil have "link_in (inp @ d) fs (l\<lparr>lk_conn := ?cn\<rparr>)"
      by (auto simp: link_in_def link_reader_def intro!: exI [of _ b])
    with es(1) show ?thesis by (rule Stored)
  next
    case (Cons r rs)
    with l(2) obtain t k where r: "lk_readers l = [(t, k)]" by (cases r) auto
    then have "rd_point (link_reader l b) = Some k" by (simp add: link_reader_def)
    with b(2) obtain n where "s_want (unix_view (lk_conn l)) = Some n"
      by (cases k) (auto simp: reader_inv_def Let_def conn)
    with single obtain w where w: "waiters (fst (lk_conn l)) = [w]"
      by (cases "waiters (fst (lk_conn l))") (auto simp: unix_view_def)
    with b(3) r have tok: "token w = t" by simp
    let ?u = "(fst (lk_conn l))\<lparr>buffer := buffer (fst (lk_conn l)) @ d\<rparr>"
    have u: "waiters ?u = [w]" using w by simp
    show ?thesis
    proof (cases "length (buffer ?u) < need w")
      case True
      then have es: "es = []" "waiters c = [w]" using d drain_single [OF u] u by (auto simp: on_data_def)
      have "reader_settle (token_iconnection 0) (se_arrive unix_events d (lk_conn l)) (link_reader l b)
          = ((link_reader l b)\<lparr>rd_conn := ?cn\<rparr>, [])" by (simp add: se es reader_settle_def settlement_of_def)
      from settle [OF this] up es r tok have "link_in (inp @ d) fs (l\<lparr>lk_conn := ?cn\<rparr>)"
        by (auto simp: link_in_def link_reader_def intro!: exI [of _ b])
      with es(1) show ?thesis by (rule Stored)
    next
      case False
      then obtain bs where es: "es = [Resolve t bs]" "waiters c = []"
        using d drain_single [OF u] tok by (auto simp: on_data_def)
      have "reader_settle (token_iconnection t) (se_arrive unix_events d (lk_conn l)) (link_reader l b)
          = reader_note (recvFrame_resume (token_iconnection t) k (Inr bs) ?cn)"
        by (simp add: se es reader_settle_def settlement_of_def link_reader_def r)
      note s' = settle [of t, unfolded this]
      show ?thesis
      proof (rule Served [OF es(1) r])
        fix cn x assume cn: "recvFrame_resume (token_iconnection t) k (Inr bs) ?cn = (cn, x)"
        have "rd_conn (fst (reader_note (cn, x))) = cn" by (cases x) (simp_all add: reader_note_def)
        moreover have "\<forall>w \<in> set (waiters (fst cn)). token w = t"
          using recvFrame_resume_tokens [OF cn] es(2) by auto
        ultimately show "single_reader cn \<and> (\<forall>w \<in> set (waiters (fst cn)). token w = t) \<and>
          reader_inv unix_view (\<not> connected (fst cn)) (inp @ d) (fs @ got_frames (snd (reader_note (cn, x)))) (fst (reader_note (cn, x)))"
          using s' [of "fst (reader_note (cn, x))" "snd (reader_note (cn, x))"] cn recvFrame_resume_keeps(1) [OF cn] up by simp
      qed
    qed
  qed
qed

text \<open>What \<open>close\<close> and \<open>error\<close> do to it.\<close>

lemma link_hangs:
  assumes l: "link_in inp fs l" "length (lk_readers l) \<le> 1" "onDisconnect (fst (lk_conn l))"
    and d: "fail_waiters e (fst (lk_conn l)) = (c, es)"
  obtains (Idle) "es = [CallOnDisconnect]" "link_in inp fs (l\<lparr>lk_conn := (c, snd (lk_conn l) @ es)\<rparr>)"
    | (Rejected) t k where "es = [Reject t e, CallOnDisconnect]" "lk_readers l = [(t, k)]"
        "\<And>cn x. recvFrame_resume (token_iconnection t) k (Inl e) (c, snd (lk_conn l) @ es) = (cn, x) \<Longrightarrow>
          single_reader cn \<and> (\<forall>w \<in> set (waiters (fst cn)). token w = t) \<and>
          reader_inv unix_view (\<not> connected (fst cn)) inp (fs @ got_frames (snd (reader_note (cn, x)))) (fst (reader_note (cn, x)))"
proof -
  let ?hung = "\<not> connected (fst (lk_conn l))" and ?cn = "(c, snd (lk_conn l) @ es)"
  from l(1) obtain b where b: "single_reader (lk_conn l)" "reader_inv unix_view ?hung inp fs (link_reader l b)"
    "\<forall>w \<in> set (waiters (fst (lk_conn l))). token w \<in> fst ` set (lk_readers l)"
    by (auto simp: link_in_def)
  have conn: "rd_conn (link_reader l b) = lk_conn l" by (simp add: link_reader_def)
  have se: "se_hangup unix_events e (lk_conn l) = (?cn, settlement_of es)" using d by (simp add: unix_events_def logged_def)
  note settle = by_token.reader_hangup_inv [of "link_reader l b" ?hung inp fs _ e, unfolded conn, OF b(1,2)]
  have c: "\<not> connected c" "waiters c = []" and es: "es = map (\<lambda>w. Reject (token w) e) (waiters (fst (lk_conn l))) @ [CallOnDisconnect]"
    using d l(3) by (auto simp: fail_waiters_def)
  show ?thesis
  proof (cases "lk_readers l")
    case Nil
    then have es': "es = [CallOnDisconnect]" using b(3) es by auto
    have "reader_settle (token_iconnection 0) (se_hangup unix_events e (lk_conn l)) (link_reader l b)
        = ((link_reader l b)\<lparr>rd_conn := ?cn\<rparr>, [])" by (simp add: se es' reader_settle_def settlement_of_def)
    from settle [OF this] c Nil have "link_in inp fs (l\<lparr>lk_conn := ?cn\<rparr>)"
      by (auto simp: link_in_def link_reader_def intro!: exI [of _ b])
    with es' show ?thesis by (rule Idle)
  next
    case (Cons r rs)
    with l(2) obtain t k where r: "lk_readers l = [(t, k)]" by (cases r) auto
    then have "rd_point (link_reader l b) = Some k" by (simp add: link_reader_def)
    with b(2) obtain n where "s_want (unix_view (lk_conn l)) = Some n"
      by (cases k) (auto simp: reader_inv_def Let_def conn)
    moreover have "length (waiters (fst (lk_conn l))) \<le> 1" using b(1) by (simp add: single_reader_def)
    ultimately obtain w where w: "waiters (fst (lk_conn l)) = [w]"
      by (cases "waiters (fst (lk_conn l))") (auto simp: unix_view_def)
    with b(3) r have es': "es = [Reject t e, CallOnDisconnect]" using es by simp
    have "reader_settle (token_iconnection t) (se_hangup unix_events e (lk_conn l)) (link_reader l b)
        = reader_note (recvFrame_resume (token_iconnection t) k (Inl e) ?cn)"
      by (simp add: se es' reader_settle_def settlement_of_def link_reader_def r)
    note s' = settle [of t, unfolded this]
    show ?thesis
    proof (rule Rejected [OF es' r])
      fix cn x assume cn: "recvFrame_resume (token_iconnection t) k (Inl e) ?cn = (cn, x)"
      have "rd_conn (fst (reader_note (cn, x))) = cn" by (cases x) (simp_all add: reader_note_def)
      moreover have "\<forall>w \<in> set (waiters (fst cn)). token w = t"
        using recvFrame_resume_tokens [OF cn] c(2) by auto
      ultimately show "single_reader cn \<and> (\<forall>w \<in> set (waiters (fst cn)). token w = t) \<and>
        reader_inv unix_view (\<not> connected (fst cn)) inp (fs @ got_frames (snd (reader_note (cn, x)))) (fst (reader_note (cn, x)))"
        using s' [of "fst (reader_note (cn, x))" "snd (reader_note (cn, x))"] cn recvFrame_resume_keeps(1) [OF cn] c(1) by simp
    qed
  qed
qed

lemma received_links [simp]: "length (lc_links (fst (received L cfg R t g r s))) = length (lc_links s)"
  by (auto simp: received_def client_alone_def Let_def split_def split: codec_outcome.split)

lemma resume_reader_links [simp]: "length (lc_links (fst (resume_reader L cfg R g t r s))) = length (lc_links s)"
  by (simp add: resume_reader_def split: option.split)

lemma resume_reader_keeps:
  assumes inv: "log_inv W clean sound {g} os s" and cok: "codec_ok s" and g: "g < length (lc_links s)"
    and rd: "sound \<Longrightarrow> \<exists>k. lk_readers (lc_links s ! g) = [(t, k)] \<and>
      (\<forall>cn x. recvFrame_resume (token_iconnection t) k r (link_conn g s) = (cn, x) \<longrightarrow>
        single_reader cn \<and> (\<forall>w \<in> set (waiters (fst cn)). token w = t) \<and>
        reader_inv unix_view (\<not> connected (fst cn)) (link_data g os) (frames_in g os @ got_frames (snd (reader_note (cn, x))))
          (fst (reader_note (cn, x))))"
    and out: "resume_reader L cfg R g t r s = (s', os')"
  shows "log_inv W clean sound {} (os @ os') s' \<and> codec_ok s' \<and> (\<forall>g. link_data g os' = [])"
proof (cases "map_of (lk_readers (lc_links s ! g)) t")
  case None
  with rd have "\<not> sound" by auto
  moreover from None out have "s' = s" "os' = []" by (simp_all add: resume_reader_def)
  ultimately show ?thesis using inv cok by (simp add: log_inv_def live_inv_def)
next
  case (Some k)
  note I = live_invD [OF inv [unfolded log_inv_def]]
  let ?f = "\<lambda>l. l\<lparr>lk_readers := filter (\<lambda>(t', k). t' \<noteq> t) (lk_readers l)\<rparr>"
  let ?s1 = "on_link g ?f s" and ?l = "lc_links s ! g"
  obtain cn x where cn: "recvFrame_resume (token_iconnection t) k r (link_conn g s) = (cn, x)" by fastforce
  note keeps = recvFrame_resume_keeps [OF cn]
  have single: "lk_readers ?l = [(t, k)]" if sound using rd [OF that] Some by (auto split: if_splits)
  have free: "\<forall>g' < length (lc_links ?s1). lk_readers (lc_links ?s1 ! g') = []" if sound
  proof (intro allI impI)
    fix g' assume g': "g' < length (lc_links ?s1)"
    show "lk_readers (lc_links ?s1 ! g') = []"
    proof (cases "g' = g")
      case False
      with g' show ?thesis using alone_atD(3) [OF I(7) [OF that] g, of t k g'] single [OF that] by simp
    qed (use g single [OF that] in simp)
  qed
  have rd': "single_reader cn \<and> (\<forall>w \<in> set (waiters (fst cn)). token w = t) \<and>
      reader_inv unix_view (\<not> connected (fst cn)) (link_data g os) (frames_in g os @ got_frames (snd (reader_note (cn, x))))
        (fst (reader_note (cn, x)))" if sound
  proof -
    from rd [OF that] obtain k' where k': "lk_readers ?l = [(t, k')]"
      "\<forall>cn x. recvFrame_resume (token_iconnection t) k' r (link_conn g s) = (cn, x) \<longrightarrow>
        single_reader cn \<and> (\<forall>w \<in> set (waiters (fst cn)). token w = t) \<and>
        reader_inv unix_view (\<not> connected (fst cn)) (link_data g os) (frames_in g os @ got_frames (snd (reader_note (cn, x))))
          (fst (reader_note (cn, x)))" by blast
    with single [OF that] have "k' = k" by simp
    from k'(2) [unfolded this] cn show ?thesis by blast
  qed
  have ok1: "live_inv W clean sound {g} (\<lambda>g. requests_on W g (did os)) (\<lambda>g. link_data g os) (\<lambda>g. frames_in g os) ?s1"
  proof (rule link_change [OF inv [unfolded log_inv_def] g])
    show "link_out W (requests_on W g (did os)) (?f ?l)" if "clean g"
      using I(6) [OF g that] by (simp add: link_out_def)
    show "alone_at (sending (lc_client s)) lk_writers ((lc_links s)[g := ?f ?l])"
      by (rule alone_at_same [OF I(5)]) simp
    show "alone_at (receiving (lc_client s)) lk_readers ((lc_links s)[g := ?f ?l])" if sound
      using free [OF that] unfolding on_link_def by (intro alone_at_empty) simp
  qed (use I(3) [OF g] in auto)
  have cok1: "codec_ok ?s1" by (rule codec_ok_change [OF cok]) simp
  have out': "received L cfg R t g (cn, x) ?s1 = (s', os')"
    using out Some cn by (simp add: resume_reader_def)
  have "live_inv W clean sound {} (\<lambda>g. requests_on W g (did os)) (\<lambda>g. link_data g os)
      ((\<lambda>g. frames_in g os)(g := frames_in g os @ frames_in g os')) s' \<and> codec_ok s' \<and>
    (\<forall>g'. requests_on W g' (did os') = [] \<and> link_data g' os' = [] \<and> (g' \<noteq> g \<longrightarrow> frames_in g' os' = []))"
  proof (rule recv_keeps [OF ok1 cok1 _ _ _ _ _ free _ out'])
    show "receiving (lc_client ?s1) t" if sound
      using alone_atD(1) [OF I(7) [OF that] g, of t k] single [OF that] by simp
  qed (use keeps I(3) [OF g] g rd' in simp_all)
  then have got: "live_inv W clean sound {} (\<lambda>g. requests_on W g (did os)) (\<lambda>g. link_data g os)
      ((\<lambda>g. frames_in g os)(g := frames_in g os @ frames_in g os')) s'" "codec_ok s'"
    and none: "requests_on W g' (did os') = []" "link_data g' os' = []" "g' \<noteq> g \<Longrightarrow> frames_in g' os' = []" for g'
    by auto
  have eq: "(\<lambda>g. requests_on W g (did os)) = (\<lambda>g. requests_on W g (did (os @ os')))" "(\<lambda>g. link_data g os) = (\<lambda>g. link_data g (os @ os'))"
    "(\<lambda>g. frames_in g os)(g := frames_in g os @ frames_in g os') = (\<lambda>g. frames_in g (os @ os'))"
    using none by auto
  have "log_inv W clean sound {} (os @ os') s'" using got(1) unfolding log_inv_def eq .
  with got(2) none show ?thesis by simp
qed

lemma log_inv_unsound: "\<not> sound \<Longrightarrow> log_inv W clean sound X os s = log_inv W clean sound {} os s"
  by (simp add: log_inv_def live_inv_def)

lemma resume_list_unsound:
  assumes "log_inv W clean sound {} os s" "\<not> sound" "codec_ok s" "g < length (lc_links s)"
    and "\<forall>e \<in> set es. \<exists>t r. e = Resolve t r \<or> e = Reject t x" "run_steps (resume L cfg W R g) es s = (s', os')"
  shows "log_inv W clean sound {} (os @ os') s' \<and> codec_ok s' \<and> (\<forall>g. link_data g os' = [])"
  using assms(1,3-6)
proof (induction es arbitrary: s s' os os')
  case (Cons e es)
  obtain s1 os1 where s1: "resume L cfg W R g e s = (s1, os1)" by fastforce
  obtain s2 os2 where s2: "run_steps (resume L cfg W R g) es s1 = (s2, os2)" by fastforce
  from Cons.prems(4) obtain t r where r: "resume_reader L cfg R g t r s = (s1, os1)"
    using s1 by (auto simp: resume_def)
  have "log_inv W clean sound {g} os s" using log_inv_unsound [OF assms(2)] Cons.prems(1) by blast
  from resume_reader_keeps [OF this Cons.prems(2,3) _ r] assms(2)
  have ok: "log_inv W clean sound {} (os @ os1) s1" "codec_ok s1" "\<forall>g. link_data g os1 = []" by auto
  have "g < length (lc_links s1)" using resume_reader_links [of L cfg R g t r s] r Cons.prems(3) by simp
  from Cons.IH [OF ok(1,2) this _ s2] Cons.prems(4,5) s1 s2 ok(3) show ?case by auto
qed simp

text \<open>A socket handler has run: what is left is to resume who awaits a promise it settled.\<close>

lemma handled:
  assumes inv: "log_inv W clean sound {} os s" and g: "g < length (lc_links s)"
    and c: "onDisconnect c" "connected c \<Longrightarrow> connected (fst (link_conn g s))" "written es = []"
    and inp: "\<And>g'. requests_on W g' (did os') = [] \<and> frames_in g' os' = [] \<and> (g' \<noteq> g \<longrightarrow> link_data g' os' = [])"
    and inn: "sound \<Longrightarrow> g \<notin> X \<Longrightarrow> link_in (link_data g (os @ os')) (frames_in g os)
      ((lc_links s ! g)\<lparr>lk_conn := (c, snd (link_conn g s) @ es)\<rparr>)"
  shows "log_inv W clean sound X (os @ os') (on_link g (\<lambda>l. l\<lparr>lk_conn := (c, snd (lk_conn l) @ es)\<rparr>) s)"
  unfolding log_inv_def
proof (rule link_change [OF inv [unfolded log_inv_def] g])
  note I = live_invD [OF inv [unfolded log_inv_def]]
  let ?l = "lc_links s ! g" and ?f = "\<lambda>l. l\<lparr>lk_conn := (c, snd (lk_conn l) @ es)\<rparr>"
  show "link_out W (requests_on W g (did (os @ os'))) (?f ?l)" if "clean g"
    using I(6) [OF g that] c(2) inp by (auto simp: link_out_def c(3) split: if_splits)
  show "alone_at (sending (lc_client s)) lk_writers ((lc_links s)[g := ?f ?l])" by (rule alone_at_same [OF I(5)]) simp
  show "alone_at (receiving (lc_client s)) lk_readers ((lc_links s)[g := ?f ?l])" if sound
    by (rule alone_at_same [OF I(7) [OF that]]) simp
qed (use c(1) inp inn in auto)

lemma one_reader: "alone_at p lk_readers ls \<Longrightarrow> g < length ls \<Longrightarrow> length (lk_readers (ls ! g)) \<le> 1"
  by (auto simp: alone_at_def)

lemma data_keeps:
  assumes inv: "log_inv W clean sound {} os s" and cok: "codec_ok s" and g: "g < length (lc_links s)"
    and out: "socket_event L cfg W R g (on_data d) s = (s', os')"
  shows "log_inv W clean sound {} (os @ Arrived g d # os') s' \<and> codec_ok s'"
proof -
  note I = live_invD [OF inv [unfolded log_inv_def]]
  let ?l = "lc_links s ! g"
  obtain c es where d: "on_data d (fst (link_conn g s)) = (c, es)" by fastforce
  let ?f = "\<lambda>l. l\<lparr>lk_conn := (c, snd (lk_conn l) @ es)\<rparr>"
  let ?s1 = "on_link g ?f s" and ?os = "os @ [Arrived g d]"
  have up: "connected c = connected (fst (link_conn g s))" "onDisconnect c = onDisconnect (fst (link_conn g s))"
    using drain_connected [of _ c es] drain_callback [of _ c es] d by (simp_all add: on_data_def)
  have es: "\<forall>e \<in> set es. \<exists>t bs. e = Resolve t bs"
    using drain_fifo [of _ c es] d by (fastforce simp: on_data_def list_all2_conv_all_nth in_set_conv_nth)
  then have "filter (\<lambda>e. e = CallOnDisconnect) es = []" "filter (\<lambda>e. e \<noteq> CallOnDisconnect) es = es" "written es = []"
    by (induction es) auto
  then have turn: "by_turn es = es" "written es = []" by (simp_all add: by_turn_def)
  have run: "run_steps (resume L cfg W R g) es ?s1 = (s', os')"
    using out g d by (simp add: socket_event_def turn)
  have base: "log_inv W clean sound X ?os ?s1"
    if "sound \<Longrightarrow> g \<notin> X \<Longrightarrow> link_in (link_data g os @ d) (frames_in g os) (?f ?l)" for X
    using handled [OF inv g, of c es "[Arrived g d]" X] I(3) [OF g] up turn that by simp
  have cok1: "codec_ok ?s1" by (rule codec_ok_change [OF cok]) (simp add: up)
  have g1: "g < length (lc_links ?s1)" using g by simp
  have "log_inv W clean sound {} (?os @ os') s' \<and> codec_ok s'"
  proof (cases sound)
    case False
    have "\<forall>e \<in> set es. \<exists>t r. e = Resolve t r \<or> e = Reject t connection_closed" using es by blast
    from resume_list_unsound [OF base False cok1 g1 this run] False show ?thesis by auto
  next
    case True
    have li: "link_in (link_data g os) (frames_in g os) ?l" by (rule I(8) [OF True g]) simp
    from li one_reader [OF I(7) [OF True] g] d show ?thesis
    proof (cases rule: link_arrives)
      case Stored
      with run have "s' = ?s1" "os' = []" by simp_all
      with base [of "{}"] Stored cok1 show ?thesis by simp
    next
      case (Served t k bs)
      from run Served(1) have r: "resume_reader L cfg R g t (Inr bs) ?s1 = (s', os')" by (simp add: resume_def split: prod.splits)
      have "log_inv W clean sound {g} ?os ?s1" by (rule base) simp
      from resume_reader_keeps [OF this cok1 g1 _ r] Served(2,3) g show ?thesis by fastforce
    qed
  qed
  then show ?thesis by simp
qed

lemma hang_keeps:
  assumes inv: "log_inv W clean sound {} os s" and cok: "codec_ok s" and g: "g < length (lc_links s)"
    and out: "socket_event L cfg W R g (fail_waiters e) s = (s', os')"
  shows "log_inv W clean sound {} (os @ os') s' \<and> codec_ok s'"
proof -
  note I = live_invD [OF inv [unfolded log_inv_def]]
  let ?l = "lc_links s ! g" and ?ws = "waiters (fst (link_conn g s))"
  obtain c es where d: "fail_waiters e (fst (link_conn g s)) = (c, es)" by fastforce
  let ?f = "\<lambda>l. l\<lparr>lk_conn := (c, snd (lk_conn l) @ es)\<rparr>" and ?rs = "map (\<lambda>w. Reject (token w) e) ?ws"
  let ?s1 = "on_link g ?f s"
  have c: "\<not> connected c" "onDisconnect c" and es: "es = ?rs @ [CallOnDisconnect]"
    using d I(3) [OF g] by (auto simp: fail_waiters_def)
  have "written (map (\<lambda>w. Reject (token w) e) ws) = []" "filter (\<lambda>e. e = CallOnDisconnect) (map (\<lambda>w. Reject (token w) e) ws) = []"
    "filter (\<lambda>e. e \<noteq> CallOnDisconnect) (map (\<lambda>w. Reject (token w) e) ws) = map (\<lambda>w. Reject (token w) e) ws" for ws
    by (induction ws) simp_all
  then have turn: "by_turn es = CallOnDisconnect # ?rs" "written es = []" by (simp_all add: es by_turn_def)
  obtain s2 os2 where s2: "advance L cfg W R (SocketDown g) ?s1 = (s2, os2)" by fastforce
  obtain s3 os3 where s3: "run_steps (resume L cfg W R g) ?rs s2 = (s3, os3)" by fastforce
  have s': "s' = s3" "os' = os2 @ os3"
    using out g d s2 s3 by (simp_all add: socket_event_def turn resume_def)
  have base: "log_inv W clean sound X os ?s1"
    if "sound \<Longrightarrow> g \<notin> X \<Longrightarrow> link_in (link_data g os) (frames_in g os) (?f ?l)" for X
    using handled [OF inv g, of c es "[]" X] c turn that by simp
  obtain c2 es2 where step: "client_step L (over_codec cfg) (SocketDown g) (lc_client ?s1) = (c2, es2)" by fastforce
  have lt: "g < connections (lc_client ?s1)" using I(2) g by simp
  then have off: "list_all off_wire es2" using step down_off [of "over_codec cfg" "lc_client ?s1"] by simp
  have down: "codec c2 = None" "connections c2 = connections (lc_client ?s1)"
    using down_codec [OF lt, of L "over_codec cfg"] step_codec [of L "over_codec cfg" "SocketDown g" "lc_client ?s1"] step by auto
  note kept = quiet_keeps [OF base step off _ _ _ s2]
  have links: "lc_links s2 = lc_links ?s1" "lc_client s2 = c2" "frames_in g' os2 = []" "link_data g' os2 = []" for g'
    using kept(4,5) [of "{g}"] kept(3,6) [of "{g}" g'] down(2) by simp_all
  have cok2: "codec_ok s2" by (simp add: codec_ok_def links down)
  have g2: "g < length (lc_links s2)" using g links by simp
  have "log_inv W clean sound {} ((os @ os2) @ os3) s3 \<and> codec_ok s3"
  proof (cases sound)
    case False
    have "log_inv W clean sound {} (os @ os2) s2" using kept(1) [of "{}"] False by simp
    from resume_list_unsound [OF this False cok2 g2 _ s3, of e] show ?thesis by auto
  next
    case True
    have li: "link_in (link_data g os) (frames_in g os) ?l" by (rule I(8) [OF True g]) simp
    from li one_reader [OF I(7) [OF True] g] I(3) [OF g] d show ?thesis
    proof (cases rule: link_hangs)
      case Idle
      then have "?rs = []" using es by simp
      with s3 have "s3 = s2" "os3 = []" by simp_all
      with kept(1) [of "{}"] Idle cok2 show ?thesis by simp
    next
      case (Rejected t k)
      then have "?rs = [Reject t e]" using es by simp
      with s3 have r: "resume_reader L cfg R g t (Inl e) s2 = (s3, os3)" by (simp add: resume_def split: prod.splits)
      have "log_inv W clean sound {g} (os @ os2) s2" using kept(1) [of "{g}"] by simp
      from resume_reader_keeps [OF this cok2 g2 _ r] Rejected(2,3) g links show ?thesis by fastforce
    qed
  qed
  then show ?thesis by (simp add: s')
qed

subsection \<open>Runs\<close>

definition writes_succeed :: "nat \<Rightarrow> 'r live_client_event list \<Rightarrow> bool" where
  "writes_succeed g es \<longleftrightarrow> list_all (\<lambda>e. case e of Wrote g' t (Some x) \<Rightarrow> g' \<noteq> g | _ \<Rightarrow> True) es"

definition no_timeouts :: "'r live_client_event list \<Rightarrow> bool" where
  "no_timeouts es \<longleftrightarrow> list_all (\<lambda>e. case e of Own (TimerFired t) \<Rightarrow> False | _ \<Rightarrow> True) es"

definition run_inv ::
    "'w writer_ops \<Rightarrow> 'r live_client_event list \<Rightarrow> 'r live_client_effect list \<Rightarrow> 'r live_client \<Rightarrow> bool" where
  "run_inv W es os s \<longleftrightarrow>
     log_inv W (\<lambda>g. writes_succeed g es) (no_timeouts es \<and> framed_input os) {} os s \<and> codec_ok s"

lemma run_inv_new: "run_inv W [] [] new_live_client"
  by (simp add: run_inv_def log_inv_def live_inv_def new_live_client_def new_client_def machine_of_def machine_ok_def
    busy_calls_def alone_at_def codec_ok_def)

lemma run_inv_step:
  assumes "run_inv W es os s" and out: "live_client_step L cfg W R e s = (s', os')"
  shows "run_inv W (es @ [e]) (os @ os') s'"
proof -
  let ?clean = "\<lambda>g. writes_succeed g (es @ [e])" and ?sound = "no_timeouts (es @ [e]) \<and> framed_input (os @ os')"
  have inv: "log_inv W ?clean ?sound {} os s" and cok: "codec_ok s"
    using assms(1) framed_input_prefix [of os os'] unfolding run_inv_def log_inv_def
    by (auto elim!: live_inv_weaken simp: writes_succeed_def no_timeouts_def)
  have stay: ?thesis if "s' = s" "os' = []" using inv cok that by (simp add: run_inv_def)
  show ?thesis
  proof (cases e)
    case (Own ce)
    show ?thesis
    proof (cases "from_link ce")
      case False
      then have "advance L cfg W R ce s = (s', os')" using out Own by simp
      moreover have "ce \<noteq> SendSettled t x" "ce \<noteq> RecvSettled t y" "?sound \<Longrightarrow> ce \<noteq> TimerFired t" for t x y
        using False Own by (auto simp: from_link_def no_timeouts_def)
      ultimately show ?thesis
        using advance_keeps [OF inv cok, of ce L cfg R s' os'] framed_input_prefix [of os os'] by (auto simp: run_inv_def)
    qed (use stay out Own in simp)
  next
    case (Incoming g d)
    show ?thesis
    proof (cases "g < length (lc_links s)")
      case True
      then obtain os1 where "socket_event L cfg W R g (on_data d) s = (s', os1)" "os' = Arrived g d # os1"
        using out Incoming by (auto split: prod.splits)
      with data_keeps [OF inv cok True this(1)] show ?thesis by (simp add: run_inv_def)
    qed (use stay out Incoming in simp)
  next
    case (LinkClosed g)
    show ?thesis
    proof (cases "g < length (lc_links s)")
      case True
      have "socket_event L cfg W R g (fail_waiters connection_closed) s = (s', os')"
        using out LinkClosed by (simp add: on_close_def [abs_def])
      from hang_keeps [OF inv cok True this] show ?thesis by (simp add: run_inv_def)
    qed (use stay out LinkClosed in \<open>simp add: socket_event_def\<close>)
  next
    case (LinkErrored g err)
    show ?thesis
    proof (cases "g < length (lc_links s)")
      case True
      have "socket_event L cfg W R g (fail_waiters (wrap_errno err)) s = (s', os')"
        using out LinkErrored by (simp add: on_error_def [abs_def])
      from hang_keeps [OF inv cok True this] show ?thesis by (simp add: run_inv_def)
    qed (use stay out LinkErrored in \<open>simp add: socket_event_def\<close>)
  next
    case (Wrote g t err)
    show ?thesis
    proof (cases "if g < length (lc_links s) then map_of (lk_writers (lc_links s ! g)) t else None")
      case (Some k)
      then have g: "g < length (lc_links s)" "map_of (lk_writers (lc_links s ! g)) t = Some k" by (auto split: if_splits)
      have w: "wrote L cfg W R g t k err s = (s', os')" using out Wrote Some by simp
      have "?clean g \<Longrightarrow> err = None" using Wrote by (cases err) (simp_all add: writes_succeed_def)
      from wrote_keeps [OF inv cok g _ this _ w] framed_input_prefix [of os os'] show ?thesis by (auto simp: run_inv_def)
    qed (use stay out Wrote in simp)
  qed
qed

lemma run_inv_run: "run_inv W es (snd (live_client_run L cfg W R es)) (fst (live_client_run L cfg W R es))"
  using run_steps_log [where P = "run_inv W", OF run_inv_step run_inv_new, where es = es] by simp

text \<open>What has been written on a connection.\<close>

lemma written_requests:
  assumes "live_client_run L cfg W R es = (s, os)" "g < length (lc_links s)" "writes_succeed g es"
  shows "\<exists>rest. written (snd (link_conn g s)) @ rest = frames_bytes W (requests_on W g (did os))"
    and "connected (fst (link_conn g s)) \<Longrightarrow> lk_writers (lc_links s ! g) = [] \<Longrightarrow>
      written (snd (link_conn g s)) = frames_bytes W (requests_on W g (did os))"
proof -
  have "run_inv W es os s" using run_inv_run [of W es L cfg R] assms(1) by simp
  with assms(2,3) have out: "link_out W (requests_on W g (did os)) (lc_links s ! g)"
    unfolding run_inv_def log_inv_def by (auto dest: live_invD(6))
  then show "\<exists>rest. written (snd (link_conn g s)) @ rest = frames_bytes W (requests_on W g (did os))"
    by (auto simp: link_out_def split: if_splits)
  assume "connected (fst (link_conn g s))" "lk_writers (lc_links s ! g) = []"
  with out show "written (snd (link_conn g s)) = frames_bytes W (requests_on W g (did os))" by (simp add: link_out_def)
qed

text \<open>What has been received on it.\<close>

lemma received_frames:
  assumes "live_client_run L cfg W R es = (s, os)" "no_timeouts es"
    and "\<And>g. g < length (lc_links s) \<Longrightarrow> \<exists>hs. frames_of (link_data g os) hs"
    and "g < length (lc_links s)" "frames_of (link_data g os) hs"
  shows "\<exists>rest. hs = frames_in g os @ rest"
proof -
  have inv: "run_inv W es os s" using run_inv_run [of W es L cfg R] assms(1) by simp
  have "\<exists>hs. frames_of (link_data g' os) hs" for g'
  proof (cases "g' < length (lc_links s)")
    case False
    with inv have "link_data g' os = []"
      unfolding run_inv_def log_inv_def by (auto dest: live_invD(4) [where g = g'])
    then show ?thesis by (intro exI [of _ "[]"]) (simp add: frames_of_def)
  qed (rule assms(3))
  then have "framed_input os" by (simp add: framed_input_def)
  with inv assms(2,4) have l: "link_in (link_data g os) (frames_in g os) (lc_links s ! g)"
    unfolding run_inv_def log_inv_def by (auto dest: live_invD(8) [where g = g])
  then obtain b where b: "reader_inv unix_view (\<not> connected (fst (link_conn g s))) (link_data g os) (frames_in g os) (link_reader (lc_links s ! g) b)"
    by (auto simp: link_in_def)
  then obtain part where "link_data g os = concat (map encode_frame (frames_in g os)) @ part" "list_all frame_ok (frames_in g os)"
    by (auto simp: reader_inv_def Let_def split: option.splits recv_point.splits if_splits)
  moreover obtain later where "list_all frame_ok hs" "link_data g os @ later = concat (map encode_frame hs)"
    using assms(5) by (auto simp: frames_of_def)
  ultimately show ?thesis using encode_frames_prefix [of "frames_in g os" "part @ later" hs] by auto
qed

end
