(* ===== verification/Loop_Shutdown.thy ===== *)
theory Loop_Shutdown
  imports Dispatch_Loop
begin

section \<open>A dispatch loop whose connection is closed by \<open>stop()\<close>\<close>

text \<open>
  \<open>stop\<close> closes the connections of the server while their loops stand at some \<open>await\<close>. From
  then on a loop writes nothing more, and it ends as soon as what it awaits settles: the
  pending receive is rejected by the socket's close event, and a handler that settles or a write
  that completes meets a connection that refuses to send.
\<close>

context stream_connection
begin

text \<open>A loop on a connection that is closed.\<close>

definition shut :: "bytes \<Rightarrow> 'c session \<Rightarrow> bool" where
  "shut sent s \<longleftrightarrow> valid (ss_conn s) \<and> \<not> s_up (view (ss_conn s)) \<and> s_sent (view (ss_conn s)) = sent \<and>
     (s_want (view (ss_conn s)) \<noteq> None \<longleftrightarrow> (\<exists>k. ss_at s = Reading k))"

lemma shut_finish:
  assumes "valid c" "s_sent (view c) = sent" "s_want (view c) = None"
  shows "shut sent (fst (finish_session ic c))" "ss_at (fst (finish_session ic c)) = Finished"
  using assms close_refines [OF assms(1)] by (simp_all add: shut_def finish_session_def)

text \<open>A receive on a closed connection returns at once.\<close>

lemma shut_recv:
  assumes "valid c" "\<not> s_up (view c)" "s_want (view c) = None" "ic_recv ic n c = (c', r)"
  shows "valid c' \<and> \<not> s_up (view c') \<and> s_want (view c') = None \<and> s_sent (view c') = s_sent (view c) \<and> r \<noteq> Pending"
  using recv_view [OF assms(1,3,4)] assms(2,3) by (auto simp: spec_recv_def)

lemma shut_received:
  assumes "valid c" "\<not> s_up (view c)" "s_want (view c) = None" "s_sent (view c) = sent"
  shows "shut sent (fst (request_received ic services x (codec_recv_resume R ic k a c)))"
proof -
  have received: "shut sent (fst (request_received ic services x (codec_received R (c1, out))))"
    if "valid c1" "\<not> s_up (view c1)" "s_want (view c1) = None" "s_sent (view c1) = sent" "\<forall>k. out \<noteq> Blocked k" for c1 out
    using that shut_finish(1) [OF that(1,4,3)]
    by (auto simp: codec_received_def request_received_def shut_def split: recv_outcome.splits option.splits sum.splits)
  show ?thesis
  proof (cases "\<exists>h len. a = Inr h \<and> k = AwaitHeader \<and> readUInt32BE h = Some len \<and> len \<le> MAX_FRAME_SIZE \<and> len \<noteq> 0")
    case True
    then obtain h len where a: "a = Inr h" "k = AwaitHeader" "readUInt32BE h = Some len" "len \<le> MAX_FRAME_SIZE" "len \<noteq> 0"
      by blast
    obtain c1 r where r: "ic_recv ic len c = (c1, r)" by fastforce
    note w = shut_recv [OF assms(1-3) r]
    then have "\<exists>out. recvFrame_resume ic k a c = (c1, out) \<and> (\<forall>k. out \<noteq> Blocked k)"
      using a r by (cases r) (auto simp: recvFrame_resume_def recv_header_def recv_payload_def)
    with w assms(4) show ?thesis
      using received [of c1] by (auto simp: codec_recv_resume_def)
  next
    case False
    then have "\<exists>out. recvFrame_resume ic k a c = (c, out) \<and> (\<forall>k. out \<noteq> Blocked k)"
      by (auto simp: recvFrame_resume_def recv_header_def split: sum.splits recv_point.splits option.splits)
    then show ?thesis using received [OF assms] by (auto simp: codec_recv_resume_def)
  qed
qed

text \<open>A send that has returned or failed on a closed connection ends the loop.\<close>

lemma shut_sent:
  assumes "valid c" "\<not> s_up (view c)" "s_want (view c) = None" "s_sent (view c) = sent" "\<forall>k. out \<noteq> SBlocked k"
  shows "shut sent (fst (response_sent R ic services x r (c, out))) \<and>
    ss_at (fst (response_sent R ic services x r (c, out))) = Finished"
  using assms(5) shut_finish [OF assms(1,4,3)] connected_refines [OF assms(1)] assms(2)
  by (cases out) (auto simp: response_sent_def loop_head_def Let_def split_def)

lemma shut_send:
  assumes "valid c" "\<not> s_up (view c)" "s_want (view c) = None" "ic_send ic d c = (c', q)"
  shows "valid c' \<and> \<not> s_up (view c') \<and> s_want (view c') = None \<and> s_sent (view c') = s_sent (view c) \<and>
    q = SFail not_connected"
  using send_view [OF assms(1,4)] assms(2,3) by (simp add: spec_send_def)

lemma shut_handled:
  assumes "shut sent s" "ss_at s = Handling (Some r)"
  shows "shut sent (fst (session_step W R ic se services (x, HandlerSettled) s)) \<and>
    ss_at (fst (session_step W R ic se services (x, HandlerSettled) s)) = Finished"
proof -
  have c: "valid (ss_conn s)" "\<not> s_up (view (ss_conn s))" "s_want (view (ss_conn s)) = None" "s_sent (view (ss_conn s)) = sent"
    using assms by (auto simp: shut_def)
  obtain c' out where out: "codec_send W ic r (ss_conn s) = (c', out)" by fastforce
  obtain c1 q where q: "ic_send ic (writeUInt32BE (length (encode_envelope W r))) (ss_conn s) = (c1, q)" by fastforce
  have "valid c' \<and> \<not> s_up (view c') \<and> s_want (view c') = None \<and> s_sent (view c') = sent \<and> (\<forall>k. out \<noteq> SBlocked k)"
    using out q shut_send [OF c(1-3) q] c
    by (auto simp: codec_send_def sendFrame_def await_send_def split: if_splits)
  with out assms(2) show ?thesis
    using shut_sent [of c' sent out R services x r] by auto
qed

lemma shut_written:
  assumes "shut sent s" "ss_at s = Writing r k"
  shows "shut sent (fst (session_step W R ic se services (x, WriteSettled err) s)) \<and>
    ss_at (fst (session_step W R ic se services (x, WriteSettled err) s)) = Finished"
proof -
  have c: "valid (ss_conn s)" "\<not> s_up (view (ss_conn s))" "s_want (view (ss_conn s)) = None" "s_sent (view (ss_conn s)) = sent"
    using assms by (auto simp: shut_def)
  obtain c' out where out: "codec_send_resume ic k err (ss_conn s) = (c', out)" by fastforce
  obtain c1 q where q: "ic_send ic (case k of SentHeader d \<Rightarrow> d | SentBody \<Rightarrow> []) (ss_conn s) = (c1, q)" by fastforce
  have "valid c' \<and> \<not> s_up (view c') \<and> s_want (view c') = None \<and> s_sent (view c') = sent \<and> (\<forall>k. out \<noteq> SBlocked k)"
    using out q shut_send [OF c(1-3) q] c
    by (auto simp: codec_send_resume_def sendFrame_resume_def await_send_def split: option.splits send_point.splits if_splits)
  with out assms(2) show ?thesis
    using shut_sent [of c' sent out R services x r] by auto
qed

lemma shut_hangup:
  assumes "shut sent s"
  shows "shut sent (fst (session_step W R ic se services (x, Down e) s)) \<and>
    (ss_at s = Reading k \<longrightarrow> ss_at (fst (session_step W R ic se services (x, Down e) s)) = Finished)"
proof -
  obtain c a where ca: "se_hangup se e (ss_conn s) = (c, a)" by fastforce
  have v: "valid (ss_conn s)" using assms by (simp add: shut_def)
  note w = hangup_view [OF v ca]
  have c: "valid c" "s_sent (view c) = sent" "s_want (view c) = None" "\<not> s_up (view c)"
    and a: "(\<exists>k. ss_at s = Reading k) \<longleftrightarrow> a = Some (Inl e)" "a = None \<or> a = Some (Inl e)"
    using w assms by (auto simp: shut_def spec_hangup_def)
  show ?thesis
    using ca a c shut_finish [OF c(1,2,3)]
    by (cases "ss_at s")
      (auto simp: session_settle_def codec_recv_resume_def recvFrame_resume_def codec_received_def request_received_def shut_def)
qed

lemma shut_step:
  assumes "shut sent s"
  shows "shut sent (fst (session_step W R ic se services e s))"
proof -
  obtain x ev where e: "e = (x, ev)" by fastforce
  show ?thesis
  proof (cases ev)
    case (Data d)
    obtain c a where ca: "se_arrive se d (ss_conn s) = (c, a)" by fastforce
    have v: "valid (ss_conn s)" using assms by (simp add: shut_def)
    note w = arrive_view [OF v ca]
    have c: "valid c" "s_sent (view c) = sent" "\<not> s_up (view c)"
      using w assms by (auto simp: shut_def spec_arrive_def split: option.splits if_splits)
    show ?thesis
    proof (cases a)
      case None
      then have "s_want (view c) = s_want (view (ss_conn s))"
        using w by (auto simp: spec_arrive_def split: option.splits if_splits)
      with None c assms ca e Data show ?thesis
        by (cases "ss_at s") (auto simp: session_settle_def shut_def)
    next
      case (Some r)
      then have "s_want (view c) = None" "s_want (view (ss_conn s)) \<noteq> None"
        using w by (auto simp: spec_arrive_def split: option.splits if_splits)
      moreover from this assms obtain k where "ss_at s = Reading k" by (auto simp: shut_def)
      ultimately show ?thesis
        using shut_received [OF c(1,3) _ c(2)] Some ca e Data by (simp add: session_settle_def)
    qed
  next
    case (Down d)
    from shut_hangup [OF assms, where R = R and services = services and x = x and e = d] e Down show ?thesis by simp
  next
    case HandlerSettled
    show ?thesis
    proof (cases "\<exists>r. ss_at s = Handling (Some r)")
      case True
      then obtain r where r: "ss_at s = Handling (Some r)" by blast
      from shut_handled [OF assms r, where W = W and R = R and services = services and x = x] e HandlerSettled
      show ?thesis by (simp only:)
    qed (use assms e HandlerSettled in \<open>auto split: loop_point.splits option.splits\<close>)
  next
    case (WriteSettled d)
    show ?thesis
    proof (cases "\<exists>r k. ss_at s = Writing r k")
      case True
      then obtain r k where r: "ss_at s = Writing r k" by blast
      from shut_written [OF assms r, where W = W and R = R and services = services and x = x and err = d] e WriteSettled
      show ?thesis by (simp only:)
    qed (use assms e WriteSettled in \<open>auto split: loop_point.splits\<close>)
  next
    case Stopped
    with assms e show ?thesis using close_refines [of "ss_conn s"] by (auto simp: shut_def)
  qed
qed

lemma shut_run: "shut sent s \<Longrightarrow> shut sent (fst (run_steps (session_step W R ic se services) es s))"
  by (rule run_steps_invariant [where I = "shut sent"]) (rule shut_step)

text \<open>A reachable loop whose connection is down.\<close>

lemma down_shut:
  assumes "session_inv W R services inp log s" "\<not> s_up (view (ss_conn s))"
  shows "shut (s_sent (view (ss_conn s))) s"
proof -
  from assms have v: "valid (ss_conn s)" and "\<exists>hung fs. reader_inv view hung inp fs (as_reader s)"
    by (auto simp: session_inv_def read_inv_def)
  then obtain hung fs where i: "reader_inv view hung inp fs (as_reader s)" by blast
  have "rd_conn (as_reader s) = ss_conn s" by (simp add: as_reader_def)
  with i have "s_want (view (ss_conn s)) \<noteq> None \<longleftrightarrow> rd_point (as_reader s) \<noteq> None"
    by (cases "rd_point (as_reader s)") (auto simp: reader_inv_def Let_def split: recv_point.splits)
  then have "s_want (view (ss_conn s)) \<noteq> None \<longleftrightarrow> (\<exists>k. ss_at s = Reading k)"
    by (auto simp: as_reader_def split: loop_point.splits)
  with assms(2) v show ?thesis by (simp add: shut_def)
qed

lemma stopped_shut:
  assumes "session_inv W R services inp log s"
  shows "shut (s_sent (view (ss_conn s))) (s\<lparr>ss_conn := ic_close ic (ss_conn s)\<rparr>)"
proof -
  have v: "valid (ss_conn s)" using assms by (simp add: session_inv_def)
  note session_step_inv [OF assms session_step.simps(5)]
  from down_shut [OF this] close_refines [OF v] show ?thesis by simp
qed

end

subsection \<open>A loop on a Unix socket connection\<close>

text \<open>
  \<open>stop()\<close> ends a dispatch loop: once the server has closed its connection, whatever happened
  before and whatever arrives or settles after, the loop writes not a byte more; and it ends with
  the first thing it awaits: the close event of the socket when it waits for a request, the
  handler when it waits for one, the pending write when it waits for that.
\<close>

lemma stopped_loop_ends:
  "let step = session_step W R unix_iconnection unix_events services;
       s = fst (unix_session W R services x0 es); s1 = fst (step (x, Stopped) s)
   in written (snd (ss_conn (fst (run_steps step later s1)))) = written (snd (ss_conn s)) \<and>
     (case ss_at s of
        Reading k \<Rightarrow> ss_at (fst (step (x', Down e) s1)) = Finished
      | Handling (Some r) \<Rightarrow> ss_at (fst (step (x', HandlerSettled) s1)) = Finished
      | Writing r k \<Rightarrow> ss_at (fst (step (x', WriteSettled err) s1)) = Finished
      | _ \<Rightarrow> True)"
proof -
  define step where "step = session_step W R unix_iconnection unix_events services"
  define s where "s = fst (unix_session W R services x0 es)"
  define s1 where "s1 = fst (step (x, Stopped) s)"
  have shut: "unix.shut (written (snd (ss_conn s))) s1"
    using unix.stopped_shut [OF unix_session_inv [of W R services es x0]]
    by (simp add: s1_def s_def step_def unix_view_def)
  have at: "ss_at s1 = ss_at s" by (simp add: s1_def step_def)
  have "unix.shut (written (snd (ss_conn s))) (fst (run_steps step later s1))"
    unfolding step_def by (rule unix.shut_run [OF shut])
  then have "written (snd (ss_conn (fst (run_steps step later s1)))) = written (snd (ss_conn s))"
    by (simp add: unix.shut_def unix_view_def)
  moreover have "ss_at (fst (step (x', Down e) s1)) = Finished" if "ss_at s = Reading k" for k
    using unix.shut_hangup [OF shut, where W = W and R = R and services = services and x = x' and e = e and k = k] that at
    by (simp only: step_def)
  moreover have "ss_at (fst (step (x', HandlerSettled) s1)) = Finished" if "ss_at s = Handling (Some r)" for r
    using unix.shut_handled [OF shut, where W = W and R = R and services = services and x = x' and r = r] that at
    by (simp only: step_def)
  moreover have "ss_at (fst (step (x', WriteSettled err) s1)) = Finished" if "ss_at s = Writing r k" for r k
    using unix.shut_written [OF shut, where W = W and R = R and services = services and x = x' and err = err] that at
    by (simp only: step_def)
  ultimately show ?thesis
    unfolding Let_def step_def [symmetric] s_def [symmetric] s1_def [symmetric]
    by (auto split: loop_point.splits option.splits)
qed

end
