(* ===== verification/Live_Server.thy ===== *)
theory Live_Server
  imports Server_Lifecycle Loop_Shutdown
begin

section \<open>The whole server (\<open>sdk/js/src/rpc/server.ts\<close>): life cycle and loops together\<close>

text \<open>
  \<open>IBridgerServer\<close> with all its connections: the life cycle of \<open>Server_Lifecycle\<close> and, for each
  accepted connection, the loop of \<open>Dispatch_Loop\<close>, in any interleaving of their events. What
  the life cycle does to a connection is carried out on it: \<open>RunLoop\<close> starts a loop on the
  connection that \<open>fromSocket\<close> makes, \<open>CloseConn\<close> closes it. A loop that ends runs the \<open>finally\<close>
  of \<open>handleConnection\<close>, which the life cycle sees as \<open>LoopEnded\<close>. Lemmas: every connection goes
  through a run of its own loop, and the life cycle through a run of its own, so the invariants
  of both carry over; and a stopped server falls silent and its loops end.
\<close>

record live_server =
  lv_server :: server
  lv_sessions :: "logged_conn session list"   \<comment> \<open>by the number of the connection\<close>

datatype 'x live_event =
    Life 'x server_event                 \<comment> \<open>of the server: a call, its listeners, a new socket\<close>
  | Conn nat 'x session_event            \<comment> \<open>of one connection: its socket, its handler, its writes\<close>

datatype 'x live_effect = Act server_effect | Note nat "'x session_note"

definition carried_out ::
    "'w writer_ops \<Rightarrow> reader_ops \<Rightarrow> 'x services \<Rightarrow> 'x \<Rightarrow> server_effect \<Rightarrow> live_server
       \<Rightarrow> live_server \<times> 'x live_effect list" where
  "carried_out W R services x e s = (case e of
     RunLoop c \<Rightarrow> (let (l, notes) = loop_head R unix_iconnection services x (fromSocket, [])
       in (s\<lparr>lv_sessions := lv_sessions s @ [l]\<rparr>, Act e # map (Note c) notes))
   | CloseConn c \<Rightarrow> (let (l, notes) = session_step W R unix_iconnection unix_events services (x, Stopped) (lv_sessions s ! c)
       in (s\<lparr>lv_sessions := (lv_sessions s)[c := l]\<rparr>, Act e # map (Note c) notes))
   | _ \<Rightarrow> (s, [Act e]))"

text \<open>
  The \<open>CloseConn\<close> of \<open>LoopEnded\<close> is the close with which the loop has just finished. Only the loop
  itself can end, and only the server's \<open>stop\<close> closes a connection from outside.
\<close>

definition finally_run :: "nat \<Rightarrow> logged_conn session \<Rightarrow> logged_conn session \<Rightarrow> server \<Rightarrow> server \<times> server_effect list" where
  "finally_run c before after s =
     (if ss_at after = Finished \<and> ss_at before \<noteq> Finished then loop_ended c s else (s, []))"

fun live_step ::
    "'w writer_ops \<Rightarrow> reader_ops \<Rightarrow> 'x services \<Rightarrow> 'x live_event \<Rightarrow> live_server
       \<Rightarrow> live_server \<times> 'x live_effect list" where
  "live_step W R services (Life x e) s = (case e of
     LoopEnded c \<Rightarrow> (s, [])
   | _ \<Rightarrow> (let (sv, os) = server_step e (lv_server s)
       in run_steps (carried_out W R services x) os (s\<lparr>lv_server := sv\<rparr>)))"
| "live_step W R services (Conn c x ev) s =
     (if length (lv_sessions s) \<le> c \<or> ev = Stopped then (s, [])
      else let before = lv_sessions s ! c;
               (after, notes) = session_step W R unix_iconnection unix_events services (x, ev) before;
               (sv, os) = finally_run c before after (lv_server s)
           in (\<lparr>lv_server = sv, lv_sessions = (lv_sessions s)[c := after]\<rparr>, map (Note c) notes @ map Act os))"

definition new_live :: live_server where
  "new_live = \<lparr>lv_server = new_server, lv_sessions = []\<rparr>"

abbreviation live_run ::
    "'w writer_ops \<Rightarrow> reader_ops \<Rightarrow> 'x services \<Rightarrow> 'x live_event list \<Rightarrow> live_server \<times> 'x live_effect list" where
  "live_run W R services es \<equiv> run_steps (live_step W R services) es new_live"

subsection \<open>What a run shows of the server and of each connection\<close>

definition acts :: "'x live_effect list \<Rightarrow> server_effect list" where
  "acts os = concat (map (\<lambda>e. case e of Act a \<Rightarrow> [a] | Note c n \<Rightarrow> []) os)"

definition notes_of :: "nat \<Rightarrow> 'x live_effect list \<Rightarrow> 'x session_note list" where
  "notes_of c os = concat (map (\<lambda>e. case e of Act a \<Rightarrow> [] | Note c' n \<Rightarrow> if c' = c then [n] else []) os)"

text \<open>The events of a connection, and those of a loop that do not come from \<open>stop\<close>.\<close>

definition own_events :: "nat \<Rightarrow> 'x live_event list \<Rightarrow> ('x \<times> session_event) list" where
  "own_events c es = concat (map (\<lambda>e. case e of Life x ev \<Rightarrow> []
     | Conn c' x ev \<Rightarrow> if c' = c \<and> ev \<noteq> Stopped then [(x, ev)] else []) es)"

definition not_stopped :: "('x \<times> session_event) list \<Rightarrow> ('x \<times> session_event) list" where
  "not_stopped es = filter (\<lambda>e. snd e \<noteq> Stopped) es"

lemma acts_simps [simp]:
  "acts [] = []" "acts (xs @ ys) = acts xs @ acts ys" "acts (Act a # os) = a # acts os"
  "acts (Note c n # os) = acts os" "acts (map Act as) = as" "acts (map (Note c) ns) = []"
  by (simp_all add: acts_def comp_def)

lemma notes_of_simps [simp]:
  "notes_of c [] = []" "notes_of c (xs @ ys) = notes_of c xs @ notes_of c ys" "notes_of c (Act a # os) = notes_of c os"
  "notes_of c (map Act as) = []" "notes_of c (map (Note c') ns) = (if c' = c then ns else [])"
  by (simp_all add: notes_of_def comp_def)

lemma own_events_simps [simp]:
  "own_events c [] = []" "own_events c (xs @ ys) = own_events c xs @ own_events c ys"
  "own_events c [Life x e] = []"
  "own_events c [Conn c' x ev] = (if c' = c \<and> ev \<noteq> Stopped then [(x, ev)] else [])"
  by (simp_all add: own_events_def)

lemma not_stopped_simps [simp]:
  "not_stopped [] = []" "not_stopped (xs @ ys) = not_stopped xs @ not_stopped ys"
  "not_stopped [(x, ev)] = (if ev = Stopped then [] else [(x, ev)])"
  by (simp_all add: not_stopped_def)

subsection \<open>One connection, one step\<close>

abbreviation unix_step ::
    "'w writer_ops \<Rightarrow> reader_ops \<Rightarrow> 'x services \<Rightarrow> 'x \<times> session_event \<Rightarrow> logged_conn session
       \<Rightarrow> logged_conn session \<times> 'x session_note list" where
  "unix_step W R services \<equiv> session_step W R unix_iconnection unix_events services"

lemma unix_session_extend:
  assumes "unix_session W R services x0 ec = (l, log)" "unix_step W R services e l = (l', notes)"
  shows "unix_session W R services x0 (ec @ [e]) = (l', log @ notes)"
  using assms by (auto simp: unix_session_def session_run_def run_steps_append Let_def split: prod.splits)

lemma up_connected [simp]: "s_up (unix_view c) = connected (fst c)"
  by (simp add: unix_view_def)

lemma closed_down [simp]: "\<not> connected (fst (ic_close unix_iconnection c))"
  by (simp add: provider_defs close_def)

lemma reached_shut:
  assumes "unix_session W R services x0 ec = (l, log)" "\<not> connected (fst (ss_conn l))"
  shows "unix.shut (written (snd (ss_conn l))) l"
  using unix.down_shut [OF unix_session_inv [of W R services ec x0]] assms by (simp add: unix_view_def)

lemma finish_down:
  assumes "unix_step W R services e l = (l', notes)" "ss_at l' = Finished" "ss_at l \<noteq> Finished"
  shows "\<not> connected (fst (ss_conn l'))"
proof -
  have received: "ss_at (fst (request_received unix_iconnection services x r)) = Finished \<Longrightarrow>
      \<not> connected (fst (ss_conn (fst (request_received unix_iconnection services x r))))" for x r
    by (auto simp: request_received_def finish_session_def split: prod.splits codec_outcome.splits)
  have head: "ss_at (fst (loop_head R unix_iconnection services x c)) = Finished \<Longrightarrow>
      \<not> connected (fst (ss_conn (fst (loop_head R unix_iconnection services x c))))" for x c
    using received [of x "codec_recv R unix_iconnection c"]
    by (auto simp: loop_head_def finish_session_def split: if_splits)
  have sent: "ss_at (fst (response_sent R unix_iconnection services x r q)) = Finished \<Longrightarrow>
      \<not> connected (fst (ss_conn (fst (response_sent R unix_iconnection services x r q))))" for x r q
    using head [of x "fst q"]
    by (cases q; cases "snd q") (auto simp: response_sent_def finish_session_def Let_def split_def)
  have settle: "ss_at (fst (session_settle R unix_iconnection services x q l)) = Finished \<Longrightarrow>
      \<not> connected (fst (ss_conn (fst (session_settle R unix_iconnection services x q l))))" for x q
    using assms(3) received [of x "codec_recv_resume R unix_iconnection
      (case ss_at l of Reading k \<Rightarrow> k | _ \<Rightarrow> AwaitHeader) (the (snd q)) (fst q)"]
    by (cases q) (auto simp: session_settle_def split: loop_point.splits option.splits)
  obtain x ev where e: "e = (x, ev)" by fastforce
  have l': "l' = fst (unix_step W R services e l)" using assms(1) by simp
  show ?thesis
    using assms(2,3) settle sent unfolding l' e
    by (cases ev) (auto split: loop_point.splits option.splits)
qed

lemma finished_stays: "ss_at l = Finished \<Longrightarrow> ss_at (fst (session_step W R ic se services e l)) = Finished"
  by (cases e; cases "snd e") (auto simp: session_settle_def split: prod.splits)

lemma down_stays:
  assumes "unix_session W R services x0 ec = (l, log)" "\<not> connected (fst (ss_conn l))"
  shows "\<not> connected (fst (ss_conn (fst (unix_step W R services e l))))"
  using unix.shut_step [OF reached_shut [OF assms], where W = W and R = R and services = services and e = e]
  by (simp add: unix.shut_def)

lemma fresh_loop:
  obtains l where "loop_head R unix_iconnection services x (fromSocket, []) = (l, [])"
    "ss_at l = Reading AwaitHeader" "unix_session W R services x [] = (l, [])"
proof -
  from unix.loop_head_ready [OF new_connection_view, of R services x] that show ?thesis
    by (auto simp: unix.ready_def unix_session_def session_run_def fromSocket_def)
qed

subsection \<open>The invariant of the whole server\<close>

text \<open>
  What is known of connection \<open>c\<close>: since it was accepted, it has gone through a run of its own
  loop on its own events;
  the server counts its loop exactly while it has not ended; and once the server no longer holds
  it as active, it is closed.
\<close>

definition conn_live ::
    "'w writer_ops \<Rightarrow> reader_ops \<Rightarrow> 'x services \<Rightarrow> 'x live_event list \<Rightarrow> 'x live_effect list \<Rightarrow> live_server \<Rightarrow> nat \<Rightarrow> bool" where
  "conn_live W R services es os s c \<longleftrightarrow>
     (\<exists>x0 ec es1 e es2. es = es1 @ e # es2 \<and> length (lv_sessions (fst (live_run W R services es1))) = c \<and>
        length (lv_sessions (fst (live_run W R services (es1 @ [e])))) = Suc c \<and>
        unix_session W R services x0 ec = (lv_sessions s ! c, notes_of c os) \<and>
        own_events c es2 = not_stopped ec) \<and>
     (c \<in> set (loops (lv_server s)) \<longleftrightarrow> ss_at (lv_sessions s ! c) \<noteq> Finished) \<and>
     (c \<notin> set (activeConnections (lv_server s)) \<longrightarrow> \<not> connected (fst (ss_conn (lv_sessions s ! c))))"

definition live_ok ::
    "'w writer_ops \<Rightarrow> reader_ops \<Rightarrow> 'x services \<Rightarrow> 'x live_event list \<Rightarrow> 'x live_effect list \<Rightarrow> live_server \<Rightarrow> bool" where
  "live_ok W R services es os s \<longleftrightarrow> live_run W R services es = (s, os) \<and>
     (\<exists>les. server_run les = (lv_server s, acts os)) \<and>
     length (lv_sessions s) = accepted (lv_server s) \<and>
     (\<forall>c < length (lv_sessions s). conn_live W R services es os s c) \<and>
     (\<forall>c \<ge> length (lv_sessions s). notes_of c os = [])"

lemma live_run_step:
  assumes "live_ok W R services es os s" "live_step W R services e s = (s', os')"
  shows "live_run W R services (es @ [e]) = (s', os @ os')"
  using assms by (simp add: live_ok_def run_steps_append)

lemma server_run_step:
  assumes "\<exists>les. server_run les = (s, os)" "server_step e s = (s', os')"
  shows "\<exists>les. server_run les = (s', os @ os')"
proof -
  from assms obtain les where "server_run les = (s, os)" by blast
  with assms(2) have "server_run (les @ [e]) = (s', os @ os')" by (simp add: run_steps_append)
  then show ?thesis ..
qed

lemma server_run_conns:
  assumes "\<exists>les. server_run les = (s, os)"
  shows "distinct (activeConnections s)" "distinct (loops s)"
    "set (activeConnections s) \<subseteq> set (loops s)" "set (loops s) \<subseteq> {..<accepted s}"
proof -
  from assms obtain les where "server_run les = (s, os)" by blast
  with conns_ok_run [of les] show "distinct (activeConnections s)" "distinct (loops s)"
    "set (activeConnections s) \<subseteq> set (loops s)" "set (loops s) \<subseteq> {..<accepted s}"
    by (auto simp: conns_ok_def)
qed

text \<open>A connection that a step does not concern.\<close>

lemma conn_live_other:
  assumes "conn_live W R services es os s c"
    and "lv_sessions s' ! c = lv_sessions s ! c" "notes_of c os' = []" "own_events c es' = []"
    and "c \<in> set (loops (lv_server s')) \<longleftrightarrow> c \<in> set (loops (lv_server s))"
    and "c \<in> set (activeConnections (lv_server s)) \<Longrightarrow> c \<in> set (activeConnections (lv_server s'))"
  shows "conn_live W R services (es @ es') (os @ os') s' c"
proof -
  from assms(1) obtain x0 ec es1 e es2 where
    "es = es1 @ e # es2" "length (lv_sessions (fst (live_run W R services es1))) = c"
    "length (lv_sessions (fst (live_run W R services (es1 @ [e])))) = Suc c"
    "unix_session W R services x0 ec = (lv_sessions s ! c, notes_of c os)" "own_events c es2 = not_stopped ec"
    unfolding conn_live_def by blast
  then have "es @ es' = es1 @ e # (es2 @ es')" "length (lv_sessions (fst (live_run W R services es1))) = c"
    "length (lv_sessions (fst (live_run W R services (es1 @ [e])))) = Suc c"
    "unix_session W R services x0 ec = (lv_sessions s' ! c, notes_of c (os @ os'))"
    "own_events c (es2 @ es') = not_stopped ec" using assms(2-4) by simp_all
  moreover have "(c \<in> set (loops (lv_server s')) \<longleftrightarrow> ss_at (lv_sessions s' ! c) \<noteq> Finished) \<and>
     (c \<notin> set (activeConnections (lv_server s')) \<longrightarrow> \<not> connected (fst (ss_conn (lv_sessions s' ! c))))"
    using assms by (auto simp: conn_live_def)
  ultimately show ?thesis unfolding conn_live_def by blast
qed

text \<open>A connection that takes a step, of its own or because the server closes it.\<close>

lemma conn_live_steps:
  assumes "conn_live W R services es os s c"
    and "unix_step W R services e (lv_sessions s ! c) = (l, notes)"
    and "lv_sessions s' ! c = l" "notes_of c os' = notes" "own_events c es' = not_stopped [e]"
    and "c \<in> set (loops (lv_server s')) \<longleftrightarrow>
      c \<in> set (loops (lv_server s)) \<and> \<not> (ss_at l = Finished \<and> ss_at (lv_sessions s ! c) \<noteq> Finished)"
    and "c \<notin> set (activeConnections (lv_server s')) \<Longrightarrow>
      c \<notin> set (activeConnections (lv_server s)) \<or> snd e = Stopped \<or> ss_at l = Finished \<and> ss_at (lv_sessions s ! c) \<noteq> Finished"
  shows "conn_live W R services (es @ es') (os @ os') s' c"
proof -
  from assms(1) obtain x0 ec es1 a es2 where
    u: "unix_session W R services x0 ec = (lv_sessions s ! c, notes_of c os)" "own_events c es2 = not_stopped ec"
      "es = es1 @ a # es2" "length (lv_sessions (fst (live_run W R services es1))) = c"
      "length (lv_sessions (fst (live_run W R services (es1 @ [a])))) = Suc c"
    unfolding conn_live_def by blast
  from unix_session_extend [OF u(1) assms(2)] u assms(3-5)
  have "es @ es' = es1 @ a # (es2 @ es') \<and> length (lv_sessions (fst (live_run W R services es1))) = c \<and>
    length (lv_sessions (fst (live_run W R services (es1 @ [a])))) = Suc c \<and>
    unix_session W R services x0 (ec @ [e]) = (lv_sessions s' ! c, notes_of c (os @ os')) \<and>
    own_events c (es2 @ es') = not_stopped (ec @ [e])" by simp
  moreover have "c \<in> set (loops (lv_server s')) \<longleftrightarrow> ss_at l \<noteq> Finished"
    using assms(1,6) finished_stays [of "lv_sessions s ! c" W R unix_iconnection unix_events services e] assms(2)
    by (auto simp: conn_live_def)
  moreover have "\<not> connected (fst (ss_conn l))" if "c \<notin> set (activeConnections (lv_server s'))"
  proof -
    from assms(7) [OF that] consider "c \<notin> set (activeConnections (lv_server s))" | "snd e = Stopped"
      | "ss_at l = Finished" "ss_at (lv_sessions s ! c) \<noteq> Finished" by blast
    then show ?thesis
    proof cases
      case 1
      with assms(1) have "\<not> connected (fst (ss_conn (lv_sessions s ! c)))" by (simp add: conn_live_def)
      from down_stays [OF u(1) this, of e] assms(2) show ?thesis by simp
    next
      case 2
      with assms(2) show ?thesis by (cases e) auto
    qed (use finish_down [OF assms(2)] in blast)
  qed
  ultimately show ?thesis using assms(3) unfolding conn_live_def by blast
qed

subsection \<open>Carrying out what the life cycle does\<close>

definition no_conn :: "server_effect \<Rightarrow> bool" where
  "no_conn e \<longleftrightarrow> (case e of RunLoop c \<Rightarrow> False | CloseConn c \<Rightarrow> False | _ \<Rightarrow> True)"

lemma carried_no_conn:
  "list_all no_conn os \<Longrightarrow> run_steps (carried_out W R services x) os s = (s, map Act os)"
  by (induction os) (auto simp: no_conn_def carried_out_def split: server_effect.splits)

lemma carried_closes:
  assumes "distinct cs" "set cs \<subseteq> {..<length (lv_sessions s)}"
  shows "\<exists>ss. run_steps (carried_out W R services x) (map CloseConn cs) s
      = (s\<lparr>lv_sessions := ss\<rparr>, map Act (map CloseConn cs)) \<and> length ss = length (lv_sessions s) \<and>
    (\<forall>c < length ss. ss ! c = (if c \<in> set cs then fst (unix_step W R services (x, Stopped) (lv_sessions s ! c))
       else lv_sessions s ! c))"
  using assms
proof (induction cs arbitrary: s)
  case Nil
  have "s = s\<lparr>lv_sessions := lv_sessions s\<rparr>" by simp
  then show ?case by (intro exI [of _ "lv_sessions s"]) simp
next
  case (Cons c cs)
  let ?l = "fst (unix_step W R services (x, Stopped) (lv_sessions s ! c))"
  let ?s = "s\<lparr>lv_sessions := (lv_sessions s)[c := ?l]\<rparr>"
  from Cons.prems have prems: "distinct cs" "set cs \<subseteq> {..<length (lv_sessions ?s)}" by simp_all
  from Cons.IH [OF this] obtain ss where
    ss: "run_steps (carried_out W R services x) (map CloseConn cs) ?s = (?s\<lparr>lv_sessions := ss\<rparr>, map Act (map CloseConn cs))"
      "length ss = length (lv_sessions ?s)"
      "\<forall>d < length ss. ss ! d = (if d \<in> set cs then fst (unix_step W R services (x, Stopped) (lv_sessions ?s ! d))
         else lv_sessions ?s ! d)"
    by blast
  have "carried_out W R services x (CloseConn c) s = (?s, [Act (CloseConn c)])" by (simp add: carried_out_def)
  with ss(1) have "run_steps (carried_out W R services x) (map CloseConn (c # cs)) s
      = (s\<lparr>lv_sessions := ss\<rparr>, map Act (map CloseConn (c # cs)))" by simp
  moreover have "ss ! d = (if d \<in> set (c # cs) then fst (unix_step W R services (x, Stopped) (lv_sessions s ! d))
      else lv_sessions s ! d)" if "d < length ss" for d
    using ss(2,3) that Cons.prems by (cases "d = c") auto
  ultimately show ?case using ss(2) by (intro exI [of _ ss]) simp
qed

text \<open>The effects of \<open>stop\<close> begin with the closing of the active connections.\<close>

lemma stop_shape:
  obtains rest where "snd (stop s) = map CloseConn (if running s then activeConnections s else []) @ rest"
    "list_all no_conn rest"
proof -
  have "\<exists>rest. snd (stop s) = map CloseConn (if running s then activeConnections s else []) @ rest \<and> list_all no_conn rest"
    by (auto simp: stop_def close_listener_def stopped_def no_conn_def Let_def split: option.splits)
  with that show ?thesis by blast
qed

lemma stop_state:
  "loops (fst (stop s)) = loops s" "accepted (fst (stop s)) = accepted s"
  "activeConnections (fst (stop s)) = (if running s then [] else activeConnections s)" "\<not> running (fst (stop s))"
  by (auto simp: stop_def close_listener_def stopped_def Let_def split: option.splits)

lemma step_no_conn:
  assumes "\<forall>i. e \<noteq> Accept i" "\<forall>c. e \<noteq> LoopEnded c" "e \<noteq> Stop"
  shows "list_all no_conn (snd (server_step e s)) \<and> loops (fst (server_step e s)) = loops s \<and>
    accepted (fst (server_step e s)) = accepted s \<and> activeConnections (fst (server_step e s)) = activeConnections s"
  using assms by (cases e) (auto simp: server_defs no_conn_def)

subsection \<open>Every step keeps the invariant\<close>

text \<open>A step of the life cycle that touches no connection.\<close>

lemma live_ok_quiet:
  assumes ok: "live_ok W R services es os s"
    and step: "server_step e (lv_server s) = (sv, acts')" "list_all no_conn acts'"
    and same: "loops sv = loops (lv_server s)" "accepted sv = accepted (lv_server s)"
      "activeConnections sv = activeConnections (lv_server s)"
    and run: "live_run W R services (es @ [Life x e]) = (s\<lparr>lv_server := sv\<rparr>, os @ map Act acts')"
  shows "live_ok W R services (es @ [Life x e]) (os @ map Act acts') (s\<lparr>lv_server := sv\<rparr>)"
proof -
  have "\<exists>les. server_run les = (sv, acts os @ acts')"
    using server_run_step [OF _ step(1), of "acts os"] ok by (simp add: live_ok_def)
  moreover have "conn_live W R services (es @ [Life x e]) (os @ map Act acts') (s\<lparr>lv_server := sv\<rparr>) c"
    if "c < length (lv_sessions s)" for c
    using ok that same by (intro conn_live_other) (auto simp: live_ok_def)
  ultimately show ?thesis using ok same run by (simp add: live_ok_def)
qed

text \<open>A new connection.\<close>

lemma live_ok_accept:
  assumes ok: "live_ok W R services es os s" and sv: "handleConnection (lv_server s) = (sv, acts')"
    and step: "server_step (Accept i) (lv_server s) = (sv, acts')"
    and run: "run_steps (carried_out W R services x) acts' (s\<lparr>lv_server := sv\<rparr>) = (s', os')"
    and live: "live_run W R services (es @ [Life x (Accept i)]) = (s', os @ os')"
  shows "live_ok W R services (es @ [Life x (Accept i)]) (os @ os') s'"
proof -
  let ?n = "length (lv_sessions s)"
  have n: "accepted (lv_server s) = ?n" using ok by (simp add: live_ok_def)
  obtain l where l: "loop_head R unix_iconnection services x (fromSocket, []) = (l, [])"
    "ss_at l = Reading AwaitHeader" "unix_session W R services x [] = (l, [])"
    by (rule fresh_loop)
  from sv n have sv': "acts' = [RunLoop ?n]" "accepted sv = Suc ?n"
    "activeConnections sv = activeConnections (lv_server s) @ [?n]" "loops sv = loops (lv_server s) @ [?n]"
    by (auto simp: handleConnection_def Let_def)
  with run l(1) have s': "s' = \<lparr>lv_server = sv, lv_sessions = lv_sessions s @ [l]\<rparr>" "os' = [Act (RunLoop ?n)]"
    by (auto simp: carried_out_def)
  have "\<exists>les. server_run les = (lv_server s', acts (os @ os'))"
    using server_run_step [OF _ step, of "acts os"] ok s' sv'(1) by (simp add: live_ok_def)
  moreover have "conn_live W R services (es @ [Life x (Accept i)]) (os @ os') s' c" if "c < Suc ?n" for c
  proof (cases "c = ?n")
    case True
    have "notes_of ?n os = []" using ok by (simp add: live_ok_def)
    with True l(3) s' have "unix_session W R services x [] = (lv_sessions s' ! c, notes_of c (os @ os'))" by simp
    moreover have "length (lv_sessions (fst (live_run W R services (es @ [Life x (Accept i)])))) = Suc c"
      unfolding live using s' True by simp
    moreover have "length (lv_sessions (fst (live_run W R services es))) = c" using True ok by (simp add: live_ok_def)
    moreover have "es @ [Life x (Accept i)] = es @ Life x (Accept i) # []" "own_events c [] = not_stopped []" by simp_all
    moreover have "(c \<in> set (loops (lv_server s')) \<longleftrightarrow> ss_at (lv_sessions s' ! c) \<noteq> Finished) \<and>
       (c \<notin> set (activeConnections (lv_server s')) \<longrightarrow> \<not> connected (fst (ss_conn (lv_sessions s' ! c))))"
      using True s' sv' l(2) by simp
    ultimately show ?thesis unfolding conn_live_def by blast
  next
    case False
    with that have "c < ?n" by simp
    with ok s' sv' show ?thesis
      by (intro conn_live_other) (auto simp: live_ok_def nth_append)
  qed
  ultimately show ?thesis using ok s' sv'(2) live by (simp add: live_ok_def)
qed

text \<open>\<open>stop\<close> closes the connections that are active.\<close>

lemma live_ok_stop:
  assumes ok: "live_ok W R services es os s" and step: "stop (lv_server s) = (sv, acts')"
    and run: "run_steps (carried_out W R services x) acts' (s\<lparr>lv_server := sv\<rparr>) = (s', os')"
    and live: "live_run W R services (es @ [Life x Stop]) = (s', os @ os')"
  shows "live_ok W R services (es @ [Life x Stop]) (os @ os') s'"
proof -
  let ?cs = "if running (lv_server s) then activeConnections (lv_server s) else []"
  obtain rest where rest: "acts' = map CloseConn ?cs @ rest" "list_all no_conn rest"
    using stop_shape [of "lv_server s"] step by auto
  have les: "\<exists>les. server_run les = (lv_server s, acts os)" using ok by (simp add: live_ok_def)
  note conns = server_run_conns [OF les]
  have "distinct ?cs" "set ?cs \<subseteq> {..<length (lv_sessions (s\<lparr>lv_server := sv\<rparr>))}"
    using conns ok by (auto simp: live_ok_def)
  from carried_closes [OF this, of W R services x] obtain ss where
    ss: "run_steps (carried_out W R services x) (map CloseConn ?cs) (s\<lparr>lv_server := sv\<rparr>)
      = (s\<lparr>lv_server := sv, lv_sessions := ss\<rparr>, map Act (map CloseConn ?cs))" "length ss = length (lv_sessions s)"
      "\<forall>c < length ss. ss ! c = (if c \<in> set ?cs then fst (unix_step W R services (x, Stopped) (lv_sessions s ! c))
         else lv_sessions s ! c)"
    by auto
  from run ss(1) carried_no_conn [OF rest(2), of W R services x] have
    s': "s' = s\<lparr>lv_server := sv, lv_sessions := ss\<rparr>" and os': "os' = map Act acts'"
    unfolding rest(1) by (auto simp: run_steps_append simp del: map_map)
  have sv: "loops sv = loops (lv_server s)" "accepted sv = accepted (lv_server s)"
    "activeConnections sv = (if running (lv_server s) then [] else activeConnections (lv_server s))"
    using stop_state [of "lv_server s"] step by auto
  have "\<exists>les. server_run les = (lv_server s', acts (os @ os'))"
    using server_run_step [OF les, of Stop] step s' os' by simp
  moreover have "conn_live W R services (es @ [Life x Stop]) (os @ os') s' c" if c: "c < length (lv_sessions s)" for c
  proof (cases "c \<in> set ?cs")
    case True
    with c ok have l: "conn_live W R services es os s c" by (simp add: live_ok_def)
    obtain l' log where st: "unix_step W R services (x, Stopped) (lv_sessions s ! c) = (l', log)" by fastforce
    show ?thesis
      by (rule conn_live_steps [OF l st]) (use True c ss(2,3) st s' os' sv in auto)
  next
    case False
    with c ok ss(2,3) s' os' sv show ?thesis
      by (intro conn_live_other) (auto simp: live_ok_def split: if_splits)
  qed
  ultimately show ?thesis using ok s' os' sv(2) ss(2) live by (simp add: live_ok_def)
qed

text \<open>An event of a connection.\<close>

lemma live_ok_conn:
  assumes ok: "live_ok W R services es os s" and c: "c < length (lv_sessions s)" "ev \<noteq> Stopped"
    and step: "unix_step W R services (x, ev) (lv_sessions s ! c) = (after, log)"
    and fin: "finally_run c (lv_sessions s ! c) after (lv_server s) = (sv, acts')"
    and live_run: "live_run W R services (es @ [Conn c x ev]) =
      (\<lparr>lv_server = sv, lv_sessions = (lv_sessions s)[c := after]\<rparr>, os @ map (Note c) log @ map Act acts')"
  shows "live_ok W R services (es @ [Conn c x ev]) (os @ map (Note c) log @ map Act acts')
    \<lparr>lv_server = sv, lv_sessions = (lv_sessions s)[c := after]\<rparr>"
proof -
  let ?ended = "ss_at after = Finished \<and> ss_at (lv_sessions s ! c) \<noteq> Finished"
  let ?s = "\<lparr>lv_server = sv, lv_sessions = (lv_sessions s)[c := after]\<rparr>"
  have les: "\<exists>les. server_run les = (lv_server s, acts os)" using ok by (simp add: live_ok_def)
  note conns = server_run_conns [OF les]
  have live: "conn_live W R services es os s c" using ok c(1) by (simp add: live_ok_def)
  have les': "\<exists>les. server_run les = (sv, acts os @ acts')"
  proof (cases ?ended)
    case True
    with live have "c \<in> set (loops (lv_server s))" by (simp add: conn_live_def)
    with True fin have "server_step (LoopEnded c) (lv_server s) = (sv, acts')" by (simp add: finally_run_def)
    from server_run_step [OF les this] show ?thesis .
  qed (use fin les in \<open>auto simp: finally_run_def\<close>)
  have sv: "accepted sv = accepted (lv_server s)"
    "set (loops sv) = set (loops (lv_server s)) - (if ?ended then {c} else {})"
    "set (activeConnections sv) = set (activeConnections (lv_server s)) - (if ?ended then {c} else {})"
    using fin conns by (auto simp: finally_run_def loop_ended_def split: if_splits)
  have "conn_live W R services (es @ [Conn c x ev]) (os @ map (Note c) log @ map Act acts') ?s d"
    if d: "d < length (lv_sessions s)" for d
  proof (cases "d = c")
    case True
    show ?thesis unfolding True
      by (rule conn_live_steps [OF live step]) (use c sv in auto)
  next
    case False
    with ok d sv show ?thesis by (intro conn_live_other) (auto simp: live_ok_def)
  qed
  with les' ok sv(1) c(1) live_run show ?thesis by (auto simp: live_ok_def)
qed

lemma live_ok_same:
  assumes ok: "live_ok W R services es os s" and step: "live_step W R services e s = (s, [])"
    and own: "\<And>c. c < length (lv_sessions s) \<Longrightarrow> own_events c [e] = []"
  shows "live_ok W R services (es @ [e]) os s"
proof -
  have "conn_live W R services (es @ [e]) (os @ []) s c" if "c < length (lv_sessions s)" for c
    using ok own that by (intro conn_live_other) (auto simp: live_ok_def)
  with ok live_run_step [OF ok step] show ?thesis by (simp add: live_ok_def)
qed

lemma live_ok_step:
  assumes ok: "live_ok W R services es os s" and step: "live_step W R services e s = (s', os')"
  shows "live_ok W R services (es @ [e]) (os @ os') s'"
proof (cases e)
  note live = live_run_step [OF ok step]
  case (Life x ev)
  obtain sv acts' where sv: "server_step ev (lv_server s) = (sv, acts')" by fastforce
  have run: "run_steps (carried_out W R services x) acts' (s\<lparr>lv_server := sv\<rparr>) = (s', os')" if "\<forall>c. ev \<noteq> LoopEnded c"
    using step sv that Life by (cases ev) simp_all
  consider (accept) i where "ev = Accept i" "i < length (listeners (lv_server s))" | (stop) "ev = Stop"
    | (ended) c where "ev = LoopEnded c"
    | (other) "\<forall>i. ev \<noteq> Accept i" "\<forall>c. ev \<noteq> LoopEnded c" "ev \<noteq> Stop"
    | (none) i where "ev = Accept i" "\<not> i < length (listeners (lv_server s))"
    by (cases ev) blast+
  then show ?thesis
  proof cases
    case accept
    with sv run show ?thesis using live unfolding Life accept(1) by (intro live_ok_accept [OF ok]) auto
  next
    case stop
    with sv run show ?thesis using live unfolding Life stop by (intro live_ok_stop [OF ok]) auto
  next
    case ended
    with step Life have "s' = s" "os' = []" by auto
    with step Life show ?thesis using live_ok_same [OF ok, of e] by simp
  next
    case other
    from step_no_conn [OF other, of "lv_server s"] sv have q: "list_all no_conn acts'"
      "loops sv = loops (lv_server s)" "accepted sv = accepted (lv_server s)"
      "activeConnections sv = activeConnections (lv_server s)" by simp_all
    from run [OF other(2)] carried_no_conn [OF q(1), of W R services x "s\<lparr>lv_server := sv\<rparr>"] Life
    show ?thesis using live_ok_quiet [OF ok sv q, of x] live by auto
  next
    case none
    with sv run have "s' = s" "os' = []" by auto
    with step Life show ?thesis using live_ok_same [OF ok, of e] by simp
  qed
next
  case (Conn c x ev)
  show ?thesis
  proof (cases "c < length (lv_sessions s) \<and> ev \<noteq> Stopped")
    case True
    obtain after log where u: "unix_step W R services (x, ev) (lv_sessions s ! c) = (after, log)" by fastforce
    obtain sv acts' where f: "finally_run c (lv_sessions s ! c) after (lv_server s) = (sv, acts')" by fastforce
    from step True u f Conn have "s' = \<lparr>lv_server = sv, lv_sessions = (lv_sessions s)[c := after]\<rparr>"
      "os' = map (Note c) log @ map Act acts'" by auto
    with live_ok_conn [OF ok _ _ u f] True Conn live_run_step [OF ok step] show ?thesis by simp
  next
    case False
    with step Conn have "s' = s" "os' = []" by auto
    with step Conn False show ?thesis using live_ok_same [OF ok, of e] by auto
  qed
qed

lemma live_ok_run: "live_ok W R services es (snd (live_run W R services es)) (fst (live_run W R services es))"
proof -
  have "server_run [] = (new_server, [])" by simp
  then have "live_ok W R services [] [] new_live" unfolding live_ok_def new_live_def
    by (simp add: new_server_def) (metis run_steps.simps(1))
  from run_steps_log [where P = "live_ok W R services", OF live_ok_step this, where es = es]
  show ?thesis by simp
qed

subsection \<open>A closed connection stays silent\<close>

text \<open>What one effect does to a connection that is there already: at most a \<open>Stopped\<close>.\<close>

lemma carried_server [simp]: "lv_server (fst (carried_out W R services x e s)) = lv_server s"
  by (auto simp: carried_out_def split: server_effect.splits prod.splits)

lemma carried_session:
  assumes "c < length (lv_sessions s)"
  shows "c < length (lv_sessions (fst (carried_out W R services x e s))) \<and>
    (lv_sessions (fst (carried_out W R services x e s)) ! c = lv_sessions s ! c \<or>
     lv_sessions (fst (carried_out W R services x e s)) ! c = fst (unix_step W R services (x, Stopped) (lv_sessions s ! c)))"
proof (cases e)
  case (CloseConn d)
  with assms show ?thesis by (cases "d = c") (auto simp: carried_out_def)
qed (use assms in \<open>auto simp: carried_out_def nth_append split: prod.splits\<close>)

lemma carried_run_session:
  assumes step: "\<And>l. I l \<Longrightarrow> I (fst (unix_step W R services (x, Stopped) l))"
    and "c < length (lv_sessions s)" "I (lv_sessions s ! c)"
  shows "c < length (lv_sessions (fst (run_steps (carried_out W R services x) os s))) \<and>
    I (lv_sessions (fst (run_steps (carried_out W R services x) os s)) ! c)"
proof (rule run_steps_invariant [where I = "\<lambda>s. c < length (lv_sessions s) \<and> I (lv_sessions s ! c)"])
  fix e and t :: live_server assume "c < length (lv_sessions t) \<and> I (lv_sessions t ! c)"
  with carried_session [of c t W R services x e] step [of "lv_sessions t ! c"]
  show "c < length (lv_sessions (fst (carried_out W R services x e t))) \<and>
      I (lv_sessions (fst (carried_out W R services x e t)) ! c)" by auto
qed (use assms in simp)

lemma live_step_session:
  assumes step: "\<And>e l. I l \<Longrightarrow> I (fst (unix_step W R services e l))"
    and "c < length (lv_sessions s)" "I (lv_sessions s ! c)"
  shows "c < length (lv_sessions (fst (live_step W R services e s))) \<and>
    I (lv_sessions (fst (live_step W R services e s)) ! c)"
proof (cases e)
  case (Life x ev)
  let ?s = "s\<lparr>lv_server := fst (server_step ev (lv_server s))\<rparr>"
  have "c < length (lv_sessions ?s)" "I (lv_sessions ?s ! c)" using assms(2,3) by simp_all
  note r = carried_run_session [where I = I and s = ?s, OF step this]
  have "fst (live_step W R services e s) = s \<or> fst (live_step W R services e s)
      = fst (run_steps (carried_out W R services x) (snd (server_step ev (lv_server s))) ?s)"
    using Life by (cases ev) (auto simp: split_def Let_def)
  with r assms(2,3) show ?thesis by auto
next
  case (Conn d x ev)
  with assms(2,3) step [of "lv_sessions s ! c" "(x, ev)"] show ?thesis
    by (cases "d = c") (auto simp: split_def Let_def)
qed

lemma live_steps_silent:
  assumes "c < length (lv_sessions s)" "unix.shut sent (lv_sessions s ! c)"
  shows "written (snd (ss_conn (lv_sessions (fst (run_steps (live_step W R services) es s)) ! c))) = sent"
proof -
  have "c < length (lv_sessions (fst (run_steps (live_step W R services) es s))) \<and>
    unix.shut sent (lv_sessions (fst (run_steps (live_step W R services) es s)) ! c)"
    by (rule run_steps_invariant [where I = "\<lambda>s. c < length (lv_sessions s) \<and> unix.shut sent (lv_sessions s ! c)"])
      (use live_step_session [where I = "unix.shut sent" and W = W and R = R and services = services, OF unix.shut_step]
        assms in blast)+
  then show ?thesis by (simp add: unix.shut_def unix_view_def)
qed

text \<open>After \<open>stop\<close>: nothing is active, no loop has moved, no connection is up.\<close>

lemma stopped_live:
  assumes ok: "live_ok W R services es os s" and run: "running (lv_server s)"
    and s': "s' = fst (live_step W R services (Life x Stop) s)"
  shows "activeConnections (lv_server s') = []" "loops (lv_server s') = loops (lv_server s)"
    "c < length (lv_sessions s) \<Longrightarrow> c < length (lv_sessions s') \<and>
       ss_at (lv_sessions s' ! c) = ss_at (lv_sessions s ! c) \<and>
       unix.shut (written (snd (ss_conn (lv_sessions s ! c)))) (lv_sessions s' ! c)"
proof -
  let ?s = "s\<lparr>lv_server := fst (stop (lv_server s))\<rparr>"
  have st: "s' = fst (run_steps (carried_out W R services x) (snd (stop (lv_server s))) ?s)"
    by (simp add: s' split_def Let_def)
  have "lv_server (fst (run_steps (carried_out W R services x) os t)) = lv_server t" for os t
    by (rule run_steps_invariant [where I = "\<lambda>u. lv_server u = lv_server t"]) simp_all
  then have sv: "lv_server s' = fst (stop (lv_server s))" by (simp add: st)
  with run show active: "activeConnections (lv_server s') = []" "loops (lv_server s') = loops (lv_server s)"
    by (simp_all add: stop_state)
  assume c: "c < length (lv_sessions s)"
  let ?I = "\<lambda>l. ss_at l = ss_at (lv_sessions s ! c) \<and>
    written (snd (ss_conn l)) = written (snd (ss_conn (lv_sessions s ! c)))"
  have "c < length (lv_sessions s') \<and> ?I (lv_sessions s' ! c)"
    unfolding st using c by (intro carried_run_session [where I = ?I]) (auto simp: provider_defs close_def)
  moreover obtain os' where "live_step W R services (Life x Stop) s = (s', os')"
    using s' by (metis prod.collapse)
  from live_ok_step [OF ok this] have "live_ok W R services (es @ [Life x Stop]) (os @ os') s'" .
  with calculation have "conn_live W R services (es @ [Life x Stop]) (os @ os') s' c" by (simp add: live_ok_def)
  then obtain x0 ec where "unix_session W R services x0 ec = (lv_sessions s' ! c, notes_of c (os @ os'))"
    and "c \<notin> set (activeConnections (lv_server s')) \<longrightarrow> \<not> connected (fst (ss_conn (lv_sessions s' ! c)))"
    unfolding conn_live_def by blast
  with active(1) have "unix_session W R services x0 ec = (lv_sessions s' ! c, notes_of c (os @ os'))"
    "\<not> connected (fst (ss_conn (lv_sessions s' ! c)))" by simp_all
  from reached_shut [OF this] show "c < length (lv_sessions s') \<and>
       ss_at (lv_sessions s' ! c) = ss_at (lv_sessions s ! c) \<and>
       unix.shut (written (snd (ss_conn (lv_sessions s ! c)))) (lv_sessions s' ! c)"
    using calculation by simp
qed

text \<open>
  The event a loop awaits: the socket's close when it waits for a request, its handler, its
  write. A handler that never settles and a finished loop have none.
\<close>

definition awaited :: "transport_error \<Rightarrow> transport_error option \<Rightarrow> loop_point \<Rightarrow> session_event option" where
  "awaited e err p = (case p of
     Reading k \<Rightarrow> Some (Down e)
   | Handling (Some r) \<Rightarrow> Some HandlerSettled
   | Writing r k \<Rightarrow> Some (WriteSettled err)
   | _ \<Rightarrow> None)"

lemma shut_awaited:
  assumes shut: "unix.shut sent l" and ev: "awaited e err (ss_at l) = Some ev"
  shows "ss_at (fst (unix_step W R services (x, ev) l)) = Finished"
proof -
  consider (reading) k where "ss_at l = Reading k" "ev = Down e"
    | (handling) r where "ss_at l = Handling (Some r)" "ev = HandlerSettled"
    | (writing) r k where "ss_at l = Writing r k" "ev = WriteSettled err"
    using ev by (auto simp: awaited_def split: loop_point.splits option.splits)
  then show ?thesis
  proof cases
    case reading
    with unix.shut_hangup [OF shut, where W = W and R = R and services = services and x = x and e = e and k = k]
    show ?thesis by (simp only:)
  next
    case handling
    with unix.shut_handled [OF shut, where W = W and R = R and services = services and x = x]
    show ?thesis by (simp only:)
  next
    case writing
    with unix.shut_written [OF shut, where W = W and R = R and services = services and x = x and err = err]
    show ?thesis by (simp only:)
  qed
qed

abbreviation settle_all ::
    "'x \<Rightarrow> transport_error \<Rightarrow> transport_error option \<Rightarrow> live_server \<Rightarrow> nat list \<Rightarrow> 'x live_event list" where
  "settle_all x e err s cs \<equiv> map (\<lambda>c. Conn c x (the (awaited e err (ss_at (lv_sessions s ! c))))) cs"

lemma loops_settle:
  assumes "distinct cs" "distinct (loops (lv_server s))"
    and "\<forall>c \<in> set cs. c < length (lv_sessions s) \<and> (\<exists>sent. unix.shut sent (lv_sessions s ! c)) \<and>
      awaited e err (ss_at (lv_sessions s ! c)) \<noteq> None"
  shows "set (loops (lv_server (fst (run_steps (live_step W R services) (settle_all x e err s cs) s))))
    = set (loops (lv_server s)) - set cs"
  using assms
proof (induction cs arbitrary: s)
  case (Cons c cs)
  from Cons.prems obtain sent ev where c: "c < length (lv_sessions s)" "unix.shut sent (lv_sessions s ! c)"
    "awaited e err (ss_at (lv_sessions s ! c)) = Some ev" by auto
  have ev: "ev \<noteq> Stopped" "ss_at (lv_sessions s ! c) \<noteq> Finished"
    using c(3) by (auto simp: awaited_def split: loop_point.splits option.splits)
  obtain l log where l: "unix_step W R services (x, ev) (lv_sessions s ! c) = (l, log)" by fastforce
  with shut_awaited [OF c(2,3), of W R services x] have "ss_at l = Finished" by simp
  with c l ev have step: "live_step W R services (Conn c x ev) s
      = (\<lparr>lv_server = fst (loop_ended c (lv_server s)), lv_sessions = (lv_sessions s)[c := l]\<rparr>,
         map (Note c) log @ map Act (snd (loop_ended c (lv_server s))))" (is "_ = (?s, _)")
    by (simp add: finally_run_def split_def Let_def)
  have same: "lv_sessions ?s ! d = lv_sessions s ! d" if "d \<in> set cs" for d
    using that Cons.prems(1) by (cases "d = c") auto
  have "distinct (loops (lv_server ?s))" "distinct cs" using Cons.prems by (simp_all add: loop_ended_def)
  moreover have "\<forall>c \<in> set cs. c < length (lv_sessions ?s) \<and> (\<exists>sent. unix.shut sent (lv_sessions ?s ! c)) \<and>
      awaited e err (ss_at (lv_sessions ?s ! c)) \<noteq> None"
    using Cons.prems(3) same by simp
  ultimately have ih: "set (loops (lv_server (fst (run_steps (live_step W R services) (settle_all x e err ?s cs) ?s))))
      = set (loops (lv_server ?s)) - set cs" using Cons.IH [of ?s] by blast
  have left: "set (loops (lv_server ?s)) = set (loops (lv_server s)) - {c}"
    using Cons.prems(2) by (simp add: loop_ended_def)
  have "settle_all x e err ?s cs = settle_all x e err s cs"
    by (rule map_cong) (simp_all only: same)
  then have events: "settle_all x e err s (c # cs) = Conn c x ev # settle_all x e err ?s cs"
    by (simp only: list.map c(3) option.sel)
  have "fst (run_steps (live_step W R services) (Conn c x ev # es) s)
      = fst (run_steps (live_step W R services) es ?s)" for es
    unfolding run_steps.simps(2) step by (simp add: split_def Let_def)
  then show ?case unfolding events by (simp only: ih left) auto
qed simp

subsection \<open>A server with two connections\<close>

text \<open>Two connections: the second is accepted while the first waits for the rest of a header.\<close>

definition two_clients :: "unit live_event list" where
  "two_clients = [Life () Start, Life () (Listening 0), Life () (Accept 0), Conn 0 () (Data [0, 0]), Life () (Accept 0)]"

lemma two_clients_run:
  "\<exists>s os. live_run W R services two_clients = (s, os) \<and> length (lv_sessions s) = 2 \<and>
     running (lv_server s) \<and> loops (lv_server s) = [0, 1] \<and> ss_at (lv_sessions s ! 0) = Reading AwaitHeader \<and>
     ss_at (lv_sessions s ! 1) = Reading AwaitHeader"
proof -
  let ?l = "\<lambda>b. \<lparr>ss_conn = (new_connection\<lparr>buffer := b, waiters := [\<lparr>need = 4, token = 0\<rparr>]\<rparr>, []),
    ss_at = Reading AwaitHeader\<rparr> :: logged_conn session"
  have l: "loop_head R unix_iconnection services () (fromSocket, []) = (?l [], [])"
    by (simp add: loop_head_def codec_recv_def codec_received_def recvFrame_def request_received_def provider_defs
      isConnected_def recv_def fromSocket_def new_connection_def)
  have d: "session_settle R unix_iconnection services () (se_arrive unix_events [0, 0] (ss_conn (?l []))) (?l []) = (?l [0, 0], [])"
    by (simp add: session_settle_def provider_defs on_data_def drain_single new_connection_def)
  show ?thesis
    unfolding two_clients_def new_live_def
    using l d by (simp add: carried_out_def finally_run_def server_defs new_server_def)
qed

subsection \<open>Properties\<close>

text \<open>
  C20. Connections do not interfere: in a run of the whole server, with any interleaving of the
  events of any number of connections and of starts and stops, the loop of each accepted
  connection is in the state, and has received the requests and sent the replies, of a run of
  this loop alone on the events of this connection since it was accepted, up to the closing by
  \<open>stop\<close>; the bytes written on it are the frames of its replies, in the order of its requests,
  and at most a part of the next; and the server still counts its loop exactly when the loop has
  not ended, and has closed it if it is no longer active.
\<close>

theorem connections_isolated:
  assumes "live_run W R services es = (s, os)" "c < length (lv_sessions s)"
  shows "(\<exists>x0 ec es1 e es2. es = es1 @ e # es2 \<and> length (lv_sessions (fst (live_run W R services es1))) = c \<and>
      length (lv_sessions (fst (live_run W R services (es1 @ [e])))) = Suc c \<and>
      unix_session W R services x0 ec = (lv_sessions s ! c, notes_of c os) \<and> own_events c es2 = not_stopped ec) \<and>
    (\<exists>pending part. answers services (notes_of c os) = map Some (replies (notes_of c os)) @ pending \<and>
      length pending \<le> 1 \<and>
      written (snd (ss_conn (lv_sessions s ! c))) = concat (map (reply_frame W) (replies (notes_of c os))) @ part \<and>
      (part = [] \<or> (\<exists>r rest. pending = [Some r] \<and> part @ rest = reply_frame W r))) \<and>
    (c \<in> set (loops (lv_server s)) \<longleftrightarrow> ss_at (lv_sessions s ! c) \<noteq> Finished) \<and>
    (c \<in> set (activeConnections (lv_server s)) \<or> \<not> connected (fst (ss_conn (lv_sessions s ! c))))"
proof (intro conjI)
  from live_ok_run [of W R services es] assms have live: "conn_live W R services es os s c"
    by (simp add: live_ok_def)
  then show "\<exists>x0 ec es1 e es2. es = es1 @ e # es2 \<and> length (lv_sessions (fst (live_run W R services es1))) = c \<and>
      length (lv_sessions (fst (live_run W R services (es1 @ [e])))) = Suc c \<and>
      unix_session W R services x0 ec = (lv_sessions s ! c, notes_of c os) \<and> own_events c es2 = not_stopped ec"
    unfolding conn_live_def by blast
  then obtain x0 ec where u: "unix_session W R services x0 ec = (lv_sessions s ! c, notes_of c os)" by blast
  from unix_session_inv [of W R services ec x0] have "sent_inv unix_view W services (snd (unix_session W R services x0 ec))
      (fst (unix_session W R services x0 ec))" unfolding unix.session_inv_def by blast
  from sent_inv_part [OF this] show "\<exists>pending part. answers services (notes_of c os)
        = map Some (replies (notes_of c os)) @ pending \<and> length pending \<le> 1 \<and>
      written (snd (ss_conn (lv_sessions s ! c))) = concat (map (reply_frame W) (replies (notes_of c os))) @ part \<and>
      (part = [] \<or> (\<exists>r rest. pending = [Some r] \<and> part @ rest = reply_frame W r))"
    by (simp add: u unix_view_def)
  from live show "c \<in> set (loops (lv_server s)) \<longleftrightarrow> ss_at (lv_sessions s ! c) \<noteq> Finished"
    "c \<in> set (activeConnections (lv_server s)) \<or> \<not> connected (fst (ss_conn (lv_sessions s ! c)))"
    unfolding conn_live_def by blast+
qed

theorem connections_isolated_witness:
  "\<exists>s os x0 ec es1 e es2. live_run wire_writer wire_reader sample_services two_clients = (s, os) \<and>
     two_clients = es1 @ e # es2 \<and> length (lv_sessions (fst (live_run wire_writer wire_reader sample_services es1))) = 0 \<and>
     length (lv_sessions (fst (live_run wire_writer wire_reader sample_services (es1 @ [e])))) = 1 \<and>
     unix_session wire_writer wire_reader sample_services x0 ec = (lv_sessions s ! 0, notes_of 0 os) \<and>
     own_events 0 es2 = not_stopped ec"
proof -
  from two_clients_run [of wire_writer wire_reader sample_services] obtain s os where
    r: "live_run wire_writer wire_reader sample_services two_clients = (s, os)" "length (lv_sessions s) = 2" by blast
  then have "0 < length (lv_sessions s)" by simp
  from connections_isolated [OF r(1) this] r(1) show ?thesis unfolding One_nat_def by blast
qed

text \<open>
  C21. Stopping a server ends its work: when a running server is stopped, with any number of
  connections, whatever happened before, then from that moment nothing more is written on any of
  them, whatever happens later; and when each loop that has not ended sees what it awaits (the
  close of its socket, its handler, its write), none of the server's loops is left.
\<close>

theorem stopped_server_ends:
  assumes "live_run W R services es = (s, os)" "running (lv_server s)"
    and "live_step W R services (Life x Stop) s = (s1, os1)"
    and "c < length (lv_sessions s)"
    and "\<forall>d \<in> set (loops (lv_server s)). awaited e err (ss_at (lv_sessions s ! d)) \<noteq> None"
  shows "written (snd (ss_conn (lv_sessions (fst (run_steps (live_step W R services) later s1)) ! c)))
      = written (snd (ss_conn (lv_sessions s ! c))) \<and>
    activeConnections (lv_server s1) = [] \<and>
    loops (lv_server (fst (run_steps (live_step W R services) (settle_all x1 e err s1 (loops (lv_server s))) s1))) = []"
proof (intro conjI)
  have ok: "live_ok W R services es os s" using live_ok_run [of W R services es] assms(1) by simp
  have s1: "s1 = fst (live_step W R services (Life x Stop) s)" using assms(3) by simp
  note stopped = stopped_live [OF ok assms(2) s1]
  from stopped(3) [OF assms(4)] show "written (snd (ss_conn
      (lv_sessions (fst (run_steps (live_step W R services) later s1)) ! c))) = written (snd (ss_conn (lv_sessions s ! c)))"
    by (intro live_steps_silent) simp_all
  show "activeConnections (lv_server s1) = []" by (rule stopped(1))
  have conns: "distinct (loops (lv_server s))" "set (loops (lv_server s)) \<subseteq> {..<length (lv_sessions s)}"
    using server_run_conns [of "lv_server s" "acts os"] ok by (simp_all add: live_ok_def)
  have "d < length (lv_sessions s1) \<and> (\<exists>sent. unix.shut sent (lv_sessions s1 ! d)) \<and>
      awaited e err (ss_at (lv_sessions s1 ! d)) \<noteq> None" if "d \<in> set (loops (lv_server s))" for d
    using stopped(3) [of d] conns(2) assms(5) that by auto
  with loops_settle [of "loops (lv_server s)" s1 e err W R services x1] conns(1) stopped(2)
  show "loops (lv_server (fst (run_steps (live_step W R services) (settle_all x1 e err s1 (loops (lv_server s))) s1))) = []"
    by simp
qed

theorem stopped_server_ends_witness:
  "\<exists>s1. s1 = fst (live_step wire_writer wire_reader sample_services (Life () Stop)
       (fst (live_run wire_writer wire_reader sample_services two_clients))) \<and>
     activeConnections (lv_server s1) = [] \<and>
     loops (lv_server (fst (run_steps (live_step wire_writer wire_reader sample_services)
       (settle_all () connection_closed None s1 [0, 1]) s1))) = []"
proof -
  let ?run = "live_run wire_writer wire_reader sample_services two_clients"
  from two_clients_run [of wire_writer wire_reader sample_services] obtain s os where
    r: "?run = (s, os)" "running (lv_server s)" "length (lv_sessions s) = 2" "loops (lv_server s) = [0, 1]"
      "ss_at (lv_sessions s ! 0) = Reading AwaitHeader" "ss_at (lv_sessions s ! 1) = Reading AwaitHeader"
    by blast
  obtain s1 os1 where s1: "live_step wire_writer wire_reader sample_services (Life () Stop) s = (s1, os1)" by fastforce
  have "0 < length (lv_sessions s)"
    "\<forall>d \<in> set (loops (lv_server s)). awaited connection_closed None (ss_at (lv_sessions s ! d)) \<noteq> None"
    using r(3-6) by (simp_all add: awaited_def)
  from stopped_server_ends [OF r(1,2) s1 this, of "[]" "()"] r(1,4) s1 show ?thesis by auto
qed

end
