(* ===== verification/JS_Value.thy ===== *)
theory JS_Value
  imports Envelope Service_Messages
begin

section \<open>JavaScript values, as the generated conversions inspect them\<close>

text \<open>
  The generated functions \<open>verify\<close>, \<open>fromObject\<close> and \<open>toObject\<close> take and give values of any
  type. A number is a safe integer, or any other number, known by its rendering and by whether
  it is integral. An object has the name of its message class, empty for a plain object, and
  its own properties; buffers, arrays and \<open>Long\<close> objects are values of their own. Plain objects
  inherit from \<open>Object.prototype\<close> and do not redefine \<open>hasOwnProperty\<close>.
\<close>

datatype js_number = Safe int | Other string bool

datatype js =
    JUndefined
  | JNull
  | JBool bool
  | JNum js_number
  | JStr string
  | JBuf bytes
  | JArr "js list"
  | JLong u64 bool                       \<comment> \<open>value, unsigned\<close>
  | JObj string "(string \<times> js) list"     \<comment> \<open>class, own properties\<close>

abbreviation plain :: "(string \<times> js) list \<Rightarrow> js" where
  "plain ps \<equiv> JObj '''' ps"

text \<open>The prototypes of the message classes.\<close>

definition prototypes :: "(string \<times> (string \<times> js) list) list" where
  "prototypes =
     [(''Envelope'', [(''type'', JNum (Safe 0)), (''requestId'', JLong 0 True), (''serviceName'', JStr ''''),
         (''methodName'', JStr ''''), (''payload'', JBuf []), (''status'', JNum (Safe 0)),
         (''errorMessage'', JStr ''''), (''metadata'', plain [])]),
      (''Ping'', [(''clientId'', JStr '''')]),
      (''Pong'', [(''serverId'', JStr ''''), (''timestampMs'', JLong 0 False)]),
      (''ServiceDescriptor'', [(''name'', JStr ''''), (''methods'', JArr [])]),
      (''EchoRequest'', [(''message'', JStr '''')]),
      (''EchoResponse'', [(''message'', JStr ''''), (''timestampMs'', JLong 0 False)])]"

subsection \<open>Reading properties\<close>

definition low_word :: "u64 \<Rightarrow> js" where "low_word v = JNum (Safe (sint (ucast v :: u32)))"
definition high_word :: "u64 \<Rightarrow> js" where "high_word v = JNum (Safe (sint (ucast (drop_bit 32 v) :: u32)))"

definition js_byte :: "8 word \<Rightarrow> js" where
  "js_byte b = JNum (Safe (uint b))"

definition indexed :: "js list \<Rightarrow> (string \<times> js) list" where
  "indexed vs = map (\<lambda>(i, v). (show_nat i, v)) (enumerate 0 vs)"

text \<open>The own properties that \<open>Object.keys\<close> lists.\<close>

fun own_properties :: "js \<Rightarrow> (string \<times> js) list" where
  "own_properties (JObj cls ps) = ps"
| "own_properties (JArr vs) = indexed vs"
| "own_properties (JBuf b) = indexed (map js_byte b)"
| "own_properties (JStr s) = indexed (map (\<lambda>c. JStr [c]) s)"
| "own_properties (JLong v u) = [(''low'', low_word v), (''high'', high_word v), (''unsigned'', JBool u)]"
| "own_properties _ = []"

text \<open>Properties that are not enumerable, or that are inherited.\<close>

fun hidden_properties :: "js \<Rightarrow> (string \<times> js) list" where
  "hidden_properties (JObj cls ps) = default [] (map_of prototypes cls)"
| "hidden_properties (JArr vs) = [(''length'', JNum (Safe (int (length vs))))]"
| "hidden_properties (JBuf b) = [(''length'', JNum (Safe (int (length b))))]"
| "hidden_properties (JStr s) = [(''length'', JNum (Safe (int (length s))))]"
| "hidden_properties _ = []"

text \<open>\<open>v.k\<close>; reading from \<open>null\<close> or \<open>undefined\<close> throws.\<close>

definition get :: "js \<Rightarrow> string \<Rightarrow> js" where
  "get v k = default JUndefined (map_of (own_properties v @ hidden_properties v) k)"

definition readable :: "js \<Rightarrow> bool" where
  "readable v \<longleftrightarrow> v \<noteq> JUndefined \<and> v \<noteq> JNull"

text \<open>\<open>v.k != null && v.hasOwnProperty(k)\<close>\<close>

definition own :: "js \<Rightarrow> string \<Rightarrow> js option" where
  "own v k = (case map_of (own_properties v) k of
     Some x \<Rightarrow> (if readable x then Some x else None) | None \<Rightarrow> None)"

lemma map_of_indexed:
  assumes "i < length vs"
  shows "map_of (indexed vs) (show_nat i) = Some (vs ! i)"
proof -
  have "distinct (map fst (indexed vs))"
    by (auto simp: indexed_def distinct_map inj_on_def show_nat_inj enumerate_eq_zip set_zip distinct_zipI1)
  moreover have "(show_nat i, vs ! i) \<in> set (indexed vs)"
    using assms by (force simp: indexed_def enumerate_eq_zip set_zip)
  ultimately show ?thesis by (rule map_of_is_SomeI)
qed

lemma map_of_indexed_name:
  assumes "\<not> list_all is_digit k"
  shows "map_of (indexed vs) k = None"
  using assms show_nat_digits by (auto simp: indexed_def map_of_eq_None_iff)

text \<open>The length of an array-like value, and its elements.\<close>

lemma get_length:
  "get (JBuf x) ''length'' = JNum (Safe (int (length x)))"
  "get (JArr vs) ''length'' = JNum (Safe (int (length vs)))"
  "get (JStr s) ''length'' = JNum (Safe (int (length s)))"
  by (simp_all add: get_def map_of_indexed_name is_digit_def map_add_def)

lemma get_element: "i < length vs \<Longrightarrow> get (JArr vs) (show_nat i) = vs ! i"
  by (simp add: get_def map_of_indexed map_add_def)

subsection \<open>Tests\<close>

definition is_object :: "js \<Rightarrow> bool" where
  "is_object v \<longleftrightarrow> (case v of JBuf _ \<Rightarrow> True | JArr _ \<Rightarrow> True | JLong _ _ \<Rightarrow> True | JObj _ _ \<Rightarrow> True | _ \<Rightarrow> False)"

definition instance_of :: "string \<Rightarrow> js \<Rightarrow> bool" where
  "instance_of cls v \<longleftrightarrow> (case v of JObj c _ \<Rightarrow> c = cls | _ \<Rightarrow> False)"

definition is_number :: "js \<Rightarrow> bool" where
  "is_number v \<longleftrightarrow> (case v of JNum _ \<Rightarrow> True | _ \<Rightarrow> False)"

definition is_string :: "js \<Rightarrow> bool" where
  "is_string v \<longleftrightarrow> (case v of JStr _ \<Rightarrow> True | _ \<Rightarrow> False)"

definition is_integer :: "js \<Rightarrow> bool" where
  "is_integer v \<longleftrightarrow> (case v of JNum (Safe _) \<Rightarrow> True | JNum (Other _ i) \<Rightarrow> i | _ \<Rightarrow> False)"

definition truthy :: "js \<Rightarrow> bool" where
  "truthy v \<longleftrightarrow> (case v of JUndefined \<Rightarrow> False | JNull \<Rightarrow> False | JBool b \<Rightarrow> b
     | JNum (Safe i) \<Rightarrow> i \<noteq> 0 | JNum (Other s _) \<Rightarrow> s \<noteq> ''NaN'' | JStr s \<Rightarrow> s \<noteq> [] | _ \<Rightarrow> True)"

definition integer_or_long :: "js \<Rightarrow> bool" where
  "integer_or_long v \<longleftrightarrow> is_integer v \<or> (truthy v \<and> is_integer (get v ''low'') \<and> is_integer (get v ''high''))"

subsection \<open>What the conversions call\<close>

text \<open>
  The package \<open>long\<close> (\<open>fromValue\<close>, \<open>toString\<close>, \<open>toNumber\<close>), the helpers of \<open>protobufjs\<close>
  (\<open>base64\<close>, \<open>LongBits\<close>, \<open>toJSONOptions\<close>), and what depends on methods of the caller's
  objects: their \<open>toString\<close> and their conversion to a number. \<open>$util.Long\<close> is present.
\<close>

datatype long_format = Longs_String | Longs_Number | Longs_other
datatype bytes_format = Bytes_String | Bytes_Array | Bytes_other

record conversion_options =
  o_objects :: bool
  o_arrays :: bool
  o_defaults :: bool
  o_enums_String :: bool
  o_longs :: long_format
  o_bytes :: bytes_format

record util_ops =
  u_fromValue :: "js \<Rightarrow> string + u64"
  u_longToString :: "js \<Rightarrow> string + string"
  u_longToNumber :: "js \<Rightarrow> js_number"
  u_bitsToNumber :: "u32 \<Rightarrow> u32 \<Rightarrow> bool \<Rightarrow> js_number"
  u_base64_decode :: "string \<Rightarrow> string + bytes"
  u_base64_encode :: "js \<Rightarrow> string + string"
  u_toString :: "js \<Rightarrow> string + string"   \<comment> \<open>of an object\<close>
  u_toUint32 :: "js \<Rightarrow> u32"                \<comment> \<open>of what is not a safe integer\<close>
  u_nonnegative :: "js \<Rightarrow> bool"            \<comment> \<open>\<open>v >= 0\<close>, where \<open>v\<close> is not a safe integer or undefined\<close>
  u_toJSONOptions :: conversion_options

definition no_options :: conversion_options where
  "no_options = \<lparr>o_objects = False, o_arrays = False, o_defaults = False, o_enums_String = False,
     o_longs = Longs_other, o_bytes = Bytes_other\<rparr>"

text \<open>Running one statement after another; a thrown error ends the function.\<close>

definition and_then :: "(string + 'a) \<Rightarrow> ('a \<Rightarrow> string + 'b) \<Rightarrow> string + 'b" where
  "and_then x f = (case x of Inl e \<Rightarrow> Inl e | Inr v \<Rightarrow> f v)"

lemma and_then_simps [simp]: "and_then (Inl e) f = Inl e" "and_then (Inr v) f = f v"
  by (simp_all add: and_then_def)

fun each :: "('a \<Rightarrow> string + 'b) \<Rightarrow> 'a list \<Rightarrow> string + 'b list" where
  "each f [] = Inr []"
| "each f (x # xs) = and_then (f x) (\<lambda>y. and_then (each f xs) (\<lambda>ys. Inr (y # ys)))"

lemma each_Inr: "(\<And>x. x \<in> set xs \<Longrightarrow> f x = Inr (g x)) \<Longrightarrow> each f xs = Inr (map g xs)"
  by (induction xs) auto

text \<open>\<open>String(v)\<close>, \<open>v >>> 0\<close>, \<open>v >= 0\<close>.\<close>

definition to_string :: "util_ops \<Rightarrow> js \<Rightarrow> string + string" where
  "to_string U v = (case v of
     JUndefined \<Rightarrow> Inr ''undefined'' | JNull \<Rightarrow> Inr ''null''
   | JBool b \<Rightarrow> Inr (if b then ''true'' else ''false'')
   | JNum (Safe i) \<Rightarrow> Inr (show_int i) | JNum (Other s _) \<Rightarrow> Inr s | JStr s \<Rightarrow> Inr s
   | _ \<Rightarrow> u_toString U v)"

definition to_uint32 :: "util_ops \<Rightarrow> js \<Rightarrow> u32" where
  "to_uint32 U v = (case v of JNum (Safe i) \<Rightarrow> of_int i | _ \<Rightarrow> u_toUint32 U v)"

definition nonnegative :: "util_ops \<Rightarrow> js \<Rightarrow> bool" where
  "nonnegative U v = (case v of JNum (Safe i) \<Rightarrow> 0 \<le> i | JUndefined \<Rightarrow> False | _ \<Rightarrow> u_nonnegative U v)"

text \<open>\<open>Array.prototype.slice.call(v)\<close>\<close>

definition slice :: "js \<Rightarrow> js" where
  "slice v = (case get v ''length'' of
     JNum (Safe n) \<Rightarrow> JArr (map (\<lambda>i. get v (show_nat i)) [0..<nat n]) | _ \<Rightarrow> JArr [])"

lemma slice_array: "slice (JArr vs) = JArr vs"
proof -
  have "map (\<lambda>i. get (JArr vs) (show_nat i)) [0..<length vs] = vs"
    by (rule nth_equalityI) (simp_all add: get_element)
  then show ?thesis by (simp add: slice_def get_length)
qed

subsection \<open>The statements of a conversion\<close>

text \<open>
  A conversion is a sequence of assignments to properties of the object it builds: \<open>to_prop\<close>
  is \<open>if (message.k != null && message.hasOwnProperty(k)) object.k = f(message.k)\<close>, and
  \<open>from_prop\<close> is \<open>if (object.k != null) message.k = f(object.k)\<close>, where \<open>f\<close> may assign nothing.
\<close>

type_synonym props = "(string \<times> js) list"

fun assign :: "(props \<Rightarrow> string + props) list \<Rightarrow> props \<Rightarrow> string + props" where
  "assign [] ps = Inr ps"
| "assign (f # fs) ps = and_then (f ps) (assign fs)"

definition to_prop :: "js \<Rightarrow> string \<times> (js \<Rightarrow> string + js) \<Rightarrow> props \<Rightarrow> string + props" where
  "to_prop message kf ps = (case kf of (k, f) \<Rightarrow> (case own message k of
     None \<Rightarrow> Inr ps
   | Some v \<Rightarrow> and_then (f v) (\<lambda>w. Inr (js_set k w ps))))"

definition from_prop :: "js \<Rightarrow> string \<times> (js \<Rightarrow> string + js option) \<Rightarrow> props \<Rightarrow> string + props" where
  "from_prop ob kf ps = (case kf of (k, f) \<Rightarrow>
     (if readable (get ob k)
      then and_then (f (get ob k)) (\<lambda>w. Inr (case w of None \<Rightarrow> ps | Some x \<Rightarrow> js_set k x ps))
      else Inr ps))"

text \<open>Checks of \<open>verify\<close>, the first that fails giving its reason.\<close>

definition check :: "js \<Rightarrow> string \<Rightarrow> (js \<Rightarrow> bool) \<Rightarrow> string \<Rightarrow> string option" where
  "check message k ok reason = (case own message k of
     None \<Rightarrow> None
   | Some v \<Rightarrow> if ok v then None else Some reason)"

fun first_error :: "string option list \<Rightarrow> string option" where
  "first_error [] = None"
| "first_error (Some e # xs) = Some e"
| "first_error (None # xs) = first_error xs"

text \<open>Reading the first property of \<open>null\<close> or \<open>undefined\<close>.\<close>

definition read_error :: "js \<Rightarrow> string \<Rightarrow> string" where
  "read_error v k = ''Cannot read properties of '' @ (if v = JNull then ''null'' else ''undefined'') @
     '' (reading '' @ [CHR 0x27] @ k @ [CHR 0x27] @ '')''"

subsection \<open>Enums, numbers, bytes\<close>

definition is_enum :: "enum \<Rightarrow> js \<Rightarrow> bool" where
  "is_enum e v \<longleftrightarrow> list_ex (\<lambda>(n, w). v = JNum (Safe (sint w))) e"

definition is_buffer :: "js \<Rightarrow> bool" where
  "is_buffer v \<longleftrightarrow> (truthy v \<and> is_number (get v ''length'')) \<or> is_string v"

text \<open>A number assigned in a \<open>case\<close> is the number the \<open>switch\<close> is over.\<close>

definition from_enum :: "enum \<Rightarrow> js \<Rightarrow> string + js option" where
  "from_enum e v = Inr (case v of
     JStr s \<Rightarrow> map_option (\<lambda>w. JNum (Safe (sint w))) (enum_value e s)
   | JNum n \<Rightarrow> Some (JNum n)
   | _ \<Rightarrow> None)"

definition from_string :: "util_ops \<Rightarrow> js \<Rightarrow> string + js option" where
  "from_string U v = and_then (to_string U v) (\<lambda>s. Inr (Some (JStr s)))"

definition from_long :: "util_ops \<Rightarrow> bool \<Rightarrow> js \<Rightarrow> string + js option" where
  "from_long U uns v = and_then (u_fromValue U v) (\<lambda>w. Inr (Some (JLong w uns)))"

definition from_bytes :: "util_ops \<Rightarrow> js \<Rightarrow> string + js option" where
  "from_bytes U v = (case v of
     JStr s \<Rightarrow> and_then (u_base64_decode U s) (\<lambda>b. Inr (Some (JBuf b)))
   | _ \<Rightarrow> Inr (if nonnegative U (get v ''length'') then Some v else None))"

text \<open>A read of an enum object by any key: by name, or by number through its prototype.\<close>

definition enum_key :: "enum \<Rightarrow> string \<Rightarrow> js" where
  "enum_key e k = (case enum_value e k of
     Some w \<Rightarrow> JNum (Safe (sint w))
   | None \<Rightarrow> (case map_of (map (\<lambda>(n, w). (show_int (sint w), n)) e) k of
        Some n \<Rightarrow> JStr n | None \<Rightarrow> JUndefined))"

definition enum_out :: "util_ops \<Rightarrow> conversion_options \<Rightarrow> enum \<Rightarrow> js \<Rightarrow> string + js" where
  "enum_out U opts e v =
     (if o_enums_String opts
      then and_then (to_string U v) (\<lambda>k. Inr (if enum_key e k = JUndefined then v else enum_key e k))
      else Inr v)"

definition long_out :: "util_ops \<Rightarrow> conversion_options \<Rightarrow> bool \<Rightarrow> js \<Rightarrow> string + js" where
  "long_out U opts uns v =
     (if is_number v
      then (if o_longs opts = Longs_String then and_then (to_string U v) (\<lambda>s. Inr (JStr s)) else Inr v)
      else (case o_longs opts of
          Longs_String \<Rightarrow> and_then (u_longToString U v) (\<lambda>s. Inr (JStr s))
        | Longs_Number \<Rightarrow> Inr (JNum (u_bitsToNumber U (to_uint32 U (get v ''low'')) (to_uint32 U (get v ''high'')) uns))
        | Longs_other \<Rightarrow> Inr v))"

definition bytes_out :: "util_ops \<Rightarrow> conversion_options \<Rightarrow> js \<Rightarrow> string + js" where
  "bytes_out U opts v = (case o_bytes opts of
     Bytes_String \<Rightarrow> and_then (u_base64_encode U v) (\<lambda>s. Inr (JStr s))
   | Bytes_Array \<Rightarrow> Inr (slice v)
   | Bytes_other \<Rightarrow> Inr v)"

text \<open>The values of \<open>options.defaults\<close>.\<close>

definition default_enum :: "conversion_options \<Rightarrow> string \<Rightarrow> js" where
  "default_enum opts n = (if o_enums_String opts then JStr n else JNum (Safe 0))"

definition default_long :: "util_ops \<Rightarrow> conversion_options \<Rightarrow> bool \<Rightarrow> string + js" where
  "default_long U opts uns = (let long = JLong 0 uns in case o_longs opts of
     Longs_String \<Rightarrow> and_then (u_longToString U long) (\<lambda>s. Inr (JStr s))
   | Longs_Number \<Rightarrow> Inr (JNum (u_longToNumber U long))
   | Longs_other \<Rightarrow> Inr long)"

definition default_bytes :: "conversion_options \<Rightarrow> js" where
  "default_bytes opts = (case o_bytes opts of
     Bytes_String \<Rightarrow> JStr '''' | Bytes_Array \<Rightarrow> JArr [] | Bytes_other \<Rightarrow> JBuf [])"

definition set_default :: "string \<Rightarrow> string + js \<Rightarrow> props \<Rightarrow> string + props" where
  "set_default k v ps = and_then v (\<lambda>x. Inr (js_set k x ps))"

end
