(* ===== verification/Object_Conversion.thy ===== *)
theory Object_Conversion
  imports JS_Value
begin

section \<open>Messages and plain objects (\<open>sdk/js/src/generated/proto.js\<close>)\<close>

text \<open>
  \<open>verify\<close>, \<open>fromObject\<close>, \<open>toObject\<close> and \<open>toJSON\<close> of the six message classes. A missing
  argument is \<open>None\<close>; a result \<open>Inl\<close> is a thrown error, by its message.
\<close>

subsection \<open>Envelope\<close>

definition check_metadata :: "js \<Rightarrow> string option" where
  "check_metadata message = (case own message ''metadata'' of
     None \<Rightarrow> None
   | Some v \<Rightarrow>
       if \<not> is_object v then Some ''metadata: object expected''
       else if list_all (\<lambda>(k, x). is_string x) (own_properties v) then None
       else Some ''metadata: string{k:string} expected'')"

definition Envelope_verify :: "js \<Rightarrow> string option" where
  "Envelope_verify message =
     (if \<not> is_object message then Some ''object expected''
      else first_error
        [check message ''type'' (is_enum MessageType) ''type: enum value expected'',
         check message ''requestId'' integer_or_long ''requestId: integer|Long expected'',
         check message ''serviceName'' is_string ''serviceName: string expected'',
         check message ''methodName'' is_string ''methodName: string expected'',
         check message ''payload'' is_buffer ''payload: buffer expected'',
         check message ''status'' (is_enum StatusCode) ''status: enum value expected'',
         check message ''errorMessage'' is_string ''errorMessage: string expected'',
         check_metadata message])"

text \<open>The keys and values of one object copied to another, the values converted.\<close>

definition copy_properties :: "(js \<Rightarrow> string + js) \<Rightarrow> js \<Rightarrow> string + js" where
  "copy_properties f v = and_then
     (each (\<lambda>(k, x). and_then (f x) (\<lambda>y. Inr (k, y))) (own_properties v))
     (\<lambda>kvs. Inr (plain (js_copy kvs [])))"

definition from_metadata :: "util_ops \<Rightarrow> js \<Rightarrow> props \<Rightarrow> string + props" where
  "from_metadata U ob ps = (let v = get ob ''metadata'' in
     if \<not> truthy v then Inr ps
     else if \<not> is_object v then Inl ''.ibridger.Envelope.metadata: object expected''
     else and_then (copy_properties (\<lambda>x. and_then (to_string U x) (\<lambda>s. Inr (JStr s))) v)
            (\<lambda>m. Inr (js_set ''metadata'' m ps)))"

definition Envelope_fromObject :: "util_ops \<Rightarrow> js \<Rightarrow> string + js" where
  "Envelope_fromObject U ob =
     (if instance_of ''Envelope'' ob then Inr ob
      else if \<not> readable ob then Inl (read_error ob ''type'')
      else and_then
        (assign (map (from_prop ob)
            [(''type'', from_enum MessageType), (''requestId'', from_long U True),
             (''serviceName'', from_string U), (''methodName'', from_string U),
             (''payload'', from_bytes U), (''status'', from_enum StatusCode),
             (''errorMessage'', from_string U)] @ [from_metadata U ob])
          [(''metadata'', plain [])])
        (\<lambda>ps. Inr (JObj ''Envelope'' ps)))"

definition to_metadata :: "js \<Rightarrow> props \<Rightarrow> string + props" where
  "to_metadata message ps = (let v = get message ''metadata'' in
     if truthy v \<and> own_properties v \<noteq> []
     then and_then (copy_properties Inr v) (\<lambda>m. Inr (js_set ''metadata'' m ps))
     else Inr ps)"

definition Envelope_defaults :: "util_ops \<Rightarrow> conversion_options \<Rightarrow> (props \<Rightarrow> string + props) list" where
  "Envelope_defaults U opts =
     [set_default ''type'' (Inr (default_enum opts ''REQUEST'')),
      set_default ''requestId'' (default_long U opts True),
      set_default ''serviceName'' (Inr (JStr '''')),
      set_default ''methodName'' (Inr (JStr '''')),
      set_default ''payload'' (Inr (default_bytes opts)),
      set_default ''status'' (Inr (default_enum opts ''OK'')),
      set_default ''errorMessage'' (Inr (JStr ''''))]"

definition Envelope_toObject :: "util_ops \<Rightarrow> js \<Rightarrow> conversion_options option \<Rightarrow> string + js" where
  "Envelope_toObject U message options =
     (let opts = default no_options options;
          ps = (if o_objects opts \<or> o_defaults opts then [(''metadata'', plain [])] else [])
      in and_then (assign (if o_defaults opts then Envelope_defaults U opts else []) ps) (\<lambda>ps.
         if \<not> readable message then Inl (read_error message ''type'')
         else and_then
           (assign (map (to_prop message)
               [(''type'', enum_out U opts MessageType), (''requestId'', long_out U opts True),
                (''serviceName'', Inr), (''methodName'', Inr), (''payload'', bytes_out U opts),
                (''status'', enum_out U opts StatusCode), (''errorMessage'', Inr)]
             @ [to_metadata message]) ps)
           (\<lambda>ps. Inr (plain ps))))"

definition Envelope_toJSON :: "util_ops \<Rightarrow> js \<Rightarrow> string + js" where
  "Envelope_toJSON U this = Envelope_toObject U this (Some (u_toJSONOptions U))"

subsection \<open>Ping\<close>

definition Ping_verify :: "js \<Rightarrow> string option" where
  "Ping_verify message =
     (if \<not> is_object message then Some ''object expected''
      else first_error [check message ''clientId'' is_string ''clientId: string expected''])"

definition Ping_fromObject :: "util_ops \<Rightarrow> js \<Rightarrow> string + js" where
  "Ping_fromObject U ob =
     (if instance_of ''Ping'' ob then Inr ob
      else if \<not> readable ob then Inl (read_error ob ''clientId'')
      else and_then (assign (map (from_prop ob) [(''clientId'', from_string U)]) [])
        (\<lambda>ps. Inr (JObj ''Ping'' ps)))"

definition Ping_toObject :: "util_ops \<Rightarrow> js \<Rightarrow> conversion_options option \<Rightarrow> string + js" where
  "Ping_toObject U message options =
     (let opts = default no_options options
      in and_then (assign (if o_defaults opts then [set_default ''clientId'' (Inr (JStr ''''))] else []) [])
        (\<lambda>ps. if \<not> readable message then Inl (read_error message ''clientId'')
          else and_then (assign (map (to_prop message) [(''clientId'', Inr)]) ps) (\<lambda>ps. Inr (plain ps))))"

definition Ping_toJSON :: "util_ops \<Rightarrow> js \<Rightarrow> string + js" where
  "Ping_toJSON U this = Ping_toObject U this (Some (u_toJSONOptions U))"

subsection \<open>Pong\<close>

definition Pong_verify :: "js \<Rightarrow> string option" where
  "Pong_verify message =
     (if \<not> is_object message then Some ''object expected''
      else first_error
        [check message ''serverId'' is_string ''serverId: string expected'',
         check message ''timestampMs'' integer_or_long ''timestampMs: integer|Long expected''])"

definition Pong_fromObject :: "util_ops \<Rightarrow> js \<Rightarrow> string + js" where
  "Pong_fromObject U ob =
     (if instance_of ''Pong'' ob then Inr ob
      else if \<not> readable ob then Inl (read_error ob ''serverId'')
      else and_then
        (assign (map (from_prop ob) [(''serverId'', from_string U), (''timestampMs'', from_long U False)]) [])
        (\<lambda>ps. Inr (JObj ''Pong'' ps)))"

definition Pong_toObject :: "util_ops \<Rightarrow> js \<Rightarrow> conversion_options option \<Rightarrow> string + js" where
  "Pong_toObject U message options =
     (let opts = default no_options options
      in and_then
        (assign (if o_defaults opts
           then [set_default ''serverId'' (Inr (JStr '''')), set_default ''timestampMs'' (default_long U opts False)]
           else []) [])
        (\<lambda>ps. if \<not> readable message then Inl (read_error message ''serverId'')
          else and_then
            (assign (map (to_prop message) [(''serverId'', Inr), (''timestampMs'', long_out U opts False)]) ps)
            (\<lambda>ps. Inr (plain ps))))"

definition Pong_toJSON :: "util_ops \<Rightarrow> js \<Rightarrow> string + js" where
  "Pong_toJSON U this = Pong_toObject U this (Some (u_toJSONOptions U))"

subsection \<open>ServiceDescriptor\<close>

definition check_methods :: "js \<Rightarrow> string option" where
  "check_methods message = (case own message ''methods'' of
     None \<Rightarrow> None
   | Some v \<Rightarrow> (case v of
        JArr vs \<Rightarrow> if list_all is_string vs then None else Some ''methods: string[] expected''
      | _ \<Rightarrow> Some ''methods: array expected''))"

definition ServiceDescriptor_verify :: "js \<Rightarrow> string option" where
  "ServiceDescriptor_verify message =
     (if \<not> is_object message then Some ''object expected''
      else first_error [check message ''name'' is_string ''name: string expected'', check_methods message])"

definition from_methods :: "util_ops \<Rightarrow> js \<Rightarrow> props \<Rightarrow> string + props" where
  "from_methods U ob ps = (let v = get ob ''methods'' in
     if \<not> truthy v then Inr ps
     else case v of
       JArr vs \<Rightarrow> and_then (each (\<lambda>x. and_then (to_string U x) (\<lambda>s. Inr (JStr s))) vs)
                  (\<lambda>ss. Inr (js_set ''methods'' (JArr ss) ps))
     | _ \<Rightarrow> Inl ''.ibridger.ServiceDescriptor.methods: array expected'')"

definition ServiceDescriptor_fromObject :: "util_ops \<Rightarrow> js \<Rightarrow> string + js" where
  "ServiceDescriptor_fromObject U ob =
     (if instance_of ''ServiceDescriptor'' ob then Inr ob
      else if \<not> readable ob then Inl (read_error ob ''name'')
      else and_then
        (assign (map (from_prop ob) [(''name'', from_string U)] @ [from_methods U ob]) [(''methods'', JArr [])])
        (\<lambda>ps. Inr (JObj ''ServiceDescriptor'' ps)))"

definition to_methods :: "js \<Rightarrow> props \<Rightarrow> string + props" where
  "to_methods message ps = (let v = get message ''methods'' in
     Inr (if truthy v \<and> truthy (get v ''length'') then js_set ''methods'' (slice v) ps else ps))"

definition ServiceDescriptor_toObject :: "util_ops \<Rightarrow> js \<Rightarrow> conversion_options option \<Rightarrow> string + js" where
  "ServiceDescriptor_toObject U message options =
     (let opts = default no_options options;
          ps = (if o_arrays opts \<or> o_defaults opts then [(''methods'', JArr [])] else [])
      in and_then (assign (if o_defaults opts then [set_default ''name'' (Inr (JStr ''''))] else []) ps)
        (\<lambda>ps. if \<not> readable message then Inl (read_error message ''name'')
          else and_then
            (assign (map (to_prop message) [(''name'', Inr)] @ [to_methods message]) ps)
            (\<lambda>ps. Inr (plain ps))))"

definition ServiceDescriptor_toJSON :: "util_ops \<Rightarrow> js \<Rightarrow> string + js" where
  "ServiceDescriptor_toJSON U this = ServiceDescriptor_toObject U this (Some (u_toJSONOptions U))"

subsection \<open>EchoRequest\<close>

definition EchoRequest_verify :: "js \<Rightarrow> string option" where
  "EchoRequest_verify message =
     (if \<not> is_object message then Some ''object expected''
      else first_error [check message ''message'' is_string ''message: string expected''])"

definition EchoRequest_fromObject :: "util_ops \<Rightarrow> js \<Rightarrow> string + js" where
  "EchoRequest_fromObject U ob =
     (if instance_of ''EchoRequest'' ob then Inr ob
      else if \<not> readable ob then Inl (read_error ob ''message'')
      else and_then (assign (map (from_prop ob) [(''message'', from_string U)]) [])
        (\<lambda>ps. Inr (JObj ''EchoRequest'' ps)))"

definition EchoRequest_toObject :: "util_ops \<Rightarrow> js \<Rightarrow> conversion_options option \<Rightarrow> string + js" where
  "EchoRequest_toObject U message options =
     (let opts = default no_options options
      in and_then (assign (if o_defaults opts then [set_default ''message'' (Inr (JStr ''''))] else []) [])
        (\<lambda>ps. if \<not> readable message then Inl (read_error message ''message'')
          else and_then (assign (map (to_prop message) [(''message'', Inr)]) ps) (\<lambda>ps. Inr (plain ps))))"

definition EchoRequest_toJSON :: "util_ops \<Rightarrow> js \<Rightarrow> string + js" where
  "EchoRequest_toJSON U this = EchoRequest_toObject U this (Some (u_toJSONOptions U))"

subsection \<open>EchoResponse\<close>

definition EchoResponse_verify :: "js \<Rightarrow> string option" where
  "EchoResponse_verify message =
     (if \<not> is_object message then Some ''object expected''
      else first_error
        [check message ''message'' is_string ''message: string expected'',
         check message ''timestampMs'' integer_or_long ''timestampMs: integer|Long expected''])"

definition EchoResponse_fromObject :: "util_ops \<Rightarrow> js \<Rightarrow> string + js" where
  "EchoResponse_fromObject U ob =
     (if instance_of ''EchoResponse'' ob then Inr ob
      else if \<not> readable ob then Inl (read_error ob ''message'')
      else and_then
        (assign (map (from_prop ob) [(''message'', from_string U), (''timestampMs'', from_long U False)]) [])
        (\<lambda>ps. Inr (JObj ''EchoResponse'' ps)))"

definition EchoResponse_toObject :: "util_ops \<Rightarrow> js \<Rightarrow> conversion_options option \<Rightarrow> string + js" where
  "EchoResponse_toObject U message options =
     (let opts = default no_options options
      in and_then
        (assign (if o_defaults opts
           then [set_default ''message'' (Inr (JStr '''')), set_default ''timestampMs'' (default_long U opts False)]
           else []) [])
        (\<lambda>ps. if \<not> readable message then Inl (read_error message ''message'')
          else and_then
            (assign (map (to_prop message) [(''message'', Inr), (''timestampMs'', long_out U opts False)]) ps)
            (\<lambda>ps. Inr (plain ps))))"

definition EchoResponse_toJSON :: "util_ops \<Rightarrow> js \<Rightarrow> string + js" where
  "EchoResponse_toJSON U this = EchoResponse_toObject U this (Some (u_toJSONOptions U))"

end
