(* ===== verification/Object_Roundtrip.thy ===== *)
theory Object_Roundtrip
  imports Object_Conversion
begin

section \<open>Messages survive the conversion to plain objects and back\<close>

text \<open>
  A typed message as the object it is (\<open>envelope_js\<close> and its siblings), the laws of the packages
  the conversions call (locale \<open>conversions\<close>), and the round trip: a property is carried by
  \<open>toObject\<close> and brought back by \<open>fromObject\<close>, shown once for each kind of field and composed
  once for all messages.
\<close>

subsection \<open>Messages as objects\<close>

definition own_opt :: "string \<Rightarrow> js option \<Rightarrow> props" where
  "own_opt k x = (case x of None \<Rightarrow> [] | Some v \<Rightarrow> [(k, v)])"

definition js_enum :: "u32 \<Rightarrow> js" where
  "js_enum t = JNum (Safe (sint t))"

definition js_map :: "string_map \<Rightarrow> js" where
  "js_map kvs = plain (map (\<lambda>(k, v). (k, JStr v)) kvs)"

definition envelope_js :: "envelope \<Rightarrow> js" where
  "envelope_js m = JObj ''Envelope''
     (own_opt ''metadata'' (map_option js_map (e_metadata m)) @
      own_opt ''type'' (map_option js_enum (e_type m)) @
      own_opt ''requestId'' (map_option (\<lambda>v. JLong v True) (e_requestId m)) @
      own_opt ''serviceName'' (map_option JStr (e_serviceName m)) @
      own_opt ''methodName'' (map_option JStr (e_methodName m)) @
      own_opt ''payload'' (map_option JBuf (e_payload m)) @
      own_opt ''status'' (map_option js_enum (e_status m)) @
      own_opt ''errorMessage'' (map_option JStr (e_errorMessage m)))"

definition ping_js :: "ping \<Rightarrow> js" where
  "ping_js m = JObj ''Ping'' (own_opt ''clientId'' (map_option JStr (ping_clientId m)))"

definition pong_js :: "pong \<Rightarrow> js" where
  "pong_js m = JObj ''Pong''
     (own_opt ''serverId'' (map_option JStr (pong_serverId m)) @
      own_opt ''timestampMs'' (map_option (\<lambda>v. JLong v False) (pong_timestampMs m)))"

definition echo_request_js :: "echo_request \<Rightarrow> js" where
  "echo_request_js m = JObj ''EchoRequest'' (own_opt ''message'' (map_option JStr (echoreq_message m)))"

definition echo_response_js :: "echo_response \<Rightarrow> js" where
  "echo_response_js m = JObj ''EchoResponse''
     (own_opt ''message'' (map_option JStr (echoresp_message m)) @
      own_opt ''timestampMs'' (map_option (\<lambda>v. JLong v False) (echoresp_timestampMs m)))"

definition service_descriptor_js :: "service_descriptor \<Rightarrow> js" where
  "service_descriptor_js m = JObj ''ServiceDescriptor''
     (own_opt ''methods'' (map_option (\<lambda>ss. JArr (map JStr ss)) (sd_methods m)) @
      own_opt ''name'' (map_option JStr (sd_name m)))"

lemma own_opt_simps [simp]:
  "map_of (own_opt k x @ ps) k' = (if k = k' \<and> x \<noteq> None then x else map_of ps k')"
  "map_of (own_opt k x) k' = (if k = k' then x else None)"
  "own_opt k None = []" "own_opt k (Some v) = [(k, v)]"
  by (auto simp: own_opt_def split: option.split)

lemma own_opt_key: "(k', v) \<in> set (own_opt k x) \<Longrightarrow> k' = k"
  by (cases x) auto

lemma own_JObj: "own (JObj cls ps) k = (case map_of ps k of
    Some x \<Rightarrow> if readable x then Some x else None | None \<Rightarrow> None)"
  by (simp add: own_def)

lemma readable_simps [simp]:
  "readable (JNum n)" "readable (JStr s)" "readable (JBuf b)" "readable (JArr vs)" "readable (JLong v u)"
  "readable (JObj c ps)" "readable (JBool x)" "\<not> readable JNull" "\<not> readable JUndefined"
  "readable (js_enum t)" "readable (js_map kvs)"
  by (simp_all add: readable_def js_enum_def js_map_def)

lemma own_message:
  "own (envelope_js m) ''type'' = map_option js_enum (e_type m)"
  "own (envelope_js m) ''requestId'' = map_option (\<lambda>v. JLong v True) (e_requestId m)"
  "own (envelope_js m) ''serviceName'' = map_option JStr (e_serviceName m)"
  "own (envelope_js m) ''methodName'' = map_option JStr (e_methodName m)"
  "own (envelope_js m) ''payload'' = map_option JBuf (e_payload m)"
  "own (envelope_js m) ''status'' = map_option js_enum (e_status m)"
  "own (envelope_js m) ''errorMessage'' = map_option JStr (e_errorMessage m)"
  "own (envelope_js m) ''metadata'' = map_option js_map (e_metadata m)"
  "own (ping_js p) ''clientId'' = map_option JStr (ping_clientId p)"
  "own (pong_js q) ''serverId'' = map_option JStr (pong_serverId q)"
  "own (pong_js q) ''timestampMs'' = map_option (\<lambda>v. JLong v False) (pong_timestampMs q)"
  "own (echo_request_js r) ''message'' = map_option JStr (echoreq_message r)"
  "own (echo_response_js s) ''message'' = map_option JStr (echoresp_message s)"
  "own (echo_response_js s) ''timestampMs'' = map_option (\<lambda>v. JLong v False) (echoresp_timestampMs s)"
  "own (service_descriptor_js d) ''name'' = map_option JStr (sd_name d)"
  "own (service_descriptor_js d) ''methods'' = map_option (\<lambda>ss. JArr (map JStr ss)) (sd_methods d)"
  by (auto simp: envelope_js_def ping_js_def pong_js_def echo_request_js_def echo_response_js_def
    service_descriptor_js_def own_JObj split: option.splits)

lemma message_objects [simp]:
  "is_object (envelope_js m)" "is_object (ping_js p)" "is_object (pong_js q)" "is_object (echo_request_js r)"
  "is_object (echo_response_js s)" "is_object (service_descriptor_js d)"
  "readable (envelope_js m)" "readable (ping_js p)" "readable (pong_js q)" "readable (echo_request_js r)"
  "readable (echo_response_js s)" "readable (service_descriptor_js d)"
  by (simp_all add: is_object_def envelope_js_def ping_js_def pong_js_def echo_request_js_def
    echo_response_js_def service_descriptor_js_def)

subsection \<open>Property names\<close>

definition prop_name :: "string \<Rightarrow> bool" where
  "prop_name k \<longleftrightarrow> \<not> is_array_index k \<and> k \<noteq> ''__proto__''"

lemma prop_names [simp]:
  "prop_name ''type''" "prop_name ''requestId''" "prop_name ''serviceName''" "prop_name ''methodName''"
  "prop_name ''payload''" "prop_name ''status''" "prop_name ''errorMessage''" "prop_name ''metadata''"
  "prop_name ''clientId''" "prop_name ''serverId''" "prop_name ''timestampMs''" "prop_name ''message''"
  "prop_name ''name''" "prop_name ''methods''"
  by (simp_all add: prop_name_def is_array_index_def is_digit_def)

lemma js_get_set_prop: "prop_name k \<Longrightarrow> js_get (js_set k v ps) = (js_get ps)(k \<mapsto> v)"
  by (simp add: js_get_set prop_name_def)

lemma js_set_new: "prop_name k \<Longrightarrow> k \<notin> fst ` set ps \<Longrightarrow> js_set k v ps = ps @ [(k, v)]"
  by (simp add: js_set_def prop_name_def)

lemma js_set_first: "prop_name k \<Longrightarrow> k \<notin> fst ` set ps \<Longrightarrow> js_set k v ((k, x) # ps) = (k, v) # ps"
  by (auto simp: js_set_def prop_name_def image_iff intro!: map_idI)

lemma get_plain: "get (plain ps) k = default JUndefined (js_get ps k)"
  by (simp add: get_def js_get_def prototypes_def)

subsection \<open>A field carried over and brought back\<close>

text \<open>\<open>f\<close> is what \<open>toObject\<close> makes of a value, \<open>g\<close> what \<open>fromObject\<close> makes of that.\<close>

definition carries :: "(js \<Rightarrow> string + js) \<Rightarrow> (js \<Rightarrow> string + js option) \<Rightarrow> js \<Rightarrow> bool" where
  "carries f g v \<longleftrightarrow> (\<exists>w. f v = Inr w \<and> readable w \<and> g w = Inr (Some v))"

definition with_default :: "'a \<Rightarrow> bool \<Rightarrow> 'a option \<Rightarrow> 'a option" where
  "with_default d b x = (case x of None \<Rightarrow> if b then Some d else None | Some v \<Rightarrow> Some v)"

lemma with_default_False [simp]: "with_default d False x = x"
  by (cases x) (simp_all add: with_default_def)

lemma with_default_map: "with_default (h d) b (map_option h x) = map_option h (with_default d b x)"
  by (cases x) (simp_all add: with_default_def)

text \<open>
  The fields of a message: the name, what \<open>toObject\<close> makes of the field, what \<open>fromObject\<close>
  makes of that, the value of \<open>options.defaults\<close>, and the field's default.
\<close>

record field_conversion =
  fc_name :: string
  fc_to :: "js \<Rightarrow> string + js"
  fc_from :: "js \<Rightarrow> string + js option"
  fc_default :: "string + js"
  fc_value :: js

definition to_field :: "field_conversion \<Rightarrow> string \<times> (js \<Rightarrow> string + js)" where
  "to_field c = (fc_name c, fc_to c)"

definition from_field :: "field_conversion \<Rightarrow> string \<times> (js \<Rightarrow> string + js option)" where
  "from_field c = (fc_name c, fc_from c)"

definition set_field :: "field_conversion \<Rightarrow> props \<Rightarrow> string + props" where
  "set_field c = set_default (fc_name c) (fc_default c)"

definition field_ok_for :: "js \<Rightarrow> field_conversion \<Rightarrow> bool" where
  "field_ok_for message c \<longleftrightarrow> prop_name (fc_name c) \<and>
     (\<forall>v. own message (fc_name c) = Some v \<longrightarrow> carries (fc_to c) (fc_from c) v) \<and>
     carries (\<lambda>_. fc_default c) (fc_from c) (fc_value c)"

text \<open>What a plain object must hold for \<open>fromObject\<close> to give the field the value \<open>x\<close>.\<close>

definition holds :: "props \<Rightarrow> field_conversion \<Rightarrow> js option \<Rightarrow> bool" where
  "holds ps c x = (case js_get ps (fc_name c) of
     None \<Rightarrow> x = None
   | Some w \<Rightarrow> readable w \<and> (\<exists>v. x = Some v \<and> fc_from c w = Inr (Some v)))"

lemma holds_cong: "js_get ps (fc_name c) = js_get ps' (fc_name c) \<Longrightarrow> holds ps c x = holds ps' c x"
  by (simp add: holds_def)

lemma set_defaults:
  assumes "\<forall>c \<in> set fs. field_ok_for message c" "distinct (map fc_name fs)"
  shows "\<exists>ps'. assign (map set_field fs) ps = Inr ps' \<and>
    (\<forall>k. k \<notin> fc_name ` set fs \<longrightarrow> js_get ps' k = js_get ps k) \<and>
    (\<forall>c \<in> set fs. holds ps' c (Some (fc_value c)))"
  using assms
proof (induction fs arbitrary: ps)
  case (Cons c fs)
  from Cons.prems(1) obtain w where k: "prop_name (fc_name c)"
    and w: "fc_default c = Inr w" "readable w" "fc_from c w = Inr (Some (fc_value c))"
    by (auto simp: field_ok_for_def carries_def)
  let ?ps = "js_set (fc_name c) w ps"
  have step: "set_field c ps = Inr ?ps" using w by (simp add: set_field_def set_default_def)
  obtain ps' where ps': "assign (map set_field fs) ?ps = Inr ps'"
    "\<forall>k. k \<notin> fc_name ` set fs \<longrightarrow> js_get ps' k = js_get ?ps k"
    "\<forall>c \<in> set fs. holds ps' c (Some (fc_value c))"
    using Cons.IH [of ?ps] Cons.prems by auto
  moreover have "js_get ps' (fc_name c) = Some w"
    using ps'(2) Cons.prems(2) k by (simp add: js_get_set_prop)
  ultimately show ?case
    using w k step by (intro exI [of _ ps']) (auto simp: holds_def js_get_set_prop)
qed simp

lemma to_prop_field:
  assumes "field_ok_for message c" "holds ps c (x0 c)"
  shows "\<exists>ps'. to_prop message (to_field c) ps = Inr ps' \<and>
    (\<forall>k. k \<noteq> fc_name c \<longrightarrow> js_get ps' k = js_get ps k) \<and>
    holds ps' c (case own message (fc_name c) of None \<Rightarrow> x0 c | Some v \<Rightarrow> Some v)"
proof (cases "own message (fc_name c)")
  case None
  with assms(2) show ?thesis by (simp add: to_prop_def to_field_def)
next
  case (Some v)
  with assms(1) obtain w where "fc_to c v = Inr w" "readable w" "fc_from c w = Inr (Some v)"
    "prop_name (fc_name c)"
    by (auto simp: field_ok_for_def carries_def)
  with Some show ?thesis by (simp add: to_prop_def to_field_def js_get_set_prop holds_def)
qed

lemma to_props:
  assumes "\<forall>c \<in> set fs. field_ok_for message c" "distinct (map fc_name fs)"
    and "\<forall>c \<in> set fs. holds ps c (x0 c)"
  shows "\<exists>ps'. assign (map (to_prop message) (map to_field fs) @ rest) ps = assign rest ps' \<and>
    (\<forall>k. k \<notin> fc_name ` set fs \<longrightarrow> js_get ps' k = js_get ps k) \<and>
    (\<forall>c \<in> set fs. holds ps' c (case own message (fc_name c) of None \<Rightarrow> x0 c | Some v \<Rightarrow> Some v))"
  using assms
proof (induction fs arbitrary: ps)
  case (Cons c fs)
  from to_prop_field [of message c ps x0] Cons.prems obtain ps1
    where ps1: "to_prop message (to_field c) ps = Inr ps1"
      "\<forall>k. k \<noteq> fc_name c \<longrightarrow> js_get ps1 k = js_get ps k"
      "holds ps1 c (case own message (fc_name c) of None \<Rightarrow> x0 c | Some v \<Rightarrow> Some v)"
    by auto
  have "\<forall>c' \<in> set fs. js_get ps1 (fc_name c') = js_get ps (fc_name c')"
    using Cons.prems(2) ps1(2) by (metis distinct.simps(2) image_eqI image_set list.simps(9))
  then have "\<forall>c \<in> set fs. holds ps1 c (x0 c)"
    using Cons.prems(3) by (metis holds_cong list.set_intros(2))
  with Cons.IH [of ps1] Cons.prems obtain ps'
    where ps': "assign (map (to_prop message) (map to_field fs) @ rest) ps1 = assign rest ps'"
      "\<forall>k. k \<notin> fc_name ` set fs \<longrightarrow> js_get ps' k = js_get ps1 k"
      "\<forall>c \<in> set fs. holds ps' c (case own message (fc_name c) of None \<Rightarrow> x0 c | Some v \<Rightarrow> Some v)"
    by auto
  have "js_get ps' (fc_name c) = js_get ps1 (fc_name c)" using ps'(2) Cons.prems(2) by simp
  with holds_cong [of ps' c ps1] ps' ps1 show ?case by (intro exI [of _ ps']) auto
qed auto

lemma from_props:
  assumes "\<forall>c \<in> set fs. prop_name (fc_name c)" "distinct (map fc_name fs)"
    and "\<forall>c \<in> set fs. holds ps c (x c)"
    and "\<forall>c \<in> set fs. fc_name c \<notin> fst ` set qs"
  shows "assign (map (from_prop (plain ps)) (map from_field fs) @ rest) qs
    = assign rest (qs @ concat (map (\<lambda>c. own_opt (fc_name c) (x c)) fs))"
  using assms
proof (induction fs arbitrary: qs)
  case (Cons c fs)
  let ?qs = "qs @ own_opt (fc_name c) (x c)"
  have "holds ps c (x c)" using Cons.prems(3) by simp
  then have step: "from_prop (plain ps) (from_field c) qs = Inr ?qs"
    using Cons.prems(1,4)
    by (auto simp: from_prop_def from_field_def get_plain holds_def js_set_new split: option.splits)
  have "\<forall>c' \<in> set fs. fc_name c' \<notin> fst ` set ?qs"
  proof
    fix c' assume "c' \<in> set fs"
    then have "fc_name c' \<in> fc_name ` set fs" "fc_name c' \<notin> fst ` set qs" using Cons.prems(4) by auto
    moreover from this(1) Cons.prems(2) have "fc_name c' \<noteq> fc_name c" by auto
    ultimately show "fc_name c' \<notin> fst ` set ?qs" by (auto dest: own_opt_key)
  qed
  with Cons.IH [of ?qs] Cons.prems step show ?case by simp
qed simp

text \<open>A whole message: \<open>ps0\<close> is the object before the defaults, \<open>ps\<close> the one after the fields.\<close>

lemma fields_carried:
  assumes "\<forall>c \<in> set fs. field_ok_for message c" "distinct (map fc_name fs)"
    and "\<forall>c \<in> set fs. js_get ps0 (fc_name c) = None"
  shows "\<exists>ps1 ps. assign (if b then map set_field fs else []) ps0 = Inr ps1 \<and>
    assign (map (to_prop message) (map to_field fs) @ rest) ps1 = assign rest ps \<and>
    (\<forall>k. k \<notin> fc_name ` set fs \<longrightarrow> js_get ps k = js_get ps0 k) \<and>
    (\<forall>c \<in> set fs. holds ps c (with_default (fc_value c) b (own message (fc_name c))))"
proof -
  have "\<exists>ps1. assign (if b then map set_field fs else []) ps0 = Inr ps1 \<and>
    (\<forall>k. k \<notin> fc_name ` set fs \<longrightarrow> js_get ps1 k = js_get ps0 k) \<and>
    (\<forall>c \<in> set fs. holds ps1 c (if b then Some (fc_value c) else None))"
    using set_defaults [OF assms(1,2), of ps0] assms(3) by (cases b) (simp_all add: holds_def)
  then obtain ps1 where ps1: "assign (if b then map set_field fs else []) ps0 = Inr ps1"
    "\<forall>k. k \<notin> fc_name ` set fs \<longrightarrow> js_get ps1 k = js_get ps0 k"
    "\<forall>c \<in> set fs. holds ps1 c (if b then Some (fc_value c) else None)" by blast
  from to_props [OF assms(1,2) ps1(3), of rest] ps1(1,2) show ?thesis
    unfolding with_default_def by metis
qed

lemma fields_ok_names: "\<forall>c \<in> set fs. field_ok_for message c \<Longrightarrow> \<forall>c \<in> set fs. prop_name (fc_name c)"
  by (simp add: field_ok_for_def)

subsection \<open>The laws of the packages\<close>

text \<open>The integers a number holds exactly, signed or unsigned.\<close>

definition exact_number :: "bool \<Rightarrow> u64 \<Rightarrow> bool" where
  "exact_number b v \<longleftrightarrow> (if b then unat v \<le> 2 ^ 53 else \<bar>sint v\<bar> \<le> 2 ^ 53)"

locale conversions =
  fixes U :: util_ops
  assumes fromValue_long: "u_fromValue U (JLong v b) = Inr v"
    and longToString: "\<exists>s. u_longToString U (JLong v b) = Inr s \<and> u_fromValue U (JStr s) = Inr v"
    and bitsToNumber: "exact_number b v \<Longrightarrow>
      u_fromValue U (JNum (u_bitsToNumber U (ucast v) (ucast (drop_bit 32 v)) b)) = Inr v"
    and longToNumber: "u_fromValue U (JNum (u_longToNumber U (JLong 0 b))) = Inr 0"
    and base64: "\<exists>s. u_base64_encode U (JBuf x) = Inr s \<and> u_base64_decode U s = Inr x"
    and base64_empty: "u_base64_decode U '''' = Inr []"
    and toJSONOptions: "u_toJSONOptions U = \<lparr>o_objects = False, o_arrays = False, o_defaults = False,
      o_enums_String = True, o_longs = Longs_String, o_bytes = Bytes_String\<rparr>"
begin

lemma carries_string: "carries Inr (from_string U) (JStr s)"
  by (simp add: carries_def from_string_def to_string_def)

lemma carries_empty: "carries (\<lambda>_. Inr (JStr '''')) (from_string U) (JStr '''')"
  by (simp add: carries_def from_string_def to_string_def)

lemma halves:
  "to_uint32 U (get (JLong v b) ''low'') = ucast v"
  "to_uint32 U (get (JLong v b) ''high'') = ucast (drop_bit 32 v)"
  by (simp_all add: get_def to_uint32_def low_word_def high_word_def)

lemma carries_long:
  assumes "o_longs opts = Longs_Number \<Longrightarrow> exact_number b v"
  shows "carries (long_out U opts b) (from_long U b) (JLong v b)"
  using assms longToString [of v b] fromValue_long [of v b] bitsToNumber [of b v]
  by (cases "o_longs opts")
    (auto simp: carries_def long_out_def from_long_def is_number_def halves)

lemma carries_default_long: "carries (\<lambda>_. default_long U opts b) (from_long U b) (JLong 0 b)"
  using longToString [of 0 b] fromValue_long [of 0 b] longToNumber [of b]
  by (cases "o_longs opts") (auto simp: carries_def default_long_def from_long_def Let_def)

lemma carries_bytes:
  assumes "o_bytes opts \<noteq> Bytes_Array"
  shows "carries (bytes_out U opts) (from_bytes U) (JBuf x)"
  using assms base64 [of x]
  by (cases "o_bytes opts") (auto simp: carries_def bytes_out_def from_bytes_def nonnegative_def get_length)

lemma carries_default_bytes:
  assumes "o_bytes opts \<noteq> Bytes_Array"
  shows "carries (\<lambda>_. Inr (default_bytes opts)) (from_bytes U) (JBuf [])"
  using assms base64_empty
  by (cases "o_bytes opts") (auto simp: carries_def default_bytes_def from_bytes_def nonnegative_def get_length)

end

subsection \<open>Enums\<close>

definition enum_names_ok :: "enum \<Rightarrow> bool" where
  "enum_names_ok e \<longleftrightarrow> enum_ok e \<and> list_all (\<lambda>(n, w). n \<noteq> [] \<and> \<not> is_digit (hd n) \<and> hd n \<noteq> CHR ''-'') e"

lemma sample_enum_names_ok: "enum_names_ok MessageType" "enum_names_ok StatusCode"
  by (simp_all add: enum_names_ok_def enum_ok_def MessageType_def StatusCode_def is_digit_def)

lemma show_int_start: "show_int i \<noteq> [] \<and> (is_digit (hd (show_int i)) \<or> hd (show_int i) = CHR ''-'')"
  using show_nat_digits [of "nat i"] by (cases "show_nat (nat i)") (auto simp: show_int_def)

lemma enum_value_number:
  assumes "enum_names_ok e"
  shows "enum_value e (show_int i) = None"
proof (rule ccontr)
  assume "enum_value e (show_int i) \<noteq> None"
  then obtain w where "(show_int i, w) \<in> set e" by (auto simp: enum_value_def dest: map_of_SomeD)
  with assms have "show_int i \<noteq> []" "\<not> is_digit (hd (show_int i))" "hd (show_int i) \<noteq> CHR ''-''"
    by (auto simp: enum_names_ok_def list_all_iff)
  with show_int_start [of i] show False by blast
qed

lemma enum_key_cases:
  assumes "enum_names_ok e"
  obtains "enum_key e (show_int (sint t)) = JUndefined"
  | n where "enum_key e (show_int (sint t)) = JStr n" "enum_value e n = Some t"
proof (cases "map_of (map (\<lambda>(n, w). (show_int (sint w), n)) e) (show_int (sint t))")
  case None
  with that(1) show thesis by (simp add: enum_key_def enum_value_number [OF assms])
next
  case (Some n)
  from map_of_SomeD [OF this] obtain w where w: "(n, w) \<in> set e" "show_int (sint w) = show_int (sint t)"
    by auto
  from w(2) have "sint w = sint t" by (simp only: show_int_inj)
  then have "w = t" by (rule signed_word_eqI)
  moreover have "distinct (map fst e)" using assms by (simp add: enum_names_ok_def enum_ok_def)
  ultimately have "enum_value e n = Some t" using w(1) by (simp add: enum_value_def)
  with that(2) Some show thesis by (simp add: enum_key_def enum_value_number [OF assms])
qed

lemma carries_enum:
  assumes "enum_names_ok e"
  shows "carries (enum_out U opts e) (from_enum e) (js_enum t)"
  by (rule enum_key_cases [OF assms, of t])
    (auto simp: carries_def enum_out_def from_enum_def to_string_def js_enum_def)

lemma carries_default_enum:
  assumes "enum_value e n = Some 0"
  shows "carries (\<lambda>_. Inr (default_enum opts n)) (from_enum e) (js_enum 0)"
  using assms by (auto simp: carries_def default_enum_def from_enum_def js_enum_def)

subsection \<open>Metadata\<close>

definition plain_metadata :: "string_map \<Rightarrow> bool" where
  "plain_metadata kvs \<longleftrightarrow> js_object kvs \<and> ''__proto__'' \<notin> fst ` set kvs"

lemma copy_js_map:
  assumes "plain_metadata kvs" "\<And>v. f (JStr v) = Inr (JStr v)"
  shows "copy_properties f (js_map kvs) = Inr (js_map kvs)"
proof -
  let ?kvs = "map (\<lambda>(k, v). (k, JStr v)) kvs"
  have entries: "each (\<lambda>(k, x). and_then (f x) (\<lambda>y. Inr (k, y))) ?kvs = Inr (map (\<lambda>x. x) ?kvs)"
    by (rule each_Inr) (auto simp: assms(2))
  have keys: "map fst ?kvs = map fst kvs" by (simp add: comp_def split_def)
  have "js_object ?kvs" using assms(1) unfolding plain_metadata_def js_object_def keys by blast
  moreover have "filter (\<lambda>(k, v). k \<noteq> ''__proto__'') ?kvs = ?kvs"
    by (rule filter_True) (use assms(1) in \<open>force simp: plain_metadata_def\<close>)
  ultimately have "js_copy ?kvs [] = ?kvs" using js_copy_object by metis
  with entries show ?thesis by (simp add: copy_properties_def js_map_def)
qed

lemma get_metadata_js:
  assumes "e_metadata m = Some kvs"
  shows "get (envelope_js m) ''metadata'' = js_map kvs"
  using assms by (simp add: get_def envelope_js_def map_add_def)

lemma to_metadata_js:
  assumes "e_metadata m = Some kvs" "plain_metadata kvs"
  shows "to_metadata (envelope_js m) ps = Inr (if kvs = [] then ps else js_set ''metadata'' (js_map kvs) ps)"
  using assms copy_js_map [OF assms(2), of Inr]
  by (simp add: to_metadata_def get_metadata_js truthy_def) (simp add: js_map_def)

lemma from_metadata_js:
  assumes "plain_metadata kvs" "js_get ps ''metadata'' = (if b \<or> kvs \<noteq> [] then Some (js_map kvs) else None)"
    and "''metadata'' \<notin> fst ` set qs"
  shows "from_metadata U (plain ps) ((''metadata'', plain []) # qs) = Inr ((''metadata'', js_map kvs) # qs)"
proof (cases "b \<or> kvs \<noteq> []")
  case True
  have "copy_properties (\<lambda>x. and_then (to_string U x) (\<lambda>s. Inr (JStr s))) (js_map kvs) = Inr (js_map kvs)"
    by (rule copy_js_map [OF assms(1)]) (simp add: to_string_def)
  moreover have "js_set ''metadata'' (js_map kvs) ((''metadata'', plain []) # qs) = (''metadata'', js_map kvs) # qs"
    by (rule js_set_first [OF _ assms(3)]) simp
  moreover have "truthy (js_map kvs)" "is_object (js_map kvs)"
    by (simp_all add: js_map_def truthy_def is_object_def)
  ultimately show ?thesis
    using True assms(2) by (simp add: from_metadata_def get_plain)
next
  case False
  with assms(2) show ?thesis by (simp add: from_metadata_def get_plain truthy_def js_map_def)
qed

subsection \<open>The fields of the messages\<close>

definition enum_field :: "util_ops \<Rightarrow> conversion_options \<Rightarrow> string \<Rightarrow> enum \<Rightarrow> string \<Rightarrow> field_conversion" where
  "enum_field U opts k e n = \<lparr>fc_name = k, fc_to = enum_out U opts e, fc_from = from_enum e,
     fc_default = Inr (default_enum opts n), fc_value = js_enum 0\<rparr>"

definition string_field :: "util_ops \<Rightarrow> string \<Rightarrow> field_conversion" where
  "string_field U k = \<lparr>fc_name = k, fc_to = Inr, fc_from = from_string U,
     fc_default = Inr (JStr ''''), fc_value = JStr ''''\<rparr>"

definition long_field :: "util_ops \<Rightarrow> conversion_options \<Rightarrow> string \<Rightarrow> bool \<Rightarrow> field_conversion" where
  "long_field U opts k b = \<lparr>fc_name = k, fc_to = long_out U opts b, fc_from = from_long U b,
     fc_default = default_long U opts b, fc_value = JLong 0 b\<rparr>"

definition bytes_field :: "util_ops \<Rightarrow> conversion_options \<Rightarrow> string \<Rightarrow> field_conversion" where
  "bytes_field U opts k = \<lparr>fc_name = k, fc_to = bytes_out U opts, fc_from = from_bytes U,
     fc_default = Inr (default_bytes opts), fc_value = JBuf []\<rparr>"

lemmas field_defs = enum_field_def string_field_def long_field_def bytes_field_def

lemma fc_names [simp]:
  "fc_name (enum_field U opts k e n) = k" "fc_name (string_field U k) = k"
  "fc_name (long_field U opts k b) = k" "fc_name (bytes_field U opts k) = k"
  "fc_value (enum_field U opts k e n) = js_enum 0" "fc_value (string_field U k) = JStr ''''"
  "fc_value (long_field U opts k b) = JLong 0 b" "fc_value (bytes_field U opts k) = JBuf []"
  by (simp_all add: field_defs)

definition envelope_fields :: "util_ops \<Rightarrow> conversion_options \<Rightarrow> field_conversion list" where
  "envelope_fields U opts =
     [enum_field U opts ''type'' MessageType ''REQUEST'', long_field U opts ''requestId'' True,
      string_field U ''serviceName'', string_field U ''methodName'', bytes_field U opts ''payload'',
      enum_field U opts ''status'' StatusCode ''OK'', string_field U ''errorMessage'']"

definition stamped_fields :: "util_ops \<Rightarrow> conversion_options \<Rightarrow> string \<Rightarrow> field_conversion list" where
  "stamped_fields U opts k = [string_field U k, long_field U opts ''timestampMs'' False]"

text \<open>The lists of the generated code are these fields.\<close>

lemma envelope_statements:
  "Envelope_defaults U opts = map set_field (envelope_fields U opts)"
  "[(''type'', enum_out U opts MessageType), (''requestId'', long_out U opts True),
    (''serviceName'', Inr), (''methodName'', Inr), (''payload'', bytes_out U opts),
    (''status'', enum_out U opts StatusCode), (''errorMessage'', Inr)] = map to_field (envelope_fields U opts)"
  "[(''type'', from_enum MessageType), (''requestId'', from_long U True),
    (''serviceName'', from_string U), (''methodName'', from_string U),
    (''payload'', from_bytes U), (''status'', from_enum StatusCode),
    (''errorMessage'', from_string U)] = map from_field (envelope_fields U opts)"
  by (simp_all add: Envelope_defaults_def envelope_fields_def field_defs set_field_def to_field_def from_field_def)

text \<open>The message a plain object with the defaults stands for.\<close>

definition complete_envelope :: "bool \<Rightarrow> envelope \<Rightarrow> envelope" where
  "complete_envelope b m = m\<lparr>e_type := with_default 0 b (e_type m),
     e_requestId := with_default 0 b (e_requestId m),
     e_serviceName := with_default '''' b (e_serviceName m),
     e_methodName := with_default '''' b (e_methodName m),
     e_payload := with_default [] b (e_payload m),
     e_status := with_default 0 b (e_status m),
     e_errorMessage := with_default '''' b (e_errorMessage m)\<rparr>"

context conversions
begin

lemma string_field_ok:
  "prop_name k \<Longrightarrow> (\<And>v. own m k = Some v \<Longrightarrow> \<exists>s. v = JStr s) \<Longrightarrow> field_ok_for m (string_field U k)"
  using carries_string carries_empty by (fastforce simp: field_ok_for_def string_field_def)

lemma enum_field_ok:
  "prop_name k \<Longrightarrow> enum_names_ok e \<Longrightarrow> enum_value e n = Some 0 \<Longrightarrow>
   (\<And>v. own m k = Some v \<Longrightarrow> \<exists>t. v = js_enum t) \<Longrightarrow> field_ok_for m (enum_field U opts k e n)"
  using carries_enum carries_default_enum by (fastforce simp: field_ok_for_def enum_field_def)

lemma long_field_ok:
  "prop_name k \<Longrightarrow> (\<And>v. own m k = Some v \<Longrightarrow> \<exists>w. v = JLong w b \<and> (o_longs opts = Longs_Number \<longrightarrow> exact_number b w)) \<Longrightarrow>
   field_ok_for m (long_field U opts k b)"
  using carries_long carries_default_long by (fastforce simp: field_ok_for_def long_field_def)

lemma bytes_field_ok:
  "prop_name k \<Longrightarrow> o_bytes opts \<noteq> Bytes_Array \<Longrightarrow> (\<And>v. own m k = Some v \<Longrightarrow> \<exists>b. v = JBuf b) \<Longrightarrow>
   field_ok_for m (bytes_field U opts k)"
  using carries_bytes carries_default_bytes by (fastforce simp: field_ok_for_def bytes_field_def)

lemma envelope_fields_ok:
  assumes "o_bytes opts \<noteq> Bytes_Array"
    and "o_longs opts = Longs_Number \<Longrightarrow> exact_number True (get_requestId m)"
  shows "\<forall>c \<in> set (envelope_fields U opts). field_ok_for (envelope_js m) c"
  using assms by (auto simp: envelope_fields_def own_message get_requestId_def sample_enum_names_ok
    enum_members intro!: string_field_ok enum_field_ok long_field_ok bytes_field_ok)

lemma envelope_roundtrip:
  assumes "e_metadata m = Some kvs" "plain_metadata kvs" "o_bytes opts \<noteq> Bytes_Array"
    and "o_longs opts = Longs_Number \<Longrightarrow> exact_number True (get_requestId m)"
  shows "\<exists>ob. Envelope_toObject U (envelope_js m) (Some opts) = Inr ob \<and>
    Envelope_fromObject U ob = Inr (envelope_js (complete_envelope (o_defaults opts) m))"
proof -
  let ?fs = "envelope_fields U opts" and ?b = "o_objects opts \<or> o_defaults opts"
  let ?ps0 = "if ?b then [(''metadata'', plain [])] else []"
  have distinct: "distinct (map fc_name ?fs)" and fresh: "\<forall>c \<in> set ?fs. js_get ?ps0 (fc_name c) = None"
    by (simp_all add: envelope_fields_def js_get_def)
  note ok = envelope_fields_ok [OF assms(3,4)]
  from fields_carried [OF ok distinct fresh, of "o_defaults opts" "[to_metadata (envelope_js m)]"]
  obtain ps1 ps where to:
    "assign (if o_defaults opts then map set_field ?fs else []) ?ps0 = Inr ps1"
    "assign (map (to_prop (envelope_js m)) (map to_field ?fs) @ [to_metadata (envelope_js m)]) ps1
      = assign [to_metadata (envelope_js m)] ps"
    "\<forall>k. k \<notin> fc_name ` set ?fs \<longrightarrow> js_get ps k = js_get ?ps0 k"
    and held: "\<forall>c \<in> set ?fs. holds ps c (with_default (fc_value c) (o_defaults opts) (own (envelope_js m) (fc_name c)))"
    by blast
  define ps2 where "ps2 = (if kvs = [] then ps else js_set ''metadata'' (js_map kvs) ps)"
  have other: "js_get ps2 k = js_get ps k" if "k \<noteq> ''metadata''" for k
    using that by (simp add: ps2_def js_get_set_prop)
  have "js_get ps2 ''metadata'' = (if ?b \<or> kvs \<noteq> [] then Some (js_map kvs) else None)"
    using to(3) by (simp add: ps2_def js_get_set_prop envelope_fields_def) (simp add: js_get_def js_map_def)
  note meta = from_metadata_js [OF assms(2) this]
  have held2: "\<forall>c \<in> set ?fs. holds ps2 c (with_default (fc_value c) (o_defaults opts) (own (envelope_js m) (fc_name c)))"
    using held holds_cong [OF other] by (auto simp: envelope_fields_def)
  let ?qs = "concat (map (\<lambda>c. own_opt (fc_name c)
    (with_default (fc_value c) (o_defaults opts) (own (envelope_js m) (fc_name c)))) ?fs)"
  have new: "\<forall>c \<in> set ?fs. fc_name c \<notin> fst ` set [(''metadata'', plain [])]" "''metadata'' \<notin> fst ` set ?qs"
    by (auto simp: envelope_fields_def dest: own_opt_key)
  have "Envelope_toObject U (envelope_js m) (Some opts) = Inr (plain ps2)"
    unfolding Envelope_toObject_def Let_def default_simps envelope_statements(1,2) [of U opts]
    using to(1,2) to_metadata_js [OF assms(1,2), of ps] by (simp add: ps2_def)
  moreover have "Envelope_fromObject U (plain ps2) = Inr (JObj ''Envelope'' ((''metadata'', js_map kvs) # ?qs))"
    unfolding Envelope_fromObject_def envelope_statements(3) [of U opts]
    using from_props [OF fields_ok_names [OF ok] distinct held2 new(1), of "[from_metadata U (plain ps2)]"]
      meta [OF new(2)]
    by (simp add: instance_of_def)
  moreover have "JObj ''Envelope'' ((''metadata'', js_map kvs) # ?qs) = envelope_js (complete_envelope (o_defaults opts) m)"
    using assms(1) by (simp add: envelope_fields_def own_message)
      (simp add: envelope_js_def complete_envelope_def flip: with_default_map)
  ultimately show ?thesis by simp
qed

end

subsection \<open>The messages of the services\<close>

context conversions
begin

text \<open>A message whose fields are all carried, and nothing else.\<close>

lemma simple_roundtrip:
  assumes ok: "\<forall>c \<in> set fs. field_ok_for message c" and "distinct (map fc_name fs)"
  shows "\<exists>ps1 ps. assign (if b then map set_field fs else []) [] = Inr ps1 \<and>
    assign (map (to_prop message) (map to_field fs)) ps1 = Inr ps \<and>
    assign (map (from_prop (plain ps)) (map from_field fs)) []
      = Inr (concat (map (\<lambda>c. own_opt (fc_name c) (with_default (fc_value c) b (own message (fc_name c)))) fs))"
proof -
  have fresh: "\<forall>c \<in> set fs. js_get [] (fc_name c) = None" by (simp add: js_get_def)
  from fields_carried [OF ok assms(2) fresh, of b "[]"] obtain ps1 ps where
    to: "assign (if b then map set_field fs else []) [] = Inr ps1"
      "assign (map (to_prop message) (map to_field fs)) ps1 = Inr ps" and
    held: "\<forall>c \<in> set fs. holds ps c (with_default (fc_value c) b (own message (fc_name c)))" by auto
  from from_props [OF fields_ok_names [OF ok] assms(2) held, of "[]" "[]"] to show ?thesis by auto
qed

lemmas simple_message = set_field_def to_field_def from_field_def string_field_def long_field_def own_message
  instance_of_def with_default_map [symmetric] if_distrib [of "\<lambda>fs. assign fs _"]

lemma ping_roundtrip:
  "\<exists>ob. Ping_toObject U (ping_js m) (Some opts) = Inr ob \<and>
    Ping_fromObject U ob = Inr (ping_js \<lparr>ping_clientId = with_default [] (o_defaults opts) (ping_clientId m)\<rparr>)"
proof -
  let ?fs = "[string_field U ''clientId'']"
  have "\<forall>c \<in> set ?fs. field_ok_for (ping_js m) c" by (auto simp: own_message intro!: string_field_ok)
  from simple_roundtrip [OF this, of "o_defaults opts"] show ?thesis
    by (auto simp: Ping_toObject_def Ping_fromObject_def ping_js_def [of "\<lparr>ping_clientId = _\<rparr>"] simple_message
      cong: if_cong)
qed

lemma echo_request_roundtrip:
  "\<exists>ob. EchoRequest_toObject U (echo_request_js m) (Some opts) = Inr ob \<and>
    EchoRequest_fromObject U ob
      = Inr (echo_request_js \<lparr>echoreq_message = with_default [] (o_defaults opts) (echoreq_message m)\<rparr>)"
proof -
  let ?fs = "[string_field U ''message'']"
  have "\<forall>c \<in> set ?fs. field_ok_for (echo_request_js m) c" by (auto simp: own_message intro!: string_field_ok)
  from simple_roundtrip [OF this, of "o_defaults opts"] show ?thesis
    by (auto simp: EchoRequest_toObject_def EchoRequest_fromObject_def
      echo_request_js_def [of "\<lparr>echoreq_message = _\<rparr>"] simple_message cong: if_cong)
qed

lemma pong_roundtrip:
  assumes "o_longs opts = Longs_Number \<Longrightarrow> exact_number False (default 0 (pong_timestampMs m))"
  shows "\<exists>ob. Pong_toObject U (pong_js m) (Some opts) = Inr ob \<and>
    Pong_fromObject U ob = Inr (pong_js \<lparr>pong_serverId = with_default [] (o_defaults opts) (pong_serverId m),
      pong_timestampMs = with_default 0 (o_defaults opts) (pong_timestampMs m)\<rparr>)"
proof -
  let ?fs = "[string_field U ''serverId'', long_field U opts ''timestampMs'' False]"
  have "\<forall>c \<in> set ?fs. field_ok_for (pong_js m) c"
    using assms by (auto simp: own_message intro!: string_field_ok long_field_ok)
  from simple_roundtrip [OF this, of "o_defaults opts"] show ?thesis
    by (auto simp: Pong_toObject_def Pong_fromObject_def
      pong_js_def [of "\<lparr>pong_serverId = _, pong_timestampMs = _\<rparr>"] simple_message cong: if_cong)
qed

lemma echo_response_roundtrip:
  assumes "o_longs opts = Longs_Number \<Longrightarrow> exact_number False (default 0 (echoresp_timestampMs m))"
  shows "\<exists>ob. EchoResponse_toObject U (echo_response_js m) (Some opts) = Inr ob \<and>
    EchoResponse_fromObject U ob
      = Inr (echo_response_js \<lparr>echoresp_message = with_default [] (o_defaults opts) (echoresp_message m),
          echoresp_timestampMs = with_default 0 (o_defaults opts) (echoresp_timestampMs m)\<rparr>)"
proof -
  let ?fs = "[string_field U ''message'', long_field U opts ''timestampMs'' False]"
  have "\<forall>c \<in> set ?fs. field_ok_for (echo_response_js m) c"
    using assms by (auto simp: own_message intro!: string_field_ok long_field_ok)
  from simple_roundtrip [OF this, of "o_defaults opts"] show ?thesis
    by (auto simp: EchoResponse_toObject_def EchoResponse_fromObject_def
      echo_response_js_def [of "\<lparr>echoresp_message = _, echoresp_timestampMs = _\<rparr>"] simple_message cong: if_cong)
qed

text \<open>The methods of a descriptor, an array of strings that is always an own property.\<close>

lemma descriptor_roundtrip:
  assumes "sd_methods m = Some ss"
  shows "\<exists>ob. ServiceDescriptor_toObject U (service_descriptor_js m) (Some opts) = Inr ob \<and>
    ServiceDescriptor_fromObject U ob
      = Inr (service_descriptor_js (m\<lparr>sd_name := with_default [] (o_defaults opts) (sd_name m)\<rparr>))"
proof -
  let ?m = "service_descriptor_js m"
  let ?fs = "[string_field U ''name'']" and ?b = "o_arrays opts \<or> o_defaults opts"
  let ?ps0 = "if ?b then [(''methods'', JArr [])] else []"
  let ?ms = "JArr (map JStr ss)" and ?x = "with_default (JStr []) (o_defaults opts) (map_option JStr (sd_name m))"
  have ok: "\<forall>c \<in> set ?fs. field_ok_for ?m c" by (auto simp: own_message intro!: string_field_ok)
  have fresh: "\<forall>c \<in> set ?fs. js_get ?ps0 (fc_name c) = None" by (simp add: js_get_def)
  from fields_carried [OF ok _ fresh, of "o_defaults opts" "[to_methods ?m]"] obtain ps1 ps where
    to: "assign (if o_defaults opts then map set_field ?fs else []) ?ps0 = Inr ps1"
      "assign (map (to_prop ?m) (map to_field ?fs) @ [to_methods ?m]) ps1 = assign [to_methods ?m] ps"
      "\<forall>k. k \<noteq> ''name'' \<longrightarrow> js_get ps k = js_get ?ps0 k" and
    held: "holds ps (string_field U ''name'') ?x"
    by (auto simp: own_message)
  define ps2 where "ps2 = (if ss = [] then ps else js_set ''methods'' ?ms ps)"
  have "get ?m ''methods'' = ?ms" using assms by (simp add: get_def service_descriptor_js_def map_add_def)
  then have methods: "to_methods ?m ps = Inr ps2"
    by (simp add: to_methods_def truthy_def get_length slice_array ps2_def)
  have held2: "\<forall>c \<in> set ?fs. holds ps2 c ?x"
    using held holds_cong [of ps2 "string_field U ''name''" ps ?x]
    by (simp add: ps2_def js_get_set_prop)
  have "js_get ps2 ''methods'' = (if ?b \<or> ss \<noteq> [] then Some ?ms else None)"
    using to(3) by (simp add: ps2_def js_get_set_prop) (auto simp: js_get_def)
  moreover have "each (\<lambda>x. and_then (to_string U x) (\<lambda>s. Inr (JStr s))) (map JStr ss) = Inr (map (\<lambda>x. x) (map JStr ss))"
    by (rule each_Inr) (auto simp: to_string_def)
  moreover have set: "js_set ''methods'' ?ms ((''methods'', JArr []) # own_opt ''name'' ?x)
      = (''methods'', ?ms) # own_opt ''name'' ?x"
    by (rule js_set_first) (auto dest: own_opt_key)
  ultimately have from_m: "from_methods U (plain ps2) ((''methods'', JArr []) # own_opt ''name'' ?x)
      = Inr ((''methods'', ?ms) # own_opt ''name'' ?x)"
    by (cases "?b \<or> ss \<noteq> []") (auto simp: from_methods_def get_plain truthy_def)
  have "ServiceDescriptor_toObject U ?m (Some opts) = Inr (plain ps2)"
    using to(1,2) methods
    by (simp add: ServiceDescriptor_toObject_def simple_message cong: if_cong)
  moreover have "ServiceDescriptor_fromObject U (plain ps2)
      = Inr (JObj ''ServiceDescriptor'' ((''methods'', ?ms) # own_opt ''name'' ?x))"
    using from_props [OF fields_ok_names [OF ok] _ held2, of "[(''methods'', JArr [])]" "[from_methods U (plain ps2)]"] from_m
    by (simp add: ServiceDescriptor_fromObject_def instance_of_def from_field_def string_field_def)
  moreover have "JObj ''ServiceDescriptor'' ((''methods'', ?ms) # own_opt ''name'' ?x)
      = service_descriptor_js (m\<lparr>sd_name := with_default [] (o_defaults opts) (sd_name m)\<rparr>)"
    using assms by (simp add: service_descriptor_js_def with_default_map [symmetric])
  ultimately show ?thesis by simp
qed

end

end
