(* ===== verification/Object_Properties.thy ===== *)
theory Object_Properties
  imports Object_Roundtrip
begin

section \<open>What the conversions guarantee\<close>

text \<open>
  A concrete instance of the packages the conversions call, with base64 as the standard has
  it; which messages \<open>verify\<close> accepts; and the round trips through plain objects and JSON.
\<close>

subsection \<open>Base64\<close>

definition b64_alphabet :: string where
  "b64_alphabet = ''ABCDEFGHIJKLMNOPQRSTUVWXYZabcdefghijklmnopqrstuvwxyz0123456789+/''"

definition b64_char :: "nat \<Rightarrow> char" where
  "b64_char i = b64_alphabet ! i"

definition b64_index :: "char \<Rightarrow> nat" where
  "b64_index c = length (takeWhile (\<lambda>x. x \<noteq> c) b64_alphabet)"

fun b64_encode :: "bytes \<Rightarrow> string" where
  "b64_encode [] = []"
| "b64_encode [a] = (let x = unat a in [b64_char (x div 4), b64_char (x mod 4 * 16), CHR ''='', CHR ''=''])"
| "b64_encode [a, b] = (let x = unat a; y = unat b in
     [b64_char (x div 4), b64_char (x mod 4 * 16 + y div 16), b64_char (y mod 16 * 4), CHR ''=''])"
| "b64_encode (a # b # c # r) = (let x = unat a; y = unat b; z = unat c in
     b64_char (x div 4) # b64_char (x mod 4 * 16 + y div 16) # b64_char (y mod 16 * 4 + z div 64)
       # b64_char (z mod 64) # b64_encode r)"

fun b64_decode :: "string \<Rightarrow> string + bytes" where
  "b64_decode [] = Inr []"
| "b64_decode (p # q # r # s # t) = (let w = b64_index p; x = b64_index q; y = b64_index r; z = b64_index s;
       a = of_nat (w * 4 + x div 16); b = of_nat (x mod 16 * 16 + y div 4) in
     if r = CHR ''='' then Inr [a] else if s = CHR ''='' then Inr [a, b]
     else and_then (b64_decode t) (\<lambda>bs. Inr (a # b # of_nat (y mod 4 * 64 + z) # bs)))"
| "b64_decode _ = Inl ''invalid encoding''"

lemma b64_char_index: "i < 64 \<Longrightarrow> b64_index (b64_char i) = i \<and> b64_char i \<noteq> CHR ''=''"
proof -
  have "list_all (\<lambda>i. b64_index (b64_char i) = i \<and> b64_char i \<noteq> CHR ''='') [0..<64]" by code_simp
  then show "i < 64 \<Longrightarrow> ?thesis" by (simp add: list_all_iff)
qed

lemma byte_less: "unat (a :: 8 word) < 256"
  using unsigned_less [of a] by simp

lemma sextets:
  fixes a b c :: "8 word"
  shows "unat a div 4 < 64" "unat a mod 4 * 16 < 64" "unat a mod 4 * 16 + unat b div 16 < 64"
    "unat b mod 16 * 4 < 64" "unat b mod 16 * 4 + unat c div 64 < 64" "unat c mod 64 < 64"
    "(unat a mod 4 * 16 + unat b div 16) div 16 = unat a mod 4"
    "(unat a mod 4 * 16 + unat b div 16) mod 16 = unat b div 16"
    "(unat b mod 16 * 4 + unat c div 64) div 4 = unat b mod 16"
    "(unat b mod 16 * 4 + unat c div 64) mod 4 = unat c div 64"
    "unat b div 16 mod 16 = unat b div 16" "unat c div 64 mod 4 = unat c div 64"
proof -
  have "unat a < 256" "unat b < 256" "unat c < 256" using byte_less by simp_all
  then have *: "unat b div 16 < 16" "unat c div 64 < 4" and "unat a div 4 < 64" by (simp_all add: div_less_iff_less_mult)
  then show "unat a div 4 < 64" by simp
  show "unat a mod 4 * 16 < 64" "unat b mod 16 * 4 < 64" "unat c mod 64 < 64"
    using mod_less_divisor [of 4 "unat a"] mod_less_divisor [of 16 "unat b"] by simp_all
  show "unat a mod 4 * 16 + unat b div 16 < 64" "unat b mod 16 * 4 + unat c div 64 < 64"
    using mod_less_divisor [of 4 "unat a"] mod_less_divisor [of 16 "unat b"] * by linarith+
  show "(unat a mod 4 * 16 + unat b div 16) div 16 = unat a mod 4"
    "(unat a mod 4 * 16 + unat b div 16) mod 16 = unat b div 16"
    "(unat b mod 16 * 4 + unat c div 64) div 4 = unat b mod 16"
    "(unat b mod 16 * 4 + unat c div 64) mod 4 = unat c div 64"
    "unat b div 16 mod 16 = unat b div 16" "unat c div 64 mod 4 = unat c div 64"
    using * by simp_all
qed

lemma b64_roundtrip: "b64_decode (b64_encode bs) = Inr bs"
proof (induction bs rule: b64_encode.induct)
  case (2 a)
  then show ?case by (simp add: Let_def b64_char_index sextets del: of_nat_add of_nat_mult)
next
  case (3 a b)
  then show ?case by (simp add: Let_def b64_char_index sextets del: of_nat_add of_nat_mult)
next
  case (4 a b c r)
  then show ?case by (simp add: Let_def b64_char_index sextets del: of_nat_add of_nat_mult)
qed simp

subsection \<open>An instance of the packages\<close>

definition read_int :: "string \<Rightarrow> int" where
  "read_int s = (if s \<noteq> [] \<and> hd s = CHR ''-'' then - int (read_nat (tl s)) else int (read_nat s))"

lemma read_show_int: "read_int (show_int i) = i"
proof (cases "i < 0")
  case False
  have "hd (show_nat (nat i)) \<noteq> CHR ''-''"
    using show_nat_digits [of "nat i"] minus_not_digit by (cases "show_nat (nat i)") auto
  with False show ?thesis by (simp add: read_int_def show_int_def read_show_nat)
qed (simp add: read_int_def show_int_def read_show_nat)

definition word_value :: "bool \<Rightarrow> u64 \<Rightarrow> int" where
  "word_value b v = (if b then uint v else sint v)"

definition js_integer :: "int \<Rightarrow> js_number" where
  "js_integer i = (if \<bar>i\<bar> \<le> 2 ^ 53 then Safe i else Other (show_int i) True)"

definition join_words :: "u32 \<Rightarrow> u32 \<Rightarrow> u64" where
  "join_words lo hi = or (push_bit 32 (ucast hi)) (ucast lo)"

definition int_word :: "js \<Rightarrow> u32" where
  "int_word v = (case v of JNum (Safe i) \<Rightarrow> of_int i | _ \<Rightarrow> 0)"

definition exact_util :: util_ops where
  "exact_util = \<lparr>
     u_fromValue = (\<lambda>v. case v of JLong w b \<Rightarrow> Inr w | JStr s \<Rightarrow> Inr (of_int (read_int s))
        | JNum (Safe i) \<Rightarrow> Inr (of_int i) | JNum (Other s b) \<Rightarrow> Inr (of_int (read_int s))
        | _ \<Rightarrow> if integer_or_long v then Inr (join_words (int_word (get v ''low'')) (int_word (get v ''high'')))
               else Inl ''unsupported''),
     u_longToString = (\<lambda>v. case v of JLong w b \<Rightarrow> Inr (show_int (word_value b w)) | _ \<Rightarrow> Inl ''unsupported''),
     u_longToNumber = (\<lambda>v. case v of JLong w b \<Rightarrow> js_integer (word_value b w) | _ \<Rightarrow> Other ''NaN'' False),
     u_bitsToNumber = (\<lambda>lo hi b. js_integer (word_value b (join_words lo hi))),
     u_base64_decode = b64_decode,
     u_base64_encode = (\<lambda>v. case v of JBuf x \<Rightarrow> Inr (b64_encode x) | _ \<Rightarrow> Inl ''unsupported''),
     u_toString = (\<lambda>v. Inr ''[object Object]''),
     u_toUint32 = (\<lambda>v. 0),
     u_nonnegative = (\<lambda>v. False),
     u_toJSONOptions = \<lparr>o_objects = False, o_arrays = False, o_defaults = False, o_enums_String = True,
       o_longs = Longs_String, o_bytes = Bytes_String\<rparr>\<rparr>"

lemma join_halves: "join_words (ucast v) (ucast (drop_bit 32 v)) = (v :: u64)"
  by (rule bit_word_eqI) (auto simp: join_words_def bit_simps)

lemma of_word_value: "(of_int (word_value b v) :: u64) = v"
  by (simp add: word_value_def)

interpretation exact: conversions exact_util
proof
  show "\<exists>s. u_longToString exact_util (JLong v b) = Inr s \<and> u_fromValue exact_util (JStr s) = Inr v" for v b
    by (simp add: exact_util_def read_show_int of_word_value)
  show "u_fromValue exact_util (JNum (u_bitsToNumber exact_util (ucast v) (ucast (drop_bit 32 v)) b)) = Inr v"
    if "exact_number b v" for b v
  proof -
    have "\<bar>word_value b v\<bar> \<le> 2 ^ 53"
    proof (cases b)
      case True
      then have "int (unat v) \<le> int (2 ^ 53)"
        using that unfolding exact_number_def by (simp only: of_nat_le_iff if_True)
      with True show ?thesis by (simp add: word_value_def)
    qed (use that in \<open>simp add: exact_number_def word_value_def\<close>)
    then have "u_bitsToNumber exact_util (ucast v) (ucast (drop_bit 32 v)) b = Safe (word_value b v)"
      unfolding exact_util_def util_ops.select_convs join_halves js_integer_def by (rule if_P)
    moreover have "u_fromValue exact_util (JNum (Safe i)) = Inr (of_int i)" for i
      by (simp add: exact_util_def)
    ultimately show ?thesis by (simp only: of_word_value)
  qed
qed (simp_all add: exact_util_def js_integer_def word_value_def b64_roundtrip)

subsection \<open>Properties\<close>

definition known :: "enum \<Rightarrow> u32 option \<Rightarrow> bool" where
  "known e x \<longleftrightarrow> (case x of None \<Rightarrow> True | Some t \<Rightarrow> t \<in> snd ` set e)"

lemma is_enum_js: "is_enum e (js_enum t) \<longleftrightarrow> t \<in> snd ` set e"
  by (auto simp: is_enum_def js_enum_def list_ex_iff image_iff split_beta dest!: signed_word_eqI)

lemma long_integer: "integer_or_long (JLong v b)"
  by (simp add: integer_or_long_def truthy_def get_def low_word_def high_word_def is_integer_def)

text \<open>A field of its declared type passes its check.\<close>

lemma check_string: "own m k = map_option JStr x \<Longrightarrow> check m k is_string reason = None"
  by (cases x) (simp_all add: check_def is_string_def)

lemma check_long: "own m k = map_option (\<lambda>v. JLong v b) x \<Longrightarrow> check m k integer_or_long reason = None"
  by (cases x) (simp_all add: check_def long_integer)

lemma check_buffer: "own m k = map_option JBuf x \<Longrightarrow> check m k is_buffer reason = None"
  by (cases x) (simp_all add: check_def is_buffer_def truthy_def get_length is_number_def)

lemma check_enum:
  "own m k = map_option js_enum x \<Longrightarrow> check m k (is_enum e) reason = (if known e x then None else Some reason)"
  by (cases x) (simp_all add: check_def known_def is_enum_js)

lemma check_metadata_js: "check_metadata (envelope_js m) = None"
  by (cases "e_metadata m")
    (auto simp: check_metadata_def own_message js_map_def is_object_def list_all_iff is_string_def)

lemma check_methods_js: "check_methods (service_descriptor_js m) = None"
  by (cases "sd_methods m") (auto simp: check_methods_def own_message list_all_iff is_string_def)

text \<open>
  Messages as the classes make them are accepted: the fields of a message always have the type the
  class declares, so only an enum can be wrong, a number outside it, which a decoder does not reject.
\<close>

lemma typed_messages_verify:
  "Envelope_verify (envelope_js m) =
     (if \<not> known MessageType (e_type m) then Some ''type: enum value expected''
      else if \<not> known StatusCode (e_status m) then Some ''status: enum value expected''
      else None) \<and>
   Ping_verify (ping_js p) = None \<and> Pong_verify (pong_js q) = None \<and>
   EchoRequest_verify (echo_request_js r) = None \<and> EchoResponse_verify (echo_response_js s) = None \<and>
   ServiceDescriptor_verify (service_descriptor_js d) = None"
  unfolding Envelope_verify_def Ping_verify_def Pong_verify_def EchoRequest_verify_def
    EchoResponse_verify_def ServiceDescriptor_verify_def
  by (simp add: check_enum [OF own_message(1)] check_long [OF own_message(2)] check_string [OF own_message(3)]
    check_string [OF own_message(4)] check_buffer [OF own_message(5)] check_enum [OF own_message(6)]
    check_string [OF own_message(7)] check_string [OF own_message(9)] check_string [OF own_message(10)]
    check_long [OF own_message(11)] check_string [OF own_message(12)] check_string [OF own_message(13)]
    check_long [OF own_message(14)] check_string [OF own_message(15)] check_metadata_js check_methods_js)

text \<open>
  An envelope survives the conversion to a plain object and back: for the options of
  \<open>toObject\<close> except byte arrays, \<open>fromObject\<close> of the result is the envelope itself, its absent
  properties filled with the defaults if \<open>defaults\<close> was asked for; enum numbers outside the
  enum, a 64-bit id and any payload included. As numbers, ids must be at most \<open>2 ^ 53\<close>. The
  metadata is a plain object without a key \<open>__proto__\<close>.
\<close>

lemma Envelope_object_roundtrip:
  assumes "conversions U" "e_metadata m = Some kvs" "plain_metadata kvs" "o_bytes opts \<noteq> Bytes_Array"
    and "o_longs opts = Longs_Number \<Longrightarrow> exact_number True (get_requestId m)"
  shows "\<exists>ob. Envelope_toObject U (envelope_js m) (Some opts) = Inr ob \<and>
    Envelope_fromObject U ob = Inr (envelope_js (complete_envelope (o_defaults opts) m))"
  by (rule conversions.envelope_roundtrip [OF assms])

definition sample_message :: envelope where
  "sample_message = no_envelope_properties\<lparr>e_type := Some 9, e_requestId := Some (- 1),
     e_payload := Some [1, 2, 255], e_metadata := Some [(''k'', ''v'')]\<rparr>"

lemma sample_metadata: "plain_metadata [(''k'', ''v'')]"
  by (simp add: plain_metadata_def js_object_def)

text \<open>
  C26. JSON: what \<open>toJSON\<close> gives for an envelope, with enums by name, 64-bit ids as decimal
  strings and the payload in base64, is read back by \<open>fromObject\<close> as the same envelope.
\<close>

theorem Envelope_json_roundtrip:
  assumes "conversions U" "e_metadata m = Some kvs" "plain_metadata kvs"
  shows "\<exists>json. Envelope_toJSON U (envelope_js m) = Inr json \<and> Envelope_fromObject U json = Inr (envelope_js m)"
proof -
  have same: "complete_envelope False m = m"
    by (simp add: complete_envelope_def)
  have opts: "o_bytes (u_toJSONOptions U) \<noteq> Bytes_Array" "o_longs (u_toJSONOptions U) \<noteq> Longs_Number"
    "\<not> o_defaults (u_toJSONOptions U)"
    using conversions.toJSONOptions [OF assms(1)] by simp_all
  from conversions.envelope_roundtrip [OF assms(1-3) opts(1)] opts(2,3) same show ?thesis
    by (auto simp: Envelope_toJSON_def)
qed

theorem Envelope_json_roundtrip_witness:
  "\<exists>json. Envelope_toJSON exact_util (envelope_js sample_message) = Inr json \<and>
     Envelope_fromObject exact_util json = Inr (envelope_js sample_message)"
proof -
  have "e_metadata sample_message = Some [(''k'', ''v'')]" by (simp add: sample_message_def)
  from Envelope_json_roundtrip [OF exact.conversions_axioms this sample_metadata] show ?thesis .
qed

text \<open>
  The messages of the services survive the conversion to JSON and back: \<open>fromObject\<close> of
  \<open>toJSON\<close> is the message itself, for every message of the five classes (a descriptor always
  has its array of methods).
\<close>

lemma services_json_roundtrip:
  assumes "conversions U" "sd_methods d = Some ss"
  shows "(\<exists>j. Ping_toJSON U (ping_js p) = Inr j \<and> Ping_fromObject U j = Inr (ping_js p)) \<and>
    (\<exists>j. Pong_toJSON U (pong_js q) = Inr j \<and> Pong_fromObject U j = Inr (pong_js q)) \<and>
    (\<exists>j. EchoRequest_toJSON U (echo_request_js r) = Inr j \<and> EchoRequest_fromObject U j = Inr (echo_request_js r)) \<and>
    (\<exists>j. EchoResponse_toJSON U (echo_response_js s) = Inr j \<and> EchoResponse_fromObject U j = Inr (echo_response_js s)) \<and>
    (\<exists>j. ServiceDescriptor_toJSON U (service_descriptor_js d) = Inr j \<and>
      ServiceDescriptor_fromObject U j = Inr (service_descriptor_js d))"
proof -
  let ?opts = "u_toJSONOptions U"
  have opts: "o_longs ?opts \<noteq> Longs_Number" "o_defaults ?opts = False"
    using conversions.toJSONOptions [OF assms(1)] by simp_all
  have same: "\<lparr>ping_clientId = ping_clientId p\<rparr> = p"
    "\<lparr>pong_serverId = pong_serverId q, pong_timestampMs = pong_timestampMs q\<rparr> = q"
    "\<lparr>echoreq_message = echoreq_message r\<rparr> = r"
    "\<lparr>echoresp_message = echoresp_message s, echoresp_timestampMs = echoresp_timestampMs s\<rparr> = s"
    "d\<lparr>sd_name := sd_name d\<rparr> = d"
    by simp_all
  note trip = conversions.ping_roundtrip [OF assms(1), of p ?opts] conversions.pong_roundtrip [OF assms(1), of ?opts q]
    conversions.echo_request_roundtrip [OF assms(1), of r ?opts] conversions.echo_response_roundtrip [OF assms(1), of ?opts s]
    conversions.descriptor_roundtrip [OF assms(1,2), of ?opts]
  show ?thesis
    using trip opts
    by (simp add: Ping_toJSON_def Pong_toJSON_def EchoRequest_toJSON_def EchoResponse_toJSON_def
      ServiceDescriptor_toJSON_def same)
qed

end
