(* ===== verification/Object_Schema.thy ===== *)
theory Object_Schema
  imports Object_Properties
begin

section \<open>What \<open>verify\<close> accepts: the objects of the schema\<close>

text \<open>
  The message types as the schema files declare them (\<open>proto/ibridger/*.proto\<close>), what a JavaScript
  value has to be to stand for a field of each type, and the reason given for one that does not. The
  \<open>verify\<close> of every class decides exactly this, for any value whatsoever. A value may stand for a
  64-bit integer by its two words, for bytes by having a length, and for a map by being an array.
\<close>

subsection \<open>Types\<close>

datatype field_type = Enum_field "int list" | Integer_field | String_field | Bytes_field | Map_field | Strings_field

type_synonym schema = "(string \<times> field_type) list"

definition Envelope_schema :: schema where
  "Envelope_schema = [(''type'', Enum_field [0, 1, 2, 3]), (''requestId'', Integer_field), (''serviceName'', String_field),
     (''methodName'', String_field), (''payload'', Bytes_field), (''status'', Enum_field [0, 1, 2, 3, 4, 5]),
     (''errorMessage'', String_field), (''metadata'', Map_field)]"

definition Ping_schema :: schema where "Ping_schema = [(''clientId'', String_field)]"

definition Pong_schema :: schema where
  "Pong_schema = [(''serverId'', String_field), (''timestampMs'', Integer_field)]"

definition ServiceDescriptor_schema :: schema where
  "ServiceDescriptor_schema = [(''name'', String_field), (''methods'', Strings_field)]"

definition EchoRequest_schema :: schema where "EchoRequest_schema = [(''message'', String_field)]"

definition EchoResponse_schema :: schema where
  "EchoResponse_schema = [(''message'', String_field), (''timestampMs'', Integer_field)]"

inductive integral :: "js \<Rightarrow> bool" where
  "integral (JNum (Safe n))"
| "integral (JNum (Other text True))"

inductive admits :: "field_type \<Rightarrow> js \<Rightarrow> bool" where
  Enum_member: "n \<in> set ns \<Longrightarrow> admits (Enum_field ns) (JNum (Safe n))"
| Integer: "integral v \<Longrightarrow> admits Integer_field v"
| Words: "integral (get v ''low'') \<Longrightarrow> integral (get v ''high'') \<Longrightarrow> admits Integer_field v"
| Text: "admits String_field (JStr s)"
| Base64: "admits Bytes_field (JStr s)"
| Array_like: "get v ''length'' = JNum n \<Longrightarrow> admits Bytes_field v"
| Map_object: "\<forall>(k, x) \<in> set ps. \<exists>s. x = JStr s \<Longrightarrow> admits Map_field (JObj cls ps)"
| Map_array: "admits Map_field (JArr (map JStr ss))"
| Map_empty: "admits Map_field (JBuf [])"
| Texts: "admits Strings_field (JArr (map JStr ss))"

text \<open>An own property that is neither \<open>null\<close> nor \<open>undefined\<close> has to be of the field's type.\<close>

definition field_ok :: "js \<Rightarrow> string \<times> field_type \<Rightarrow> bool" where
  "field_ok v f \<longleftrightarrow> (\<forall>x. map_of (own_properties v) (fst f) = Some x \<longrightarrow> x \<noteq> JNull \<longrightarrow> x \<noteq> JUndefined \<longrightarrow> admits (snd f) x)"

definition of_schema :: "schema \<Rightarrow> js \<Rightarrow> bool" where
  "of_schema sch v \<longleftrightarrow> is_object v \<and> (\<forall>f \<in> set sch. field_ok v f)"

fun expected :: "field_type \<Rightarrow> js \<Rightarrow> string" where
  "expected (Enum_field ns) x = ''enum value expected''"
| "expected Integer_field x = ''integer|Long expected''"
| "expected String_field x = ''string expected''"
| "expected Bytes_field x = ''buffer expected''"
| "expected Map_field x = (if is_object x then ''string{k:string} expected'' else ''object expected'')"
| "expected Strings_field x = (if \<exists>vs. x = JArr vs then ''string[] expected'' else ''array expected'')"

text \<open>The reason names the first field, in the order of the schema, that is not of its type.\<close>

inductive faulty :: "schema \<Rightarrow> js \<Rightarrow> string \<Rightarrow> bool" where
  No_object: "\<not> is_object v \<Longrightarrow> faulty sch v ''object expected''"
| Bad_field: "is_object v \<Longrightarrow> sch = before @ (k, ty) # after \<Longrightarrow> \<forall>f \<in> set before. field_ok v f \<Longrightarrow>
    map_of (own_properties v) k = Some x \<Longrightarrow> \<not> field_ok v (k, ty) \<Longrightarrow>
    faulty sch v (k @ '': '' @ expected ty x)"

inductive_simps integral_simps [simp]:
  "integral JUndefined" "integral JNull" "integral (JBool b)" "integral (JNum n)" "integral (JStr s)" "integral (JBuf bs)"
  "integral (JArr vs)" "integral (JLong w u)" "integral (JObj cls ps)"

inductive_simps admits_simps:
  "admits (Enum_field ns) v" "admits Integer_field v" "admits String_field v" "admits Bytes_field v"
  "admits Map_field v" "admits Strings_field v"

subsection \<open>The tests of \<open>verify\<close>\<close>

lemma integral_eq: "is_integer v = integral v"
  by (auto simp: is_integer_def split: js.split js_number.split)

lemma texts: "list_all is_string vs \<longleftrightarrow> (\<exists>ss. vs = map JStr ss)"
proof
  show "\<exists>ss. vs = map JStr ss" if "list_all is_string vs"
    using that
  proof (induction vs)
    case (Cons v vs)
    then obtain s ss where "v = JStr s" "vs = map JStr ss" by (auto simp: is_string_def split: js.splits)
    then show ?case by (intro exI [of _ "s # ss"]) simp
  qed simp
qed (auto simp: list_all_iff is_string_def)

lemma snd_indexed: "map snd (indexed vs) = vs"
  by (simp add: indexed_def comp_def split_def flip: snd_def)

lemma indexed_strings: "list_all (\<lambda>(k, x). is_string x) (indexed vs) \<longleftrightarrow> list_all is_string vs"
proof -
  have "list_all is_string (map snd (indexed vs)) \<longleftrightarrow> list_all (\<lambda>(k, x). is_string x) (indexed vs)"
    by (simp add: list_all_iff split_def)
  then show ?thesis by (simp add: snd_indexed)
qed

lemma text_no_words: "get (JStr s) ''low'' = JUndefined"
  by (simp add: get_def map_add_def map_of_indexed_name is_digit_def)

text \<open>Each test of a value is that of its field's type.\<close>

lemma tests:
  "is_enum MessageType = admits (Enum_field [0, 1, 2, 3])" "is_enum StatusCode = admits (Enum_field [0, 1, 2, 3, 4, 5])"
  "integer_or_long = admits Integer_field" "is_string = admits String_field" "is_buffer = admits Bytes_field"
proof -
  show "is_enum MessageType = admits (Enum_field [0, 1, 2, 3])" "is_enum StatusCode = admits (Enum_field [0, 1, 2, 3, 4, 5])"
    by (auto simp: fun_eq_iff is_enum_def MessageType_def StatusCode_def admits_simps)
  have "truthy v" if "integral (get v ''low'')" for v
  proof (cases v)
    case (JStr s)
    with that show ?thesis by (simp add: text_no_words)
  qed (use that in \<open>auto simp: truthy_def get_def split: js_number.splits\<close>)
  then show "integer_or_long = admits Integer_field"
    by (auto simp: fun_eq_iff integer_or_long_def integral_eq admits_simps)
  show "is_string = admits String_field"
    by (auto simp: fun_eq_iff is_string_def admits_simps split: js.split)
  have "truthy v" if "get v ''length'' = JNum n" "\<not> is_string v" for v n
    using that by (cases v) (auto simp: truthy_def get_def is_string_def split: js_number.splits)
  moreover have "is_number w \<longleftrightarrow> (\<exists>n. w = JNum n)" "is_string w \<longleftrightarrow> (\<exists>s. w = JStr s)" for w
    by (cases w; simp add: is_number_def is_string_def)+
  ultimately show "is_buffer = admits Bytes_field"
    unfolding fun_eq_iff is_buffer_def admits_simps by metis
qed

lemma test_map: "is_object v \<and> list_all (\<lambda>(k, x). is_string x) (own_properties v) \<longleftrightarrow> admits Map_field v"
proof (cases v)
  case (JBuf b)
  have "list_all is_string (map js_byte b) \<longleftrightarrow> b = []" by (cases b) (simp_all add: is_string_def js_byte_def)
  with JBuf show ?thesis by (simp add: is_object_def indexed_strings admits_simps)
next
  case (JObj cls ps)
  then show ?thesis
    by (fastforce simp: is_object_def admits_simps list_all_iff is_string_def split: js.splits)
next
  case (JArr vs)
  then show ?thesis by (auto simp: is_object_def admits_simps indexed_strings texts)
next
  case (JLong w u)
  then show ?thesis by (simp add: is_object_def admits_simps is_string_def low_word_def)
qed (simp_all add: is_object_def admits_simps)

lemma test_texts: "(case v of JArr vs \<Rightarrow> list_all is_string vs | _ \<Rightarrow> False) \<longleftrightarrow> admits Strings_field v"
  by (cases v) (simp_all add: admits_simps texts)

subsection \<open>\<open>verify\<close> as a walk over the schema\<close>

definition check_field :: "js \<Rightarrow> string \<times> field_type \<Rightarrow> string option" where
  "check_field v f = (case own v (fst f) of None \<Rightarrow> None
     | Some x \<Rightarrow> if admits (snd f) x then None else Some (fst f @ '': '' @ expected (snd f) x))"

lemma check_field_None: "check_field v f = None \<longleftrightarrow> field_ok v f"
  by (auto simp: check_field_def field_ok_def own_def readable_def split: option.split)

lemma check_field_Some:
  "check_field v (k, ty) = Some reason \<longleftrightarrow> \<not> field_ok v (k, ty) \<and>
     (\<exists>x. map_of (own_properties v) k = Some x \<and> reason = k @ '': '' @ expected ty x)"
  by (auto simp: check_field_def field_ok_def own_def readable_def split: option.split)

lemma first_error_Some:
  "first_error (map f xs) = Some reason \<longleftrightarrow>
     (\<exists>before x after. xs = before @ x # after \<and> (\<forall>y \<in> set before. f y = None) \<and> f x = Some reason)"
proof (induction xs)
  case (Cons a xs)
  show ?case
  proof (cases "f a")
    case None
    have "(\<exists>before x after. a # xs = before @ x # after \<and> (\<forall>y \<in> set before. f y = None) \<and> f x = Some reason)
      \<longleftrightarrow> (\<exists>before x after. xs = before @ x # after \<and> (\<forall>y \<in> set before. f y = None) \<and> f x = Some reason)" (is "?l \<longleftrightarrow> ?r")
    proof
      assume ?l
      then obtain before x after where b: "a # xs = before @ x # after" "\<forall>y \<in> set before. f y = None" "f x = Some reason"
        by blast
      with None obtain before' where "before = a # before'" by (cases before) auto
      with b show ?r by auto
    next
      assume ?r
      then obtain before x after where "xs = before @ x # after" "\<forall>y \<in> set before. f y = None" "f x = Some reason"
        by blast
      with None show ?l by (intro exI [of _ "a # before"] exI [of _ x] exI [of _ after]) simp
    qed
    with Cons None show ?thesis by simp
  next
    case (Some r)
    then show ?thesis by (fastforce simp: Cons_eq_append_conv)
  qed
qed simp

lemma first_error_None: "first_error xs = None \<longleftrightarrow> (\<forall>x \<in> set xs. x = None)"
  by (induction xs rule: first_error.induct) auto

definition check_schema :: "schema \<Rightarrow> js \<Rightarrow> string option" where
  "check_schema sch v = (if \<not> is_object v then Some ''object expected'' else first_error (map (check_field v) sch))"

lemma check_schema_None: "check_schema sch v = None \<longleftrightarrow> of_schema sch v"
  by (simp add: check_schema_def of_schema_def first_error_None check_field_None)

lemma check_schema_Some: "check_schema sch v = Some reason \<longleftrightarrow> faulty sch v reason"
proof (cases "is_object v")
  case True
  have "first_error (map (check_field v) sch) = Some reason \<longleftrightarrow> (\<exists>before k ty after x. sch = before @ (k, ty) # after \<and>
      (\<forall>f \<in> set before. field_ok v f) \<and> map_of (own_properties v) k = Some x \<and> \<not> field_ok v (k, ty) \<and>
      reason = k @ '': '' @ expected ty x)"
    unfolding first_error_Some check_field_None split_paired_Ex check_field_Some by blast
  also have "\<dots> \<longleftrightarrow> faulty sch v reason"
    using True unfolding faulty.simps by blast
  finally show ?thesis using True by (simp add: check_schema_def)
next
  case False
  then show ?thesis by (auto simp: check_schema_def faulty.simps)
qed

lemma check_tests:
  "check v k (admits (Enum_field ns)) (k @ '': enum value expected'') = check_field v (k, Enum_field ns)"
  "check v k (admits Integer_field) (k @ '': integer|Long expected'') = check_field v (k, Integer_field)"
  "check v k (admits String_field) (k @ '': string expected'') = check_field v (k, String_field)"
  "check v k (admits Bytes_field) (k @ '': buffer expected'') = check_field v (k, Bytes_field)"
  by (simp_all add: check_def check_field_def split: option.split)

lemma check_fields:
  "check v ''type'' (admits (Enum_field ns)) ''type: enum value expected'' = check_field v (''type'', Enum_field ns)"
  "check v ''requestId'' (admits Integer_field) ''requestId: integer|Long expected'' = check_field v (''requestId'', Integer_field)"
  "check v ''serviceName'' (admits String_field) ''serviceName: string expected'' = check_field v (''serviceName'', String_field)"
  "check v ''methodName'' (admits String_field) ''methodName: string expected'' = check_field v (''methodName'', String_field)"
  "check v ''payload'' (admits Bytes_field) ''payload: buffer expected'' = check_field v (''payload'', Bytes_field)"
  "check v ''status'' (admits (Enum_field ns)) ''status: enum value expected'' = check_field v (''status'', Enum_field ns)"
  "check v ''errorMessage'' (admits String_field) ''errorMessage: string expected'' = check_field v (''errorMessage'', String_field)"
  "check v ''clientId'' (admits String_field) ''clientId: string expected'' = check_field v (''clientId'', String_field)"
  "check v ''serverId'' (admits String_field) ''serverId: string expected'' = check_field v (''serverId'', String_field)"
  "check v ''timestampMs'' (admits Integer_field) ''timestampMs: integer|Long expected'' = check_field v (''timestampMs'', Integer_field)"
  "check v ''name'' (admits String_field) ''name: string expected'' = check_field v (''name'', String_field)"
  "check v ''message'' (admits String_field) ''message: string expected'' = check_field v (''message'', String_field)"
  using check_tests(1) [of v "''type''" ns] check_tests(1) [of v "''status''" ns] check_tests(2-4) [of v "''requestId''"]
    check_tests(2-4) [of v "''serviceName''"] check_tests(2-4) [of v "''methodName''"] check_tests(2-4) [of v "''payload''"]
    check_tests(2-4) [of v "''errorMessage''"] check_tests(2-4) [of v "''clientId''"] check_tests(2-4) [of v "''serverId''"]
    check_tests(2-4) [of v "''timestampMs''"] check_tests(2-4) [of v "''name''"] check_tests(2-4) [of v "''message''"]
  by simp_all

lemma check_metadata_schema: "check_metadata v = check_field v (''metadata'', Map_field)"
proof (cases "own v ''metadata''")
  case (Some x)
  then show ?thesis using test_map [of x] by (auto simp: check_metadata_def check_field_def)
qed (simp add: check_metadata_def check_field_def)

lemma check_methods_schema: "check_methods v = check_field v (''methods'', Strings_field)"
proof (cases "own v ''methods''")
  case (Some x)
  then show ?thesis using test_texts [of x] by (cases x) (simp_all add: check_methods_def check_field_def)
qed (simp add: check_methods_def check_field_def)

lemma verify_is_check:
  "Envelope_verify = check_schema Envelope_schema" "Ping_verify = check_schema Ping_schema"
  "Pong_verify = check_schema Pong_schema" "ServiceDescriptor_verify = check_schema ServiceDescriptor_schema"
  "EchoRequest_verify = check_schema EchoRequest_schema" "EchoResponse_verify = check_schema EchoResponse_schema"
  unfolding fun_eq_iff check_schema_def Envelope_verify_def Ping_verify_def Pong_verify_def
    ServiceDescriptor_verify_def EchoRequest_verify_def EchoResponse_verify_def Envelope_schema_def Ping_schema_def
    Pong_schema_def ServiceDescriptor_schema_def EchoRequest_schema_def EchoResponse_schema_def tests check_fields
    check_metadata_schema check_methods_schema
  by (simp_all only: list.map simp_thms)

subsection \<open>Properties\<close>

text \<open>
  C33. \<open>verify\<close> decides the type of any value: it accepts exactly the values that are objects and whose
  own properties, where present, are of the types that the schema of the class declares; and it
  rejects with exactly the reason that names the first field, in the schema's order, that is not, and
  what was expected of it.
\<close>

theorem verify_messages:
  "(Envelope_verify v = None \<longleftrightarrow> of_schema Envelope_schema v) \<and>
   (Envelope_verify v = Some reason \<longleftrightarrow> faulty Envelope_schema v reason) \<and>
   (Ping_verify v = None \<longleftrightarrow> of_schema Ping_schema v) \<and>
   (Ping_verify v = Some reason \<longleftrightarrow> faulty Ping_schema v reason) \<and>
   (Pong_verify v = None \<longleftrightarrow> of_schema Pong_schema v) \<and>
   (Pong_verify v = Some reason \<longleftrightarrow> faulty Pong_schema v reason) \<and>
   (ServiceDescriptor_verify v = None \<longleftrightarrow> of_schema ServiceDescriptor_schema v) \<and>
   (ServiceDescriptor_verify v = Some reason \<longleftrightarrow> faulty ServiceDescriptor_schema v reason) \<and>
   (EchoRequest_verify v = None \<longleftrightarrow> of_schema EchoRequest_schema v) \<and>
   (EchoRequest_verify v = Some reason \<longleftrightarrow> faulty EchoRequest_schema v reason) \<and>
   (EchoResponse_verify v = None \<longleftrightarrow> of_schema EchoResponse_schema v) \<and>
   (EchoResponse_verify v = Some reason \<longleftrightarrow> faulty EchoResponse_schema v reason)"
  unfolding verify_is_check check_schema_None check_schema_Some by simp

end
