(* ===== verification/Object_Safety.thy ===== *)
theory Object_Safety
  imports Object_Schema
begin

section \<open>What \<open>verify\<close> accepts, \<open>fromObject\<close> converts\<close>

text \<open>
  \<open>verify\<close> as a list of typed properties, and the statements of \<open>fromObject\<close> as operations that
  keep them. A statement is shown safe once for each kind of field; the six conversions are
  composed of safe statements, so an object that \<open>verify\<close> accepts is converted to a message that
  \<open>verify\<close> accepts too, or, for an envelope only, its payload is a string that is not base64.
\<close>

subsection \<open>Typed properties\<close>

type_synonym js_type = "js \<Rightarrow> bool"
type_synonym shape = "(string \<times> js_type) list"

definition conforms :: "shape \<Rightarrow> props \<Rightarrow> bool" where
  "conforms sh ps \<longleftrightarrow> (\<forall>(k, ok) \<in> set sh. \<forall>v. js_get ps k = Some v \<longrightarrow> readable v \<longrightarrow> ok v)"

definition strings_object :: js_type where
  "strings_object v \<longleftrightarrow> is_object v \<and> list_all (\<lambda>(k, x). is_string x) (own_properties v)"

definition strings_array :: js_type where
  "strings_array v \<longleftrightarrow> (case v of JArr vs \<Rightarrow> list_all is_string vs | _ \<Rightarrow> False)"

definition envelope_shape :: shape where
  "envelope_shape =
     [(''type'', is_enum MessageType), (''requestId'', integer_or_long), (''serviceName'', is_string),
      (''methodName'', is_string), (''payload'', is_buffer), (''status'', is_enum StatusCode),
      (''errorMessage'', is_string), (''metadata'', strings_object)]"

lemma check_None:
  "check (JObj cls ps) k ok reason = None \<longleftrightarrow> (\<forall>v. js_get ps k = Some v \<longrightarrow> readable v \<longrightarrow> ok v)"
  by (auto simp: check_def own_JObj js_get_def split: option.splits)

lemma check_metadata_None:
  "check_metadata (JObj cls ps) = None \<longleftrightarrow> (\<forall>v. js_get ps ''metadata'' = Some v \<longrightarrow> readable v \<longrightarrow> strings_object v)"
  by (auto simp: check_metadata_def own_JObj js_get_def strings_object_def split: option.splits)

lemma check_methods_None:
  "check_methods (JObj cls ps) = None \<longleftrightarrow> (\<forall>v. js_get ps ''methods'' = Some v \<longrightarrow> readable v \<longrightarrow> strings_array v)"
  by (auto simp: check_methods_def own_JObj js_get_def strings_array_def split: option.splits js.splits)

text \<open>Each \<open>verify\<close> tests a shape.\<close>

lemma verify_shapes:
  "Envelope_verify (JObj cls ps) = None \<longleftrightarrow> conforms envelope_shape ps"
  "Ping_verify (JObj cls ps) = None \<longleftrightarrow> conforms [(''clientId'', is_string)] ps"
  "Pong_verify (JObj cls ps) = None \<longleftrightarrow> conforms [(''serverId'', is_string), (''timestampMs'', integer_or_long)] ps"
  "EchoRequest_verify (JObj cls ps) = None \<longleftrightarrow> conforms [(''message'', is_string)] ps"
  "EchoResponse_verify (JObj cls ps) = None \<longleftrightarrow> conforms [(''message'', is_string), (''timestampMs'', integer_or_long)] ps"
  "ServiceDescriptor_verify (JObj cls ps) = None \<longleftrightarrow> conforms [(''name'', is_string), (''methods'', strings_array)] ps"
  by (simp_all add: Envelope_verify_def Ping_verify_def Pong_verify_def EchoRequest_verify_def EchoResponse_verify_def
    ServiceDescriptor_verify_def first_error_None check_None check_metadata_None check_methods_None conforms_def
    envelope_shape_def is_object_def)

subsection \<open>Safe statements\<close>

definition safe :: "shape \<Rightarrow> (string \<Rightarrow> bool) \<Rightarrow> (props \<Rightarrow> string + props) \<Rightarrow> bool" where
  "safe sh err f \<longleftrightarrow> (\<forall>ps. conforms sh ps \<longrightarrow> (case f ps of Inl e \<Rightarrow> err e | Inr ps' \<Rightarrow> conforms sh ps'))"

lemma safe_assign:
  "list_all (safe sh err) fs \<Longrightarrow> conforms sh ps \<Longrightarrow>
    (case assign fs ps of Inl e \<Rightarrow> err e | Inr ps' \<Rightarrow> conforms sh ps')"
proof (induction fs arbitrary: ps)
  case (Cons f fs)
  then have "case f ps of Inl e \<Rightarrow> err e | Inr ps' \<Rightarrow> conforms sh ps'" by (simp add: safe_def)
  with Cons show ?case by (cases "f ps") simp_all
qed simp

lemma conforms_set:
  assumes "conforms sh ps" "\<forall>(k', ok) \<in> set sh. k' = k \<longrightarrow> ok w"
  shows "conforms sh (js_set k w ps)"
  using assms by (fastforce simp: conforms_def js_get_set split: if_splits)

lemma safe_from_prop:
  assumes "\<And>v. js_get ob k = Some v \<Longrightarrow> readable v \<Longrightarrow> (case f v of
      Inl e \<Rightarrow> err e
    | Inr None \<Rightarrow> True
    | Inr (Some w) \<Rightarrow> \<forall>(k', ok) \<in> set sh. k' = k \<longrightarrow> ok w)"
  shows "safe sh err (from_prop (plain ob) (k, f))"
  unfolding safe_def
proof (intro allI impI)
  fix ps assume "conforms sh ps"
  show "case from_prop (plain ob) (k, f) ps of Inl e \<Rightarrow> err e | Inr ps' \<Rightarrow> conforms sh ps'"
  proof (cases "js_get ob k")
    case (Some v)
    with assms [OF Some] \<open>conforms sh ps\<close> show ?thesis
      by (auto simp: from_prop_def get_plain and_then_def conforms_set split: sum.splits option.splits)
  qed (use \<open>conforms sh ps\<close> in \<open>simp add: from_prop_def get_plain\<close>)
qed

text \<open>Statements by the kind of their field.\<close>

lemma safe_string:
  assumes "\<And>v. js_get ob k = Some v \<Longrightarrow> readable v \<Longrightarrow> is_string v" "\<forall>(k', ok) \<in> set sh. k' = k \<longrightarrow> ok = is_string"
  shows "safe sh err (from_prop (plain ob) (k, from_string U))"
proof (rule safe_from_prop)
  show "case from_string U v of Inl e \<Rightarrow> err e | Inr None \<Rightarrow> True | Inr (Some w) \<Rightarrow> \<forall>(k', ok) \<in> set sh. k' = k \<longrightarrow> ok w"
    if "js_get ob k = Some v" "readable v" for v
    using assms(1) [OF that] assms(2) by (cases v) (auto simp: from_string_def to_string_def is_string_def)
qed

lemma safe_enum:
  assumes "\<And>v. js_get ob k = Some v \<Longrightarrow> readable v \<Longrightarrow> is_enum e v" "\<forall>(k', ok) \<in> set sh. k' = k \<longrightarrow> ok = is_enum e"
  shows "safe sh err (from_prop (plain ob) (k, from_enum e))"
proof (rule safe_from_prop)
  show "case from_enum e v of Inl e \<Rightarrow> err e | Inr None \<Rightarrow> True | Inr (Some w) \<Rightarrow> \<forall>(k', ok) \<in> set sh. k' = k \<longrightarrow> ok w"
    if "js_get ob k = Some v" "readable v" for v
  proof -
    from assms(1) [OF that] have v: "is_enum e v" .
    then have "from_enum e v = Inr (Some v)" by (auto simp: from_enum_def is_enum_def list_ex_iff)
    with v assms(2) show ?thesis by auto
  qed
qed

lemma truthy_get:
  assumes "truthy (get (plain ob) k)"
  obtains v where "js_get ob k = Some v" "readable v"
proof -
  have "truthy x \<Longrightarrow> readable x" for x by (cases x) (simp_all add: truthy_def)
  moreover have "\<not> truthy JUndefined" by (simp add: truthy_def)
  ultimately show thesis using assms that by (cases "js_get ob k") (auto simp: get_plain)
qed

text \<open>\<open>Long.fromValue\<close> takes a number, or an object with the halves of a \<open>Long\<close>.\<close>

definition takes_longs :: "util_ops \<Rightarrow> bool" where
  "takes_longs U \<longleftrightarrow> (\<forall>v. integer_or_long v \<longrightarrow> (\<exists>w. u_fromValue U v = Inr w))"

lemma safe_long:
  assumes "takes_longs U" "\<And>v. js_get ob k = Some v \<Longrightarrow> readable v \<Longrightarrow> integer_or_long v"
    and "\<forall>(k', ok) \<in> set sh. k' = k \<longrightarrow> ok = integer_or_long"
  shows "safe sh err (from_prop (plain ob) (k, from_long U b))"
proof (rule safe_from_prop)
  fix v assume "js_get ob k = Some v" "readable v"
  with assms(1,2) obtain w where "u_fromValue U v = Inr w" unfolding takes_longs_def by blast
  then show "case from_long U b v of Inl e \<Rightarrow> err e | Inr None \<Rightarrow> True | Inr (Some w) \<Rightarrow> \<forall>(k', ok) \<in> set sh. k' = k \<longrightarrow> ok w"
    using assms(3) by (auto simp: from_long_def long_integer)
qed

lemma safe_bytes:
  assumes "\<And>v. js_get ob k = Some v \<Longrightarrow> readable v \<Longrightarrow> is_buffer v" "\<forall>(k', ok) \<in> set sh. k' = k \<longrightarrow> ok = is_buffer"
    and "\<And>s e. js_get ob k = Some (JStr s) \<Longrightarrow> u_base64_decode U s = Inl e \<Longrightarrow> err e"
  shows "safe sh err (from_prop (plain ob) (k, from_bytes U))"
proof (rule safe_from_prop)
  fix v assume v: "js_get ob k = Some v" "readable v"
  have buf: "is_buffer (JBuf b)" for b by (simp add: is_buffer_def truthy_def get_length is_number_def)
  show "case from_bytes U v of Inl e \<Rightarrow> err e | Inr None \<Rightarrow> True | Inr (Some w) \<Rightarrow> \<forall>(k', ok) \<in> set sh. k' = k \<longrightarrow> ok w"
  proof (cases "\<exists>s. v = JStr s")
    case True
    then obtain s where s: "v = JStr s" by blast
    show ?thesis
      using assms(2) assms(3) [of s] v(1) buf s by (cases "u_base64_decode U s") (auto simp: from_bytes_def)
  next
    case False
    then have "from_bytes U v = Inr (if nonnegative U (get v ''length'') then Some v else None)"
      by (simp add: from_bytes_def split: js.split)
    with assms(1) [OF v] assms(2) show ?thesis by auto
  qed
qed

text \<open>Copied strings stay strings.\<close>

lemma js_set_values: "snd ` set (js_set k v ob) \<subseteq> insert v (snd ` set ob)"
proof -
  have "snd ` set (insert_index k v ob) \<subseteq> insert v (snd ` set ob)"
    by (induction k v ob rule: insert_index.induct) auto
  then show ?thesis by (auto simp: js_set_def split: if_splits)
qed

lemma js_copy_values: "snd ` set (js_copy kvs ob) \<subseteq> snd ` set kvs \<union> snd ` set ob"
proof (induction kvs arbitrary: ob)
  case (Cons kv kvs)
  have "js_copy (kv # kvs) ob = js_copy kvs (js_set (fst kv) (snd kv) ob)"
    by (simp add: js_copy_def split_def)
  with Cons [of "js_set (fst kv) (snd kv) ob"] js_set_values [of "fst kv" "snd kv" ob] show ?case by auto
qed (simp add: js_copy_def)

lemma copy_strings:
  assumes "list_all (\<lambda>(k, x). is_string x) (own_properties v)"
  shows "\<exists>m. copy_properties (\<lambda>x. and_then (to_string U x) (\<lambda>s. Inr (JStr s))) v = Inr m \<and> strings_object m"
proof -
  have "each (\<lambda>(k, x). and_then (and_then (to_string U x) (\<lambda>s. Inr (JStr s))) (\<lambda>y. Inr (k, y))) (own_properties v)
      = Inr (map (\<lambda>x. x) (own_properties v))"
  proof (rule each_Inr)
    fix p assume "p \<in> set (own_properties v)"
    with assms have "is_string (snd p)" by (auto simp: list_all_iff)
    then show "(case p of (k, x) \<Rightarrow> and_then (and_then (to_string U x) (\<lambda>s. Inr (JStr s))) (\<lambda>y. Inr (k, y))) = Inr p"
      by (cases p; cases "snd p") (auto simp: is_string_def to_string_def)
  qed
  moreover have "list_all (\<lambda>(k, x). is_string x) (js_copy (own_properties v) [])"
    using assms js_copy_values [of "own_properties v" "[]"] by (fastforce simp: list_all_iff)
  ultimately show ?thesis
    by (simp add: copy_properties_def strings_object_def is_object_def)
qed

lemma safe_metadata:
  assumes "\<And>v. js_get ob ''metadata'' = Some v \<Longrightarrow> readable v \<Longrightarrow> strings_object v"
    and "\<forall>(k', ok) \<in> set sh. k' = ''metadata'' \<longrightarrow> ok = strings_object"
  shows "safe sh err (from_metadata U (plain ob))"
  unfolding safe_def
proof (intro allI impI)
  fix ps assume ps: "conforms sh ps"
  show "case from_metadata U (plain ob) ps of Inl e \<Rightarrow> err e | Inr ps' \<Rightarrow> conforms sh ps'"
  proof (cases "truthy (get (plain ob) ''metadata'')")
    case True
    then obtain v where v: "js_get ob ''metadata'' = Some v" "readable v" by (rule truthy_get)
    from assms(1) [OF v] have so: "is_object v" "list_all (\<lambda>(k, x). is_string x) (own_properties v)"
      by (simp_all add: strings_object_def)
    from copy_strings [OF so(2), of U] obtain m where
      "copy_properties (\<lambda>x. and_then (to_string U x) (\<lambda>s. Inr (JStr s))) v = Inr m" "strings_object m" by blast
    with True v so(1) ps assms(2) show ?thesis
      by (auto simp: from_metadata_def get_plain intro!: conforms_set)
  qed (use ps in \<open>simp add: from_metadata_def\<close>)
qed

lemma safe_methods:
  assumes "\<And>v. js_get ob ''methods'' = Some v \<Longrightarrow> readable v \<Longrightarrow> strings_array v"
    and "\<forall>(k', ok) \<in> set sh. k' = ''methods'' \<longrightarrow> ok = strings_array"
  shows "safe sh err (from_methods U (plain ob))"
  unfolding safe_def
proof (intro allI impI)
  fix ps assume ps: "conforms sh ps"
  show "case from_methods U (plain ob) ps of Inl e \<Rightarrow> err e | Inr ps' \<Rightarrow> conforms sh ps'"
  proof (cases "truthy (get (plain ob) ''methods'')")
    case True
    then obtain v where v: "js_get ob ''methods'' = Some v" "readable v" by (rule truthy_get)
    from assms(1) [OF v] obtain vs where vs: "v = JArr vs" "list_all is_string vs"
      by (auto simp: strings_array_def split: js.splits)
    have "each (\<lambda>x. and_then (to_string U x) (\<lambda>s. Inr (JStr s))) vs = Inr (map (\<lambda>x. x) vs)"
    proof (rule each_Inr)
      fix x assume "x \<in> set vs"
      with vs(2) have "is_string x" by (simp add: list_all_iff)
      then show "and_then (to_string U x) (\<lambda>s. Inr (JStr s)) = Inr x"
        by (cases x) (simp_all add: is_string_def to_string_def)
    qed
    with True v vs ps assms(2) show ?thesis
      by (auto simp: from_methods_def get_plain strings_array_def intro!: conforms_set)
  qed (use ps in \<open>simp add: from_methods_def\<close>)
qed

subsection \<open>The conversions\<close>

lemma conforms_get: "conforms sh ps \<Longrightarrow> (k, ok) \<in> set sh \<Longrightarrow> js_get ps k = Some v \<Longrightarrow> readable v \<Longrightarrow> ok v"
  by (auto simp: conforms_def)

definition payload_error :: "util_ops \<Rightarrow> props \<Rightarrow> string \<Rightarrow> bool" where
  "payload_error U ob e \<longleftrightarrow> (\<exists>s. js_get ob ''payload'' = Some (JStr s) \<and> u_base64_decode U s = Inl e)"

lemma envelope_safe:
  assumes "takes_longs U" "conforms envelope_shape ob"
  shows "case Envelope_fromObject U (plain ob) of
      Inl e \<Rightarrow> payload_error U ob e
    | Inr m \<Rightarrow> \<exists>ps. m = JObj ''Envelope'' ps \<and> conforms envelope_shape ps"
proof -
  let ?safe = "safe envelope_shape (payload_error U ob)"
  note get = conforms_get [OF assms(2)]
  have "?safe (from_prop (plain ob) (''type'', from_enum MessageType))"
    by (rule safe_enum, rule get) (simp_all add: envelope_shape_def)
  moreover have "?safe (from_prop (plain ob) (''status'', from_enum StatusCode))"
    by (rule safe_enum, rule get) (simp_all add: envelope_shape_def)
  moreover have "?safe (from_prop (plain ob) (''requestId'', from_long U True))"
    by (rule safe_long [OF assms(1)], rule get) (simp_all add: envelope_shape_def)
  moreover have "?safe (from_prop (plain ob) (k, from_string U))" if "k \<in> {''serviceName'', ''methodName'', ''errorMessage''}" for k
    by (rule safe_string, rule get) (use that in \<open>auto simp: envelope_shape_def\<close>)
  moreover have "?safe (from_prop (plain ob) (''payload'', from_bytes U))"
    by (rule safe_bytes, rule get) (auto simp: envelope_shape_def payload_error_def)
  moreover have "?safe (from_metadata U (plain ob))"
    by (rule safe_metadata, rule get) (simp_all add: envelope_shape_def)
  moreover have "conforms envelope_shape [(''metadata'', plain [])]"
    by (simp add: conforms_def envelope_shape_def js_get_def strings_object_def is_object_def)
  ultimately show ?thesis
    using safe_assign [of envelope_shape "payload_error U ob"
      "map (from_prop (plain ob)) [(''type'', from_enum MessageType), (''requestId'', from_long U True),
        (''serviceName'', from_string U), (''methodName'', from_string U), (''payload'', from_bytes U),
        (''status'', from_enum StatusCode), (''errorMessage'', from_string U)] @ [from_metadata U (plain ob)]"
      "[(''metadata'', plain [])]"]
    by (auto simp: Envelope_fromObject_def instance_of_def and_then_def simp del: assign.simps split: sum.splits)
qed

lemma conversion_safe:
  assumes "list_all (safe sh (\<lambda>_. False)) fs" "conforms sh start"
  shows "\<exists>ps. and_then (assign fs start) (\<lambda>ps. Inr (JObj cls ps)) = Inr (JObj cls ps) \<and> conforms sh ps"
  using safe_assign [OF assms] by (cases "assign fs start") simp_all

lemma service_objects_safe:
  assumes "takes_longs U"
  shows "conforms [(''clientId'', is_string)] ob \<Longrightarrow>
      \<exists>ps. Ping_fromObject U (plain ob) = Inr (JObj ''Ping'' ps) \<and> conforms [(''clientId'', is_string)] ps"
    and "conforms [(''serverId'', is_string), (''timestampMs'', integer_or_long)] ob \<Longrightarrow>
      \<exists>ps. Pong_fromObject U (plain ob) = Inr (JObj ''Pong'' ps) \<and>
        conforms [(''serverId'', is_string), (''timestampMs'', integer_or_long)] ps"
    and "conforms [(''message'', is_string)] ob \<Longrightarrow>
      \<exists>ps. EchoRequest_fromObject U (plain ob) = Inr (JObj ''EchoRequest'' ps) \<and> conforms [(''message'', is_string)] ps"
    and "conforms [(''message'', is_string), (''timestampMs'', integer_or_long)] ob \<Longrightarrow>
      \<exists>ps. EchoResponse_fromObject U (plain ob) = Inr (JObj ''EchoResponse'' ps) \<and>
        conforms [(''message'', is_string), (''timestampMs'', integer_or_long)] ps"
    and "conforms [(''name'', is_string), (''methods'', strings_array)] ob \<Longrightarrow>
      \<exists>ps. ServiceDescriptor_fromObject U (plain ob) = Inr (JObj ''ServiceDescriptor'' ps) \<and>
        conforms [(''name'', is_string), (''methods'', strings_array)] ps"
proof -
  have one: "\<exists>ps. and_then (assign (map (from_prop (plain ob)) [(k, from_string U)]) []) (\<lambda>ps. Inr (JObj cls ps))
      = Inr (JObj cls ps) \<and> conforms [(k, is_string)] ps" if "conforms [(k, is_string)] ob" for k cls
  proof (rule conversion_safe)
    have "safe [(k, is_string)] (\<lambda>_. False) (from_prop (plain ob) (k, from_string U))"
      by (rule safe_string, rule conforms_get [OF that]) auto
    then show "list_all (safe [(k, is_string)] (\<lambda>_. False)) (map (from_prop (plain ob)) [(k, from_string U)])"
      by simp
  qed (simp add: conforms_def js_get_def)
  have two: "\<exists>ps. and_then (assign (map (from_prop (plain ob)) [(k, from_string U), (''timestampMs'', from_long U False)]) [])
      (\<lambda>ps. Inr (JObj cls ps)) = Inr (JObj cls ps) \<and> conforms [(k, is_string), (''timestampMs'', integer_or_long)] ps"
    if c: "conforms [(k, is_string), (''timestampMs'', integer_or_long)] ob" "k \<noteq> ''timestampMs''" for k cls
  proof (rule conversion_safe)
    let ?sh = "[(k, is_string), (''timestampMs'', integer_or_long)]"
    have "safe ?sh (\<lambda>_. False) (from_prop (plain ob) (k, from_string U))"
      by (rule safe_string, rule conforms_get [OF c(1)]) (use c(2) in auto)
    moreover have "safe ?sh (\<lambda>_. False) (from_prop (plain ob) (''timestampMs'', from_long U False))"
      by (rule safe_long [OF assms], rule conforms_get [OF c(1)]) (use c(2) in auto)
    ultimately show "list_all (safe ?sh (\<lambda>_. False))
      (map (from_prop (plain ob)) [(k, from_string U), (''timestampMs'', from_long U False)])" by simp
  qed (simp add: conforms_def js_get_def)
  show "\<exists>ps. Ping_fromObject U (plain ob) = Inr (JObj ''Ping'' ps) \<and> conforms [(''clientId'', is_string)] ps"
    if "conforms [(''clientId'', is_string)] ob"
    using one [OF that] by (simp add: Ping_fromObject_def instance_of_def)
  show "\<exists>ps. EchoRequest_fromObject U (plain ob) = Inr (JObj ''EchoRequest'' ps) \<and> conforms [(''message'', is_string)] ps"
    if "conforms [(''message'', is_string)] ob"
    using one [OF that] by (simp add: EchoRequest_fromObject_def instance_of_def)
  show "\<exists>ps. Pong_fromObject U (plain ob) = Inr (JObj ''Pong'' ps) \<and>
      conforms [(''serverId'', is_string), (''timestampMs'', integer_or_long)] ps"
    if "conforms [(''serverId'', is_string), (''timestampMs'', integer_or_long)] ob"
    using two [OF that] by (simp add: Pong_fromObject_def instance_of_def)
  show "\<exists>ps. EchoResponse_fromObject U (plain ob) = Inr (JObj ''EchoResponse'' ps) \<and>
      conforms [(''message'', is_string), (''timestampMs'', integer_or_long)] ps"
    if "conforms [(''message'', is_string), (''timestampMs'', integer_or_long)] ob"
    using two [OF that] by (simp add: EchoResponse_fromObject_def instance_of_def)
  show "\<exists>ps. ServiceDescriptor_fromObject U (plain ob) = Inr (JObj ''ServiceDescriptor'' ps) \<and>
      conforms [(''name'', is_string), (''methods'', strings_array)] ps"
    if c: "conforms [(''name'', is_string), (''methods'', strings_array)] ob"
  proof -
    let ?sh = "[(''name'', is_string), (''methods'', strings_array)]"
    have "safe ?sh (\<lambda>_. False) (from_prop (plain ob) (''name'', from_string U))"
      by (rule safe_string, rule conforms_get [OF c]) auto
    moreover have "safe ?sh (\<lambda>_. False) (from_methods U (plain ob))"
      by (rule safe_methods, rule conforms_get [OF c]) auto
    moreover have "conforms ?sh [(''methods'', JArr [])]"
      by (simp add: conforms_def js_get_def strings_array_def)
    ultimately show ?thesis
      using conversion_safe [of ?sh "map (from_prop (plain ob)) [(''name'', from_string U)] @ [from_methods U (plain ob)]"
        "[(''methods'', JArr [])]" "''ServiceDescriptor''"]
      by (simp add: ServiceDescriptor_fromObject_def instance_of_def)
  qed
qed

subsection \<open>Properties\<close>

text \<open>
  C15. What \<open>verify\<close> accepts, \<open>fromObject\<close> converts: for a plain object that \<open>verify\<close> accepts, the
  conversion of every class gives a message of the class, which \<open>verify\<close> accepts again; only an
  envelope may fail, with the error of the base64 decoder, when its payload is a string that is
  not base64, which \<open>verify\<close> does not look into.
\<close>

theorem verified_objects_convert:
  assumes "takes_longs U"
  shows "(Envelope_verify (plain ob) = None \<longrightarrow> (case Envelope_fromObject U (plain ob) of
      Inl e \<Rightarrow> \<exists>s. own (plain ob) ''payload'' = Some (JStr s) \<and> u_base64_decode U s = Inl e
    | Inr m \<Rightarrow> instance_of ''Envelope'' m \<and> Envelope_verify m = None)) \<and>
    (Ping_verify (plain ob) = None \<longrightarrow> (\<exists>m. Ping_fromObject U (plain ob) = Inr m \<and>
      instance_of ''Ping'' m \<and> Ping_verify m = None)) \<and>
    (Pong_verify (plain ob) = None \<longrightarrow> (\<exists>m. Pong_fromObject U (plain ob) = Inr m \<and>
      instance_of ''Pong'' m \<and> Pong_verify m = None)) \<and>
    (EchoRequest_verify (plain ob) = None \<longrightarrow> (\<exists>m. EchoRequest_fromObject U (plain ob) = Inr m \<and>
      instance_of ''EchoRequest'' m \<and> EchoRequest_verify m = None)) \<and>
    (EchoResponse_verify (plain ob) = None \<longrightarrow> (\<exists>m. EchoResponse_fromObject U (plain ob) = Inr m \<and>
      instance_of ''EchoResponse'' m \<and> EchoResponse_verify m = None)) \<and>
    (ServiceDescriptor_verify (plain ob) = None \<longrightarrow> (\<exists>m. ServiceDescriptor_fromObject U (plain ob) = Inr m \<and>
      instance_of ''ServiceDescriptor'' m \<and> ServiceDescriptor_verify m = None))"
proof (intro conjI impI)
  assume "Envelope_verify (plain ob) = None"
  with envelope_safe [OF assms] have "case Envelope_fromObject U (plain ob) of
      Inl e \<Rightarrow> payload_error U ob e
    | Inr m \<Rightarrow> \<exists>ps. m = JObj ''Envelope'' ps \<and> conforms envelope_shape ps"
    by (simp only: verify_shapes)
  then show "case Envelope_fromObject U (plain ob) of
      Inl e \<Rightarrow> \<exists>s. own (plain ob) ''payload'' = Some (JStr s) \<and> u_base64_decode U s = Inl e
    | Inr m \<Rightarrow> instance_of ''Envelope'' m \<and> Envelope_verify m = None"
    by (auto simp: payload_error_def own_JObj js_get_def instance_of_def verify_shapes split: sum.splits)
qed (use service_objects_safe [OF assms] in \<open>fastforce simp: verify_shapes instance_of_def\<close>)+

lemma exact_takes_longs: "takes_longs exact_util"
  unfolding takes_longs_def
proof (intro allI impI)
  fix v assume "integer_or_long v"
  then show "\<exists>w. u_fromValue exact_util v = Inr w"
    by (simp add: exact_util_def split: js.split js_number.split)
qed

theorem verified_objects_convert_witness:
  "\<exists>m. EchoResponse_fromObject exact_util (plain [(''message'', JStr ''HI''),
       (''timestampMs'', plain [(''low'', JNum (Safe 5)), (''high'', JNum (Safe 0))])]) = Inr m \<and>
     EchoResponse_verify m = None"
proof -
  have "EchoResponse_verify (plain [(''message'', JStr ''HI''),
      (''timestampMs'', plain [(''low'', JNum (Safe 5)), (''high'', JNum (Safe 0))])]) = None" by code_simp
  with verified_objects_convert [OF exact_takes_longs] show ?thesis by blast
qed

end
