(* ===== verification/Rpc_Exchange.thy ===== *)
theory Rpc_Exchange
  imports Client_Connection Dispatch_Loop
begin

section \<open>A call from end to end\<close>

text \<open>
  The client (\<open>rpc/client.ts\<close>) and the server's dispatch loop (\<open>rpc/server.ts\<close>) on the two ends
  of a socket. \<open>result_of\<close> says what a call returns from the abstract outcome of the call that
  \<open>Dispatch\<close> refines; the lemmas follow a request's frame to the server and the reply's frame
  back, for any cutting of the two streams and any timing.
\<close>

definition result_of :: "'r call_args \<Rightarrow> rpc_outcome \<Rightarrow> (call_error + 'r) option" where
  "result_of a oc = (case oc of
     Served p \<Rightarrow> (case respDecode a p of
        None \<Rightarrow> None | Some (Inl text) \<Rightarrow> Some (Inl (BadPayload text)) | Some (Inr r) \<Rightarrow> Some (Inr r))
   | Failed status text \<Rightarrow> Some (Inl (RpcError status text)))"

lemma request_fields:
  "get_serviceName (drop_proto (request_envelope L n a)) = serviceName a"
  "get_methodName (drop_proto (request_envelope L n a)) = methodName a"
  "get_payload (drop_proto (request_envelope L n a)) = payload a"
  "get_requestId (drop_proto (request_envelope L n a)) = fromNumber L n"
  by (simp_all add: request_envelope_def drop_proto_def envelope_gets envelope_new_defs)

lemma reply_plain: "dispatch services x q = Some r \<Longrightarrow> drop_proto r = r"
  using dispatch_Some [of services x q r] by (simp add: drop_proto_def get_metadata_def)

text \<open>What the client makes of a reply is what the registry determines for the call.\<close>

lemma result_of_reply:
  assumes "long_numbers L" "n \<le> 2 ^ 53"
    and "dispatch services x (drop_proto (request_envelope L n a)) = Some r"
  shows "\<exists>oc. call_outcome services x (serviceName a) (methodName a) (payload a) = Some oc \<and>
    call_result L n a r = result_of a oc"
proof -
  let ?q = "drop_proto (request_envelope L n a)"
  have "Some (reply_outcome r) = call_outcome services x (serviceName a) (methodName a) (payload a)"
    using reply_outcome_dispatch [of services x ?q] assms(3) by (simp add: request_fields)
  moreover have "call_result L n a r = result_of a (reply_outcome r)"
  proof -
    have "Number L (get_requestId r) = n"
      using dispatch_Some [OF assms(3)] long_numbers.number_exact [OF assms(1,2)]
      by (simp add: get_requestId_def [of r] request_fields)
    moreover have "get_status r \<noteq> OK \<Longrightarrow> get_errorMessage r \<noteq> []"
      using dispatch_Some [OF assms(3)] by (auto simp: envelope_gets)
    ultimately show ?thesis by (simp add: call_result_def result_of_def reply_outcome_def)
  qed
  ultimately show ?thesis by (intro exI [of _ "reply_outcome r"]) simp
qed

subsection \<open>The two streams\<close>

text \<open>The bytes a server writes begin the frames of the answers to the requests it received.\<close>

definition answers_fit :: "'w writer_ops \<Rightarrow> 'x services \<Rightarrow> 'x session_note list \<Rightarrow> bool" where
  "answers_fit W services log \<longleftrightarrow> (\<forall>r. Some r \<in> set (answers services log) \<longrightarrow> frame_ok (encode_envelope W r))"

lemma written_frames:
  assumes "answers_fit W services log" "sent_inv view W services log s"
  shows "\<exists>rs pending more. map Some rs @ pending = answers services log \<and>
    list_all frame_ok (map (encode_envelope W) rs) \<and>
    s_sent (view (ss_conn s)) @ more = concat (map encode_frame (map (encode_envelope W) rs))"
proof -
  obtain pending part where p: "answers services log = map Some (replies log) @ pending"
    "s_sent (view (ss_conn s)) = concat (map (reply_frame W) (replies log)) @ part"
    "part = [] \<or> (\<exists>r rest. pending = [Some r] \<and> part @ rest = reply_frame W r)"
    using sent_inv_part [OF assms(2)] by blast
  define rs where "rs = replies log @ (if part = [] then [] else map the pending)"
  have "\<exists>more. s_sent (view (ss_conn s)) @ more = concat (map encode_frame (map (encode_envelope W) rs))"
    unfolding unix.reply_frames [symmetric] using p(2,3) by (cases "part = []") (auto simp: rs_def)
  moreover have some: "map Some rs @ (if part = [] then pending else []) = answers services log"
    using p(1,3) by (auto simp: rs_def)
  moreover from this have "Some ` set rs \<subseteq> set (answers services log)"
    by (metis Un_upper1 image_set set_append)
  then have "list_all frame_ok (map (encode_envelope W) rs)"
    using assms(1) by (auto simp: answers_fit_def list_all_iff)
  ultimately show ?thesis by blast
qed

text \<open>
  When what a server's loop received begins the frames of \<open>ms\<close>, what it has written begins frames
  of which the \<open>k\<close>-th decodes to the answer to the \<open>k\<close>-th of \<open>ms\<close>.
\<close>

lemma server_frames:
  assumes rt: "protobuf_runtime W R E sections" and fits: "list_all (envelope_fits W E) ms"
    and replies: "\<forall>m \<in> set ms. \<forall>x r. dispatch services x (drop_proto m) = Some r \<longrightarrow> envelope_fits W E r"
    and sent: "concat (map event_data es) @ later = concat (map (reply_frame W) ms)"
    and run: "unix_session W R services x es = (l, log)"
  shows "\<exists>hs more. list_all frame_ok hs \<and> written (snd (ss_conn l)) @ more = concat (map encode_frame hs) \<and>
    (\<forall>k < length hs. k < length ms \<and> (\<exists>x r. dispatch services x (drop_proto (ms ! k)) = Some r \<and>
       decode_envelope R (hs ! k) = Some (Inr r)))"
proof -
  have inv: "unix.session_inv W R services (concat (map event_data es)) log l"
    using unix_session_inv [of W R services es x] run by simp
  then have sent_ok: "sent_inv unix_view W services log l" unfolding unix.session_inv_def by blast
  obtain qs where qs: "map drop_proto ms = map snd (requests log) @ qs"
    using unix.requests_prefix [OF rt fits sent inv] by blast
  have len: "length (requests log) \<le> length ms" using arg_cong [where f = length, OF qs] by simp
  have nth: "snd (requests log ! i) = drop_proto (ms ! i)" if "i < length (requests log)" for i
    using that len arg_cong [where f = "\<lambda>xs. xs ! i", OF qs] by (simp add: nth_append)
  have fit: "envelope_fits W E r" if "Some r \<in> set (answers services log)" for r
  proof -
    from that obtain i where i: "i < length (requests log)"
      "dispatch services (fst (requests log ! i)) (snd (requests log ! i)) = Some r"
      by (auto simp: answers_def in_set_conv_nth split_def)
    have "ms ! i \<in> set ms" using i(1) len by simp
    with replies i(2) nth [OF i(1)] show ?thesis by simp
  qed
  then have "answers_fit W services log" by (simp add: answers_fit_def envelope_fits_def)
  from written_frames [OF this sent_ok] obtain rs pending more where
    rs: "map Some rs @ pending = answers services log" "list_all frame_ok (map (encode_envelope W) rs)"
      "s_sent (unix_view (ss_conn l)) @ more = concat (map encode_frame (map (encode_envelope W) rs))"
    by blast
  have each: "k < length ms \<and> (\<exists>x r. dispatch services x (drop_proto (ms ! k)) = Some r \<and>
      decode_envelope R (map (encode_envelope W) rs ! k) = Some (Inr r))" if "k < length rs" for k
  proof -
    have a: "Some (rs ! k) = answers services log ! k" "k < length (answers services log)"
      unfolding rs(1) [symmetric] using that by (simp_all add: nth_append)
    then have k: "k < length (requests log)" by (simp add: answers_def)
    with a(1) have d: "dispatch services (fst (requests log ! k)) (snd (requests log ! k)) = Some (rs ! k)"
      by (simp add: answers_def split_def)
    have "Some (rs ! k) \<in> set (answers services log)" using a by simp
    from fit [OF this] have "decode_envelope R (encode_envelope W (rs ! k)) = Some (Inr (rs ! k))"
      using protobuf_runtime.decode_encode_envelope [OF rt] reply_plain [OF d] by (simp add: envelope_fits_def)
    with d nth [OF k] k len that show ?thesis by (intro conjI exI) auto
  qed
  show ?thesis
    by (intro exI [of _ "map (encode_envelope W) rs"] exI [of _ more] conjI)
      (use rs each in \<open>simp_all add: unix_view_def\<close>)
qed

text \<open>Both streams together: requests sent, in order, and what the client decodes, in order.\<close>

lemma exchange:
  assumes rt: "protobuf_runtime W R E sections" and fits: "list_all (envelope_fits W E) ms"
    and replies: "\<forall>m \<in> set ms. \<forall>x r. dispatch services x (drop_proto m) = Some r \<longrightarrow> envelope_fits W E r"
    and sent: "concat (map event_data es) @ later = concat (map (reply_frame W) ms)"
    and returned: "concat (map arrived res) @ later' = written (snd (ss_conn (fst (unix_session W R services x es))))"
    and k: "k < length (got_frames (snd (unix_reader res)))"
  shows "k < length ms \<and> (\<exists>x r. dispatch services x (drop_proto (ms ! k)) = Some r \<and>
    decode_envelope R (got_frames (snd (unix_reader res)) ! k) = Some (Inr r))"
proof -
  obtain l log where run: "unix_session W R services x es = (l, log)" by fastforce
  from server_frames [OF rt fits replies sent run] obtain hs more where
    hs: "list_all frame_ok hs" "written (snd (ss_conn l)) @ more = concat (map encode_frame hs)"
      "\<forall>k < length hs. k < length ms \<and> (\<exists>x r. dispatch services x (drop_proto (ms ! k)) = Some r \<and>
         decode_envelope R (hs ! k) = Some (Inr r))" by blast
  have "concat (map arrived res) @ (later' @ more) = concat (map encode_frame hs)"
    using hs(2) returned run by (simp flip: append_assoc)
  from unix.frames_prefix [OF new_connection_view this hs(1), of "fst (unix_reader res)" "snd (unix_reader res)"]
  obtain gs where gs: "hs = got_frames (snd (unix_reader res)) @ gs" by (auto simp: unix_reader_def)
  with k have "k < length hs" "hs ! k = got_frames (snd (unix_reader res)) ! k" by (simp_all add: nth_append)
  with hs(3) show ?thesis by metis
qed

text \<open>A request that is served: what the server writes.\<close>

lemma served_bytes:
  assumes rt: "protobuf_runtime W R E sections" and "servable W E services (x, m)"
  shows "\<exists>r. dispatch services x (drop_proto m) = Some r \<and>
    written (snd (ss_conn (fst (unix_session W R services x (serve_events W services [(x, m)]))))) = reply_frame W r"
proof -
  from unix.loop_head_ready [OF new_connection_view, of R services x] obtain s0 where
    s0: "loop_head R unix_iconnection services x (new_connection, []) = (s0, [])" "unix.ready [] s0" by blast
  from unix.serve_one [OF rt s0(2) assms(2)] obtain s' r where
    s': "run_steps (session_step W R unix_iconnection unix_events services) (serve_events W services [(x, m)]) s0
        = (s', [Request x (drop_proto m), Reply r])"
      "dispatch services x (drop_proto m) = Some r" "unix.ready ([] @ reply_frame W r) s'" by blast
  then have "fst (unix_session W R services x (serve_events W services [(x, m)])) = s'"
    using s0(1) by (simp add: unix_session_def session_run_def)
  with s'(2,3) show ?thesis by (auto simp: unix.ready_def unix_view_def)
qed

text \<open>A frame that has arrived whole and is followed by nothing is received by a reader that waits again.\<close>

lemma frame_received:
  assumes "frame_ok f" "concat (map arrived res) = encode_frame f" "rd_point (fst (unix_reader res)) \<noteq> None"
  shows "got_frames (snd (unix_reader res)) = [f]"
  using unix.frames_complete [OF new_connection_view, of res "[f]" "fst (unix_reader res)" "snd (unix_reader res)"] assms
  by (simp add: unix_reader_def)

text \<open>
  One exchange: the client writes the frame of \<open>q\<close>; a server that gets it writes the frame of
  \<open>reply\<close>; and a reader that waits again after it has got those bytes, in any chunks, has
  received exactly \<open>reply\<close>.
\<close>

definition exchanged ::
    "'w writer_ops \<Rightarrow> reader_ops \<Rightarrow> 'x services \<Rightarrow> 'x \<Rightarrow> envelope \<Rightarrow> envelope \<Rightarrow> bool" where
  "exchanged W R services x q reply \<longleftrightarrow>
     (\<exists>conn. unix_send [None, None] (encode_envelope W q) (new_connection, []) = (conn, SDone) \<and>
        written (snd conn) = reply_frame W q) \<and>
     written (snd (ss_conn (fst (unix_session W R services x (serve_events W services [(x, q)]))))) = reply_frame W reply \<and>
     (\<forall>res. concat (map arrived res) = reply_frame W reply \<and> rd_point (fst (unix_reader res)) \<noteq> None \<longrightarrow>
        map (decode_envelope R) (got_frames (snd (unix_reader res))) = [Some (Inr reply)])"

lemma call_exchanged:
  assumes "protobuf_runtime W R E sections" "long_numbers L" "n \<le> 2 ^ 53"
    and "servable W E services (x, request_envelope L n a)"
    and "\<forall>r. dispatch services x (drop_proto (request_envelope L n a)) = Some r \<longrightarrow> envelope_fits W E r"
    and "call_outcome services x (serviceName a) (methodName a) (payload a) = Some outcome"
    and "result_of a outcome = Some result"
  shows "\<exists>reply. exchanged W R services x (request_envelope L n a) reply \<and> call_result L n a reply = Some result"
proof -
  let ?q = "request_envelope L n a"
  from served_bytes [OF assms(1,4)] obtain r where r: "dispatch services x (drop_proto ?q) = Some r"
    "written (snd (ss_conn (fst (unix_session W R services x (serve_events W services [(x, ?q)]))))) = reply_frame W r"
    by blast
  have fits: "envelope_fits W E r" using assms(5) r(1) by blast
  then have dec: "decode_envelope R (encode_envelope W r) = Some (Inr r)"
    using protobuf_runtime.decode_encode_envelope [OF assms(1)] reply_plain [OF r(1)] by (simp add: envelope_fits_def)
  from result_of_reply [OF assms(2,3) r(1)] assms(6,7) have "call_result L n a r = Some result" by simp
  have ok: "frame_ok (encode_envelope W ?q)" using assms(4) by (simp add: servable_def envelope_fits_def)
  from unix.send_succeeds [OF new_connection_view(1) _ ok] obtain conn where
    conn: "unix_send [None, None] (encode_envelope W ?q) (new_connection, []) = (conn, SDone)"
    by (auto simp: new_connection_view(2) unix_send_def)
  from unix.send_done [OF new_connection_view(1) this [unfolded unix_send_def]]
  have "written (snd conn) = reply_frame W ?q"
    by (simp add: unix_view_def reply_frame_def)
  moreover have "map (decode_envelope R) (got_frames (snd (unix_reader res))) = [Some (Inr r)]"
    if "concat (map arrived res) = reply_frame W r" "rd_point (fst (unix_reader res)) \<noteq> None" for res
    using frame_received [of "encode_envelope W r" res] that fits dec
    by (simp add: reply_frame_def envelope_fits_def)
  ultimately show ?thesis using conn r(2) \<open>call_result L n a r = Some result\<close> by (auto simp: exchanged_def)
qed

subsection \<open>A sample\<close>

definition sample_wire_request :: envelope where
  "sample_wire_request = Envelope_create (no_envelope_properties\<lparr>e_type := Some REQUEST,
     e_requestId := Some 1, e_serviceName := Some ''S'', e_methodName := Some ''m'',
     e_payload := Some [1], e_metadata := Some []\<rparr>)"

lemma sample_wire_request_sent: "request_envelope exact_long (Suc 0) sample_args = sample_wire_request"
  by (simp add: request_envelope_def sample_wire_request_def exact_long_def sample_args_def)

definition sample_wire_reply :: envelope where
  "sample_wire_reply = Envelope_create (no_envelope_properties\<lparr>e_type := Some RESPONSE,
     e_status := Some OK, e_requestId := Some 1, e_payload := Some [1]\<rparr>)"

lemma sample_wire_bytes:
  "encode_envelope wire_writer sample_wire_request = [8, 0, 16, 1, 26, 1, 83, 34, 1, 109, 42, 1, 1]"
  "encode_envelope wire_writer sample_wire_reply = [8, 1, 16, 1, 42, 1, 1, 48, 0]"
  by code_simp+

lemma sample_wire_plain: "drop_proto sample_wire_request = sample_wire_request"
  by (simp add: drop_proto_def sample_wire_request_def envelope_new_defs get_metadata_def)

lemma sample_wire_fits:
  "envelope_fits wire_writer wire_encodings sample_wire_request"
  "envelope_fits wire_writer wire_encodings sample_wire_reply"
  unfolding envelope_fits_def sample_wire_bytes
  by (simp_all add: Envelope_valid_def sample_wire_request_def sample_wire_reply_def
    envelope_new_defs short_def get_payload_def get_metadata_def frame_ok_def MAX_FRAME_SIZE_value)

lemma sample_wire_dispatch: "dispatch sample_services x sample_wire_request = Some sample_wire_reply"
  by (simp add: dispatch_def sample_services_def sample_wire_request_def sample_wire_reply_def
    envelope_gets envelope_new_defs)

lemma sample_wire_servable:
  "servable wire_writer wire_encodings sample_services ((), sample_wire_request)"
  using sample_wire_fits
  by (simp add: servable_def sample_wire_plain sample_wire_dispatch envelope_fits_def)

definition sample_reader :: "reader_event list" where
  "sample_reader = [RecvFrame, Arrive [0, 0, 0, 9, 8], Arrive [1, 16, 1, 42, 1, 1, 48, 0]]"

lemma sample_reader_gets:
  "got_frames (snd (unix_reader sample_reader)) = [encode_envelope wire_writer sample_wire_reply]"
  unfolding sample_wire_bytes sample_reader_def
  by (simp add: unix_reader_def recvFrame_def provider_defs recv_def new_connection_def splice_def
    on_data_def drain_single reader_settle_def reader_note_def recvFrame_resume_def
    recv_header_def recv_payload_def readUInt32BE_def MAX_FRAME_SIZE_value Let_def)

subsection \<open>Properties\<close>

text \<open>
  C16. Dispatch and the client together implement the abstract call. The reply to a request is fixed in
  every property by the outcome that the registry determines for its service, method and payload: the
  request's id always; a response with status OK and the handler's bytes; or an error with status and
  text, NOT_FOUND for an unknown service or method, INTERNAL for a handler that throws, with the text
  of what it threw, or a text of the server's own if that is empty. There is no reply only where the
  handler never settles. And what the client makes of the reply to its own request is that outcome.
\<close>

theorem dispatch_refines_call:
  assumes "long_numbers L" "n \<le> 2 ^ 53"
  shows "dispatch services x q = map_option (\<lambda>outcome. case outcome of
        Served p \<Rightarrow> \<lparr>e_type = Some 1, e_requestId = Some (get_requestId q), e_serviceName = None, e_methodName = None,
          e_payload = Some p, e_status = Some 0, e_errorMessage = None, e_metadata = Some []\<rparr>
      | Failed status text \<Rightarrow> \<lparr>e_type = Some 3, e_requestId = Some (get_requestId q), e_serviceName = None,
          e_methodName = None, e_payload = None, e_status = Some status, e_errorMessage = Some text, e_metadata = Some []\<rparr>)
      (call_outcome services x (get_serviceName q) (get_methodName q) (get_payload q)) \<and>
    map_option (call_result L n a) (dispatch services x (drop_proto (request_envelope L n a)))
      = map_option (result_of a) (call_outcome services x (serviceName a) (methodName a) (payload a))"
proof (rule conjI)
  show "dispatch services x q = map_option (\<lambda>outcome. case outcome of
        Served p \<Rightarrow> \<lparr>e_type = Some 1, e_requestId = Some (get_requestId q), e_serviceName = None, e_methodName = None,
          e_payload = Some p, e_status = Some 0, e_errorMessage = None, e_metadata = Some []\<rparr>
      | Failed status text \<Rightarrow> \<lparr>e_type = Some 3, e_requestId = Some (get_requestId q), e_serviceName = None,
          e_methodName = None, e_payload = None, e_status = Some status, e_errorMessage = Some text, e_metadata = Some []\<rparr>)
      (call_outcome services x (get_serviceName q) (get_methodName q) (get_payload q))"
    unfolding dispatch_outcome [of services x q]
    by (rule option.map_cong [OF refl])
      (auto simp: reply_envelope_def okEnvelope_def errorEnvelope_def envelope_new_defs split: rpc_outcome.split)
  let ?q = "drop_proto (request_envelope L n a)"
  have none: "dispatch services x ?q = None \<longleftrightarrow> call_outcome services x (serviceName a) (methodName a) (payload a) = None"
    by (simp add: dispatch_outcome [of services x ?q] request_fields)
  show "map_option (call_result L n a) (dispatch services x ?q)
      = map_option (result_of a) (call_outcome services x (serviceName a) (methodName a) (payload a))"
  proof (cases "dispatch services x ?q")
    case (Some r)
    from result_of_reply [OF assms Some] Some show ?thesis by auto
  qed (use none in simp)
qed

theorem dispatch_refines_call_witness:
  "call_outcome sample_services () ''S'' ''m'' [1] = Some (Served [1]) \<and> result_of sample_args (Served [1]) = Some (Inr [1]) \<and>
   map_option (call_result exact_long 1 sample_args) (dispatch sample_services () sample_wire_request) = Some (Some (Inr [1]))"
proof -
  have outcome: "call_outcome sample_services () ''S'' ''m'' [1] = Some (Served [1])" "result_of sample_args (Served [1]) = Some (Inr [1])"
    by (simp_all add: call_outcome_def find_handler_def sample_services_def sample_args_def result_of_def)
  moreover have "serviceName sample_args = ''S''" "methodName sample_args = ''m''" "payload sample_args = [1]"
    by (simp_all add: sample_args_def)
  moreover have "(1 :: nat) \<le> 2 ^ 53" by simp
  ultimately show ?thesis
    using dispatch_refines_call [OF exact.long_numbers_axioms, of 1 sample_services "()" sample_wire_request sample_args, THEN conjunct2]
    by (simp add: sample_wire_request_sent sample_wire_plain)
qed

end
