(* ===== verification/Whole_System.thy ===== *)
theory Whole_System
  imports Link_Frames Live_Server Rpc_Exchange
begin

section \<open>A client and a server, whole\<close>

text \<open>
  The client of \<open>Live_Client\<close> and the server of \<open>Live_Server\<close>, with any number of connections between
  them, over any time: each side goes through a run of its own, and all that is assumed of the
  sockets is that what arrives at one end of a connection begins what was written at the other.
\<close>

subsection \<open>What reaches a connection of the server\<close>

fun conn_data ::
    "'w writer_ops \<Rightarrow> reader_ops \<Rightarrow> 'x services \<Rightarrow> nat \<Rightarrow> 'x live_event list \<Rightarrow> live_server \<Rightarrow> bytes" where
  "conn_data W R services c [] s = []"
| "conn_data W R services c (e # es) s =
     (case e of Conn d x ev \<Rightarrow> if d = c \<and> c < length (lv_sessions s) then event_data (x, ev) else [] | Life x ev \<Rightarrow> [])
       @ conn_data W R services c es (fst (live_step W R services e s))"

lemma sessions_grow: "length (lv_sessions s) \<le> length (lv_sessions (fst (live_step W R services e s)))"
proof (rule ccontr)
  assume "\<not> ?thesis"
  then have "length (lv_sessions (fst (live_step W R services e s))) < length (lv_sessions s)" by simp
  from live_step_session [where I = "\<lambda>_. True", OF _ this, of W R services e] show False by simp
qed

lemma sessions_grow_run: "length (lv_sessions s) \<le> length (lv_sessions (fst (run_steps (live_step W R services) es s)))"
proof (induction es arbitrary: s)
  case (Cons e es)
  from sessions_grow [of s W R services e] Cons.IH [of "fst (live_step W R services e s)"]
  show ?case by (simp add: Let_def split_def)
qed simp

lemma conn_data_append:
  "conn_data W R services c (es @ es') s
    = conn_data W R services c es s @ conn_data W R services c es' (fst (run_steps (live_step W R services) es s))"
  by (induction es arbitrary: s) (simp_all add: Let_def split_def)

lemma conn_data_before:
  "length (lv_sessions (fst (run_steps (live_step W R services) es s))) \<le> c \<Longrightarrow> conn_data W R services c es s = []"
proof (induction es arbitrary: s)
  case (Cons e es)
  let ?s1 = "fst (live_step W R services e s)"
  have "length (lv_sessions (fst (run_steps (live_step W R services) es ?s1))) \<le> c"
    using Cons.prems by (simp add: Let_def split_def)
  moreover from this have "length (lv_sessions s) \<le> c"
    using sessions_grow [of s W R services e] sessions_grow_run [of ?s1 W R services es] by simp
  ultimately show ?case using Cons.IH [of ?s1] by (cases e) simp_all
qed simp

lemma conn_data_after:
  "c < length (lv_sessions s) \<Longrightarrow> conn_data W R services c es s = concat (map event_data (own_events c es))"
proof (induction es arbitrary: s)
  case (Cons e es)
  from Cons.prems sessions_grow [of s W R services e] have "c < length (lv_sessions (fst (live_step W R services e s)))" by simp
  from Cons.IH [OF this] Cons.prems own_events_simps(2) [of c "[e]" es] show ?case
    by (cases e) (auto simp: event_data_def)
qed simp

lemma not_stopped_data: "concat (map event_data (not_stopped es)) = concat (map event_data es)"
  by (induction es) (auto simp: not_stopped_def event_data_def)

lemma conn_session:
  assumes "live_run W R services es = (s, os)" "c < length (lv_sessions s)"
  obtains x ec where "unix_session W R services x ec = (lv_sessions s ! c, notes_of c os)"
    "concat (map event_data ec) = conn_data W R services c es new_live"
proof -
  from live_ok_run [of W R services es] assms have "conn_live W R services es os s c" by (simp add: live_ok_def)
  then obtain x ec es1 e es2 where c: "es = es1 @ e # es2" "length (lv_sessions (fst (live_run W R services es1))) = c"
    "length (lv_sessions (fst (live_run W R services (es1 @ [e])))) = Suc c"
    "unix_session W R services x ec = (lv_sessions s ! c, notes_of c os)" "own_events c es2 = not_stopped ec"
    unfolding conn_live_def by blast
  let ?s1 = "fst (live_run W R services es1)"
  have "conn_data W R services c es1 new_live = []" by (rule conn_data_before) (simp add: c(2))
  moreover have "conn_data W R services c [e] ?s1 = []" by (cases e) (simp_all add: c(2))
  moreover have "conn_data W R services c es2 (fst (live_run W R services (es1 @ [e]))) = concat (map event_data ec)"
    using conn_data_after [of c "fst (live_run W R services (es1 @ [e]))" W R services es2] c(3,5)
    by (simp add: not_stopped_data)
  ultimately have "conn_data W R services c ((es1 @ [e]) @ es2) new_live = concat (map event_data ec)"
    by (simp only: conn_data_append append_Nil)
  then have "conn_data W R services c es new_live = concat (map event_data ec)" by (simp add: c(1))
  with c(4) show ?thesis by (intro that) simp_all
qed

subsection \<open>The requests of a client\<close>

lemma requests_on_sends:
  "m \<in> set (requests_on W g os) \<Longrightarrow> (\<exists>t. (t, m) \<in> set (sends os)) \<and> frame_ok (encode_envelope W m)"
proof (induction os)
  case (Cons e os)
  then show ?case by (cases e) (auto simp: requests_on_def sends_def split: if_splits)
qed (simp add: requests_on_def)

text \<open>The id of a request tells which call sent it.\<close>

lemma request_of_id:
  assumes "long_numbers L" "sent_ok L log m" "length log \<le> 2 ^ 53"
    and "(t, q) \<in> set log" "(t', q') \<in> set log" "get_requestId q = get_requestId q'"
  shows "t = t' \<and> q = q' \<and> Number L (get_requestId q) \<le> 2 ^ 53 \<and> get_requestId q = fromNumber L (Number L (get_requestId q))"
proof -
  from assms(4,5) obtain i j where ij: "i < length log" "log ! i = (t, q)" "j < length log" "log ! j = (t', q')"
    by (auto simp: in_set_conv_nth)
  have ids: "map (\<lambda>(t, q). get_requestId q) log = map (\<lambda>k. fromNumber L (id_of_send k)) [1..<Suc (length log)]"
    using assms(2) by (simp add: sent_ok_def)
  have le: "Suc k \<le> 2 ^ 53" if "k < length log" for k using that assms(3) by linarith
  have nth: "get_requestId (snd (log ! k)) = fromNumber L (Suc k)" if "k < length log" for k
  proof -
    have "id_of_send (Suc k) = Suc k" unfolding id_of_send_def by (rule min_absorb1 [OF le [OF that]])
    moreover have "map (\<lambda>k. fromNumber L (id_of_send k)) [1..<Suc (length log)] ! k = fromNumber L (id_of_send (Suc k))"
      using that by (simp del: upt_Suc)
    ultimately show ?thesis using arg_cong [where f = "\<lambda>xs. xs ! k", OF ids] that by (simp add: split_def del: upt_Suc)
  qed
  have num: "Number L (fromNumber L (Suc k)) = Suc k" if "k < length log" for k
    by (rule long_numbers.number_exact [OF assms(1) le [OF that]])
  have "fromNumber L (Suc i) = fromNumber L (Suc j)" using nth [OF ij(1)] nth [OF ij(3)] ij assms(6) by simp
  then have "i = j" using num [OF ij(1)] num [OF ij(3)] by (metis Suc_inject)
  moreover have "Number L (get_requestId q) = Suc i" "get_requestId q = fromNumber L (Suc i)"
    using nth [OF ij(1)] num [OF ij(1)] ij by simp_all
  ultimately show ?thesis using ij le [OF ij(1)] by simp
qed

subsection \<open>Calls over the whole system\<close>

text \<open>The results that a call has from a reply of its server, not from its own side.\<close>

definition from_server :: "call_error + 'r \<Rightarrow> bool" where
  "from_server r \<longleftrightarrow> (case r of Inr v \<Rightarrow> True
     | Inl e \<Rightarrow> (case e of RpcError status text \<Rightarrow> True | BadPayload text \<Rightarrow> True | _ \<Rightarrow> False))"

text \<open>
  A connection between two runs, the client's \<open>g\<close> and the server's \<open>c\<close>: each end has received
  the first of the bytes that were written at the other, in order.
\<close>

definition wired ::
    "'w writer_ops \<Rightarrow> reader_ops \<Rightarrow> 'x services \<Rightarrow> nat \<Rightarrow> 'r live_client \<Rightarrow> 'r live_client_effect list
       \<Rightarrow> nat \<Rightarrow> 'x live_event list \<Rightarrow> live_server \<Rightarrow> bool" where
  "wired W R services g s os c ses sv \<longleftrightarrow> c < length (lv_sessions sv) \<and>
     (\<exists>unsent. conn_data W R services c ses new_live @ unsent = written (snd (link_conn g s))) \<and>
     (\<exists>underway. link_data g os @ underway = written (snd (ss_conn (lv_sessions sv ! c))))"

text \<open>What reaches the client on one connection are the frames of the answers to its requests.\<close>

lemma wired_frames:
  assumes rt: "protobuf_runtime W R E sections"
    and client: "live_client_run L cfg W R es = (s, os)" "g < length (lc_links s)" "writes_succeed g es"
    and server: "live_run W R services ses = (sv, sos)"
    and wired: "wired W R services g s os c ses sv"
    and fits: "\<forall>(t, q) \<in> set (sends (did os)). Envelope_valid E q \<and>
      (\<forall>x r. dispatch services x (drop_proto q) = Some r \<longrightarrow> envelope_fits W E r)"
  shows "\<exists>hs. frames_of (link_data g os) hs \<and> (\<forall>k < length hs. \<exists>t q x r. (t, q) \<in> set (sends (did os)) \<and>
    dispatch services x (drop_proto q) = Some r \<and> decode_envelope R (hs ! k) = Some (Inr r))"
proof -
  let ?ms = "requests_on W g (did os)"
  have ms: "\<exists>t. (t, m) \<in> set (sends (did os)) \<and> frame_ok (encode_envelope W m)" if "m \<in> set ?ms" for m
    using requests_on_sends [OF that] by blast
  then have ok: "list_all (envelope_fits W E) ?ms"
    "\<forall>m \<in> set ?ms. \<forall>x r. dispatch services x (drop_proto m) = Some r \<longrightarrow> envelope_fits W E r"
    using fits by (fastforce simp: list_all_iff envelope_fits_def)+
  from wired obtain unsent underway where w: "c < length (lv_sessions sv)"
    "conn_data W R services c ses new_live @ unsent = written (snd (link_conn g s))"
    "link_data g os @ underway = written (snd (ss_conn (lv_sessions sv ! c)))"
    unfolding wired_def by blast
  from written_requests(1) [OF client] obtain rest where
    rest: "written (snd (link_conn g s)) @ rest = frames_bytes W ?ms" by blast
  from conn_session [OF server w(1)] obtain x ec where
    ec: "unix_session W R services x ec = (lv_sessions sv ! c, notes_of c sos)"
      "concat (map event_data ec) = conn_data W R services c ses new_live" .
  have "concat (map event_data ec) @ (unsent @ rest) = concat (map (reply_frame W) ?ms)"
    using rest by (simp add: ec(2) frames_bytes_def reply_frame_def [abs_def] flip: w(2))
  from server_frames [OF rt ok this ec(1)] obtain hs more where
    hs: "list_all frame_ok hs" "written (snd (ss_conn (lv_sessions sv ! c))) @ more = concat (map encode_frame hs)"
      "\<forall>k < length hs. k < length ?ms \<and> (\<exists>x r. dispatch services x (drop_proto (?ms ! k)) = Some r \<and>
         decode_envelope R (hs ! k) = Some (Inr r))" by blast
  have "link_data g os @ (underway @ more) = concat (map encode_frame hs)"
    using hs(2) by (simp flip: w(3))
  then have "frames_of (link_data g os) hs" using hs(1) unfolding frames_of_def by blast
  moreover have "\<exists>t q x r. (t, q) \<in> set (sends (did os)) \<and> dispatch services x (drop_proto q) = Some r \<and>
      decode_envelope R (hs ! k) = Some (Inr r)" if "k < length hs" for k
    using hs(3) that ms [of "?ms ! k"] nth_mem [of k ?ms] by metis
  ultimately show ?thesis by blast
qed

text \<open>So every envelope that a call received is the answer to some request of the client.\<close>

lemma envelope_answers:
  assumes rt: "protobuf_runtime W R E sections"
    and client: "live_client_run L cfg W R es = (s, os)" "no_timeouts es"
      "\<forall>g < length (lc_links s). writes_succeed g es"
    and server: "live_run W R services ses = (sv, sos)"
    and wired: "\<forall>g < length (lc_links s). wired W R services g s os (peer g) ses sv"
    and fits: "\<forall>(t, q) \<in> set (sends (did os)). Envelope_valid E q \<and>
      (\<forall>x r. dispatch services x (drop_proto q) = Some r \<longrightarrow> envelope_fits W E r)"
    and got: "Framed g t f \<in> set os" "decode_envelope R f = Some (Inr m)"
  shows "\<exists>t q x. (t, q) \<in> set (sends (did os)) \<and> dispatch services x (drop_proto q) = Some m"
proof -
  have frames: "\<exists>hs. frames_of (link_data g os) hs \<and> (\<forall>k < length hs. \<exists>t q x r. (t, q) \<in> set (sends (did os)) \<and>
    dispatch services x (drop_proto q) = Some r \<and> decode_envelope R (hs ! k) = Some (Inr r))"
    if "g < length (lc_links s)" for g
    using client(3) wired that by (intro wired_frames [OF rt client(1) that _ server _ fits, where c = "peer g"]) simp_all
  have f: "f \<in> set (frames_in g os)" using got(1) frames_in_set by blast
  have inv: "run_inv W es os s" using run_inv_run [of W es L cfg R] client(1) by simp
  have g: "g < length (lc_links s)"
  proof (rule ccontr)
    assume "\<not> g < length (lc_links s)"
    with inv have "frames_in g os = []" unfolding run_inv_def log_inv_def by (auto dest: live_invD(4) [where g = g])
    with f show False by simp
  qed
  from frames [OF g] obtain hs where
    hs: "frames_of (link_data g os) hs" "\<forall>k < length hs. \<exists>t q x r. (t, q) \<in> set (sends (did os)) \<and>
      dispatch services x (drop_proto q) = Some r \<and> decode_envelope R (hs ! k) = Some (Inr r)" by blast
  have "\<exists>rest. hs = frames_in g os @ rest"
    using frames by (intro received_frames [OF client(1,2) _ g hs(1)]) blast
  with f have "f \<in> set hs" by auto
  then obtain k where "k < length hs" "hs ! k = f" by (auto simp: in_set_conv_nth)
  with hs(2) got(2) show ?thesis by fastforce
qed

text \<open>What the client has gone through, from its connections' side.\<close>

lemma live_client_log:
  assumes "live_client_run L cfg W R es = (s, os)"
  obtains ces where "client_log_ok L ces (did os) (lc_client s)" "call_list ces = calls_made es"
    "\<forall>t m. RecvSettled t (Inr m) \<in> set ces \<longrightarrow> (\<exists>g f. Framed g t f \<in> set os \<and> decode_envelope R f = Some (Inr m))"
proof -
  from live_run_moves [of L cfg R es W] assms obtain ces where
    ces: "client_run L (over_codec cfg) ces = (lc_client s, did os)" "call_list ces = calls_made es"
      "\<forall>t m. RecvSettled t (Inr m) \<in> set ces \<longrightarrow> (\<exists>g f. Framed g t f \<in> set os \<and> decode_envelope R f = Some (Inr m))"
    by (auto simp: client_moves_def new_live_client_def)
  have "client_log_ok L ces (did os) (lc_client s)" using client_run_ok [of L ces "over_codec cfg"] ces(1) by simp
  then show ?thesis using ces(2,3) by (rule that)
qed

lemma sends_at_most_calls:
  assumes "client_log_ok L ces os c"
  shows "length (sends os) \<le> length (call_list ces)"
proof -
  from assms have "distinct (map fst (sends os))" "fst ` set (sends os) \<subseteq> {..<m_started (machine_of c)}"
    by (auto simp: client_log_ok_def sent_ok_def)
  then have "length (sends os) \<le> m_started (machine_of c)"
    using card_mono [of "{..<m_started (machine_of c)}" "fst ` set (sends os)"] distinct_card [of "map fst (sends os)"] by simp
  with assms show ?thesis by (simp add: client_log_ok_def args_ok_def)
qed

subsection \<open>A sample\<close>

text \<open>One call on one connection: what the server does.\<close>

lemma conn_events_run:
  assumes "c < length (lv_sessions s)" "\<forall>(x, ev) \<in> set evs. ev \<noteq> Stopped"
  shows "lv_sessions (fst (run_steps (live_step W R services) (map (\<lambda>(x, ev). Conn c x ev) evs) s)) ! c
      = fst (run_steps (unix_step W R services) evs (lv_sessions s ! c)) \<and>
    length (lv_sessions (fst (run_steps (live_step W R services) (map (\<lambda>(x, ev). Conn c x ev) evs) s))) = length (lv_sessions s)"
  using assms
proof (induction evs arbitrary: s)
  case (Cons e evs)
  obtain x ev where e: "e = (x, ev)" by fastforce
  let ?s1 = "fst (live_step W R services (Conn c x ev) s)"
  have s1: "lv_sessions ?s1 = (lv_sessions s)[c := fst (unix_step W R services (x, ev) (lv_sessions s ! c))]"
    using Cons.prems e by (simp add: Let_def split_def)
  with Cons.prems have "c < length (lv_sessions ?s1)" by simp
  from Cons.IH [OF this] Cons.prems s1 e show ?case by (simp add: Let_def split_def)
qed simp

definition sample_server_events :: "unit live_event list" where
  "sample_server_events = [Life () Start, Life () (Listening 0), Life () (Accept 0)]
     @ map (\<lambda>(x, ev). Conn 0 x ev) (serve_events wire_writer sample_services [((), sample_wire_request)])"

lemma sample_server_run:
  obtains sv os where "live_run wire_writer wire_reader sample_services sample_server_events = (sv, os)" "length (lv_sessions sv) = 1"
    "written (snd (ss_conn (lv_sessions sv ! 0))) = reply_frame wire_writer sample_wire_reply"
    "conn_data wire_writer wire_reader sample_services 0 sample_server_events new_live = reply_frame wire_writer sample_wire_request"
proof -
  let ?evs = "serve_events wire_writer sample_services [((), sample_wire_request)]"
  let ?start = "[Life () Start, Life () (Listening 0), Life () (Accept 0)] :: unit live_event list"
  let ?run = "live_run wire_writer wire_reader sample_services"
  obtain l where l: "loop_head wire_reader unix_iconnection sample_services () (fromSocket, []) = (l, [])"
    "unix_session wire_writer wire_reader sample_services () [] = (l, [])"
    by (rule fresh_loop)
  have start: "lv_sessions (fst (?run ?start)) = [l]"
    using l by (simp add: new_live_def carried_out_def server_defs new_server_def)
  have evs: "\<forall>(x, ev) \<in> set ?evs. ev \<noteq> Stopped"
    by (simp add: serve_events_def sample_wire_plain sample_wire_dispatch)
  obtain sv os where sv: "?run sample_server_events = (sv, os)" by fastforce
  then have "sv = fst (run_steps (live_step wire_writer wire_reader sample_services) (map (\<lambda>(x, ev). Conn 0 x ev) ?evs) (fst (?run ?start)))"
    unfolding sample_server_events_def run_steps_append by (simp add: Let_def split_def)
  with conn_events_run [of 0 "fst (?run ?start)" ?evs wire_writer wire_reader sample_services] start evs
  have s: "lv_sessions sv ! 0 = fst (run_steps (unix_step wire_writer wire_reader sample_services) ?evs l)" "length (lv_sessions sv) = 1"
    by simp_all
  have "loop_head wire_reader unix_iconnection sample_services () (new_connection, []) = (l, [])"
    using l(1) by (simp add: fromSocket_def)
  then have "lv_sessions sv ! 0 = fst (unix_session wire_writer wire_reader sample_services () ?evs)"
    using s(1) by (simp add: unix_session_def session_run_def Let_def split_def)
  moreover have "written (snd (ss_conn (fst (unix_session wire_writer wire_reader sample_services () ?evs))))
      = reply_frame wire_writer sample_wire_reply"
    using served_bytes [OF wire.protobuf_runtime_axioms sample_wire_servable]
    by (auto simp: sample_wire_plain sample_wire_dispatch)
  moreover have "conn_data wire_writer wire_reader sample_services 0 sample_server_events new_live
      = reply_frame wire_writer sample_wire_request"
  proof -
    have "conn_data wire_writer wire_reader sample_services 0 ?start new_live = []" by simp
    moreover have "conn_data wire_writer wire_reader sample_services 0 (map (\<lambda>(x, ev). Conn 0 x ev) ?evs) (fst (?run ?start))
        = reply_frame wire_writer sample_wire_request"
      using conn_data_after [of 0 "fst (?run ?start)" wire_writer wire_reader sample_services "map (\<lambda>(x, ev). Conn 0 x ev) ?evs"] start
      by (simp add: serve_events_def sample_wire_plain sample_wire_dispatch own_events_def event_data_def sample_wire_bytes)
    ultimately show ?thesis unfolding sample_server_events_def conn_data_append by simp
  qed
  ultimately show ?thesis using that sv s(2) by metis
qed

text \<open>What the client does.\<close>

definition sample_client_events :: "bytes live_client_event list" where
  "sample_client_events = [Own Connect, Own (ConnectDone None), Own (Call sample_args), Wrote 0 0 None, Wrote 0 0 None,
     Incoming 0 [0, 0, 0, 9, 8, 1, 16, 1, 42, 1, 1, 48, 0]]"

lemma sample_client_run:
  obtains s os where "live_client_run exact_long sample_config wire_writer wire_reader sample_client_events = (s, os)"
    "length (lc_links s) = 1" "written (snd (link_conn 0 s)) = reply_frame wire_writer sample_wire_request"
    "link_data 0 os = reply_frame wire_writer sample_wire_reply" "frames_in 0 os = [encode_envelope wire_writer sample_wire_reply]"
    "sends (did os) = [(0, sample_wire_request)]" "settles (did os) = [(0, Inr [1])]"
    "requests_on wire_writer 0 (did os) = [sample_wire_request]"
proof -
  have "drop_proto sample_wire_reply = sample_wire_reply"
    by (simp add: drop_proto_def sample_wire_reply_def envelope_new_defs get_metadata_def)
  with wire.decode_encode_envelope [of sample_wire_reply] sample_wire_fits(2)
  have dec: "decode_envelope wire_reader [8, 1, 16, 1, 42, 1, 1, 48, 0] = Some (Inr sample_wire_reply)"
    by (simp add: envelope_fits_def sample_wire_bytes)
  have res: "call_result exact_long (Suc 0) sample_args sample_wire_reply = Some (Inr [1])"
    by (simp add: call_result_def sample_wire_reply_def sample_args_def exact_long_def to_number_def envelope_gets envelope_new_defs)
  have "\<exists>s os. live_client_run exact_long sample_config wire_writer wire_reader sample_client_events = (s, os) \<and>
    length (lc_links s) = 1 \<and> written (snd (link_conn 0 s)) = reply_frame wire_writer sample_wire_request \<and>
    link_data 0 os = reply_frame wire_writer sample_wire_reply \<and> frames_in 0 os = [encode_envelope wire_writer sample_wire_reply] \<and>
    sends (did os) = [(0, sample_wire_request)] \<and> settles (did os) = [(0, Inr [1])] \<and>
    requests_on wire_writer 0 (did os) = [sample_wire_request]"
    by (simp add: requests_on_def frame_ok_def sample_client_events_def new_live_client_def new_client_def sample_config_def over_codec_def from_link_def
      live_client_defs client_defs set_phase_def end_call_def effective_timeout_def new_link_def new_connection_def on_link_def
      sample_wire_request_sent codec_send_def sendFrame_def codec_send_resume_def sendFrame_resume_def await_send_def
      provider_defs send_def recv_def splice_def recvFrame_def recvFrame_resume_def recv_header_def recv_payload_def
      readUInt32BE_def writeUInt32BE_def MAX_FRAME_SIZE_value on_data_def drain_single by_turn_def codec_received_def
      dec res sample_wire_bytes reply_frame_def encode_frame_def)
  then show ?thesis using that by blast
qed

subsection \<open>Properties\<close>

text \<open>
  C1. Calls over the whole system: take any run of a client and any run of a server, with any
  number of connections between them, reconnecting, starting and stopping as they like, and any
  timing of sockets, handlers and writes; on each connection what arrives begins what was
  written at the other end. As long as no call has timed out and no write failed on the client,
  whatever a call returns that is not a failure of the client's own side, a value or an error
  with a status, is what the server's registry determines for exactly this call.
\<close>

theorem system_calls_answered:
  assumes "protobuf_runtime W R E sections" "long_numbers L" "length (calls_made es) \<le> 2 ^ 53"
    and "live_client_run L cfg W R es = (s, os)" "no_timeouts es" "\<forall>g < length (lc_links s). writes_succeed g es"
    and "live_run W R services ses = (sv, sos)"
    and "\<forall>g < length (lc_links s). wired W R services g s os (peer g) ses sv"
    and "\<forall>(t, q) \<in> set (sends (did os)). Envelope_valid E q \<and>
      (\<forall>x r. dispatch services x (drop_proto q) = Some r \<longrightarrow> envelope_fits W E r)"
    and "(t, result) \<in> set (settles (did os))" "from_server result"
  shows "t < length (calls_made es) \<and> (\<exists>x outcome.
    call_outcome services x (serviceName (calls_made es ! t)) (methodName (calls_made es ! t)) (payload (calls_made es ! t))
      = Some outcome \<and>
    result_of (calls_made es ! t) outcome = Some result)"
proof -
  obtain ces where ces: "client_log_ok L ces (did os) (lc_client s)" "call_list ces = calls_made es"
    "\<forall>t m. RecvSettled t (Inr m) \<in> set ces \<longrightarrow> (\<exists>g f. Framed g t f \<in> set os \<and> decode_envelope R f = Some (Inr m))"
    by (rule live_client_log [OF assms(4)])
  let ?a = "calls_made es ! t"
  from ces(1) have log: "answer_ok L ces (sends (did os)) (settles (did os))" "sent_ok L (sends (did os)) (machine_of (lc_client s))"
    by (simp_all add: client_log_ok_def)
  have "\<And>e. result = Inl e \<Longrightarrow> \<not> local_failure e"
    using assms(11) by (auto simp: from_server_def local_failure_def split: call_error.splits)
  from answer_okD [OF log(1) assms(10) this] obtain i m where
    m: "t < length (calls_made es)" "(t, request_envelope L i ?a) \<in> set (sends (did os))"
      "RecvSettled t (Inr m) \<in> set ces" "call_result L i ?a m = Some result"
    unfolding ces(2) by blast
  from ces(3) m(3) obtain g f where "Framed g t f \<in> set os" "decode_envelope R f = Some (Inr m)" by blast
  from envelope_answers [OF assms(1,4-9) this] obtain t' q x where
    q: "(t', q) \<in> set (sends (did os))" "dispatch services x (drop_proto q) = Some m" by blast
  have few: "length (sends (did os)) \<le> 2 ^ 53" by (rule le_trans [OF sends_at_most_calls [OF ces(1), unfolded ces(2)] assms(3)])
  have "Number L (get_requestId m) = i"
    using m(4) assms(11) by (auto simp: call_result_def from_server_def split: if_splits)
  moreover have "get_requestId m = get_requestId q"
    using dispatch_Some [OF q(2)] by (simp add: get_requestId_def drop_proto_def)
  ultimately have i: "Number L (get_requestId q) = i" by simp
  with request_of_id [OF assms(2) log(2) few q(1) q(1)] have "i \<le> 2 ^ 53"
    "get_requestId q = get_requestId (request_envelope L i ?a)" by simp_all
  with request_of_id [OF assms(2) log(2) few q(1) m(2)] have "q = request_envelope L i ?a" by simp
  with q(2) have "dispatch services x (drop_proto (request_envelope L i ?a)) = Some m" by simp
  from result_of_reply [OF assms(2) \<open>i \<le> 2 ^ 53\<close> this] obtain outcome where
    "call_outcome services x (serviceName ?a) (methodName ?a) (payload ?a) = Some outcome" "call_result L i ?a m = result_of ?a outcome"
    by blast
  with m(1,4) show ?thesis by (intro conjI exI [of _ x] exI [of _ outcome]) simp_all
qed

theorem system_calls_answered_witness:
  "\<exists>x outcome. call_outcome sample_services x ''S'' ''m'' [1] = Some outcome \<and> result_of sample_args outcome = Some (Inr [1])"
proof -
  obtain s os where c: "live_client_run exact_long sample_config wire_writer wire_reader sample_client_events = (s, os)"
    "length (lc_links s) = 1" "written (snd (link_conn 0 s)) = reply_frame wire_writer sample_wire_request"
    "link_data 0 os = reply_frame wire_writer sample_wire_reply" "sends (did os) = [(0, sample_wire_request)]"
    "settles (did os) = [(0, Inr [1])]"
    by (rule sample_client_run)
  obtain sv sos where v: "live_run wire_writer wire_reader sample_services sample_server_events = (sv, sos)" "length (lv_sessions sv) = 1"
    "written (snd (ss_conn (lv_sessions sv ! 0))) = reply_frame wire_writer sample_wire_reply"
    "conn_data wire_writer wire_reader sample_services 0 sample_server_events new_live = reply_frame wire_writer sample_wire_request"
    by (rule sample_server_run)
  have calls: "calls_made sample_client_events = [sample_args]" by (simp add: calls_made_def sample_client_events_def)
  have quiet: "no_timeouts sample_client_events" "\<forall>g < length (lc_links s). writes_succeed g sample_client_events"
    by (simp_all add: no_timeouts_def writes_succeed_def sample_client_events_def)
  have wired: "\<forall>g < length (lc_links s). wired wire_writer wire_reader sample_services g s os (id g) sample_server_events sv"
    using c v by (simp add: wired_def)
  have fits: "\<forall>(t, q) \<in> set (sends (did os)). Envelope_valid wire_encodings q \<and>
      (\<forall>x r. dispatch sample_services x (drop_proto q) = Some r \<longrightarrow> envelope_fits wire_writer wire_encodings r)"
    using sample_wire_fits by (simp add: c(5) sample_wire_plain sample_wire_dispatch envelope_fits_def)
  have few: "length (calls_made sample_client_events) \<le> 2 ^ 53" by (simp add: calls)
  have "(0, Inr [1]) \<in> set (settles (did os))" "from_server (Inr [1] :: call_error + bytes)" by (simp_all add: c(6) from_server_def)
  from system_calls_answered [OF wire.protobuf_runtime_axioms exact.long_numbers_axioms few c(1) quiet v(1) wired fits this]
  show ?thesis by (simp add: calls sample_args_def)
qed

text \<open>
  C5. The client never interleaves what it writes: on a connection on which no write has failed, the
  bytes written are those of whole frames of the requests sent on it, in order, of which at most
  the last is cut short; and they are complete when the connection is up and no call is sending
  on it, whatever the calls, timeouts and reconnections.
\<close>

theorem client_writes_whole_frames:
  assumes "live_client_run L cfg W R es = (s, os)" "g < length (lc_links s)" "writes_succeed g es"
  shows "\<exists>rest. written (snd (link_conn g s)) @ rest = concat (map (reply_frame W) (requests_on W g (did os))) \<and>
    (connected (fst (link_conn g s)) \<and> lk_writers (lc_links s ! g) = [] \<longrightarrow> rest = [])"
proof -
  have "frames_bytes W ms = concat (map (reply_frame W) ms)" for ms by (simp add: frames_bytes_def reply_frame_def [abs_def])
  with written_requests [OF assms] show ?thesis by (metis append_Nil2)
qed

theorem client_writes_whole_frames_witness:
  "\<exists>s os rest. live_client_run exact_long sample_config wire_writer wire_reader sample_client_events = (s, os) \<and>
     requests_on wire_writer 0 (did os) = [sample_wire_request] \<and>
     written (snd (link_conn 0 s)) @ rest = reply_frame wire_writer sample_wire_request"
proof -
  obtain s os where c: "live_client_run exact_long sample_config wire_writer wire_reader sample_client_events = (s, os)"
    "length (lc_links s) = 1" "requests_on wire_writer 0 (did os) = [sample_wire_request]"
    by (rule sample_client_run)
  have "0 < length (lc_links s)" "writes_succeed 0 sample_client_events"
    using c(2) by (simp_all add: writes_succeed_def sample_client_events_def)
  from client_writes_whole_frames [OF c(1) this] c(1,3) show ?thesis by auto
qed

text \<open>
  C6. The client receives whole frames, in order: while no call has timed out and on each connection
  the bytes that arrived begin a sequence of well-formed frames, the frames its calls have
  received on a connection are the first of those sent on it, however the bytes were cut.
\<close>

theorem client_receives_in_order:
  assumes "live_client_run L cfg W R es = (s, os)" "no_timeouts es"
    and "\<forall>g < length (lc_links s). list_all frame_ok (sent g) \<and> (\<exists>later. link_data g os @ later = concat (map encode_frame (sent g)))"
    and "g < length (lc_links s)"
  shows "\<exists>rest. sent g = frames_in g os @ rest"
proof -
  have frames: "frames_of (link_data g os) (sent g)" if "g < length (lc_links s)" for g
    using assms(3) that by (simp add: frames_of_def)
  show ?thesis by (rule received_frames [OF assms(1,2) _ assms(4) frames [OF assms(4)]]) (use frames in blast)
qed

theorem client_receives_in_order_witness:
  "\<exists>s os rest. live_client_run exact_long sample_config wire_writer wire_reader sample_client_events = (s, os) \<and>
     [encode_envelope wire_writer sample_wire_reply] = frames_in 0 os @ rest \<and>
     frames_in 0 os = [encode_envelope wire_writer sample_wire_reply]"
proof -
  obtain s os where c: "live_client_run exact_long sample_config wire_writer wire_reader sample_client_events = (s, os)"
    "length (lc_links s) = 1" "link_data 0 os = reply_frame wire_writer sample_wire_reply"
    "frames_in 0 os = [encode_envelope wire_writer sample_wire_reply]"
    by (rule sample_client_run)
  have quiet: "no_timeouts sample_client_events" by (simp add: no_timeouts_def sample_client_events_def)
  have "\<forall>g < length (lc_links s). list_all frame_ok [encode_envelope wire_writer sample_wire_reply] \<and>
      (\<exists>later. link_data g os @ later = concat (map encode_frame [encode_envelope wire_writer sample_wire_reply]))"
    using sample_wire_fits(2) c(2,3) by (simp add: envelope_fits_def reply_frame_def)
  from client_receives_in_order [OF c(1) quiet this, of 0] c show ?thesis by simp
qed

end
