(* ===== verification/Link_Liveness.thy ===== *)
theory Link_Liveness
  imports Whole_System
begin

section \<open>No call of the client is lost\<close>

text \<open>
  The other direction of \<open>Link_Frames\<close>: there, at most one call is inside \<open>sendFrame\<close> or \<open>recvFrame\<close>;
  here, every call that waits for its request to be written or for its reply is the one that a
  connection will go on with, timeouts or not. A \<open>recv\<close> promise that waits on a connection is that
  of exactly one reader, and only on a connection that is up; so each thing that can happen to the
  connection settles it. Errors of the connection reach the call that waits for it.
\<close>

subsection \<open>Calls\<close>








subsection \<open>The invariant\<close>










subsection \<open>Receiving and sending\<close>









subsection \<open>Steps\<close>








abbreviation none_due :: "nat \<Rightarrow> nat list" where "none_due \<equiv> \<lambda>_. []"

lemma none_due_upd [simp]: "none_due(g := []) = none_due"
  by auto








subsection \<open>Runs\<close>




subsection \<open>Failures\<close>








subsection \<open>Properties\<close>






end
