(* ===== verification/Late_Reply.thy ===== *)
theory Late_Reply
  imports Whole_System
begin

section \<open>A reply after the timeout\<close>

text \<open>
  \<open>call\<close> gives up on a reply when its timer fires, but the \<open>recvFrame\<close> it started goes on waiting on the
  connection, which stays in use. What happens when the reply comes after all, while the next call
  waits for its own: a run of the whole client, from any state in which it is connected and idle.
\<close>

subsection \<open>The start of an envelope on the wire\<close>

lemma encoded_start:
  assumes "e_type m = Some ty" "e_requestId m = Some i"
  shows "4 \<le> length (encode_envelope wire_writer m) \<and> hd (encode_envelope wire_writer m) = 8"
proof -
  have v: "varint n \<noteq> []" for n by (subst varint.simps) simp
  have "encode_envelope wire_writer m = wire_bytes wire_encodings (Envelope_fields wire_encodings m)"
    using wire.sections_Envelope_encode [of m] by (simp add: encode_envelope_def wire.finish)
  then obtain rest where "encode_envelope wire_writer m
      = 8 # enc_int32 wire_encodings ty @ 16 # enc_uint64 wire_encodings i @ rest"
    by (simp add: Envelope_fields_def opt_field_def assms wire_encodings_def varint.simps [of 8] varint.simps [of 16])
  moreover have "enc_int32 wire_encodings ty \<noteq> []" "enc_uint64 wire_encodings i \<noteq> []"
    by (simp_all add: wire_encodings_def v)
  ultimately show ?thesis by (cases "enc_int32 wire_encodings ty"; cases "enc_uint64 wire_encodings i") auto
qed

text \<open>Read as the header of a frame, it asks for more than a frame may have.\<close>

lemma start_is_no_header:
  assumes "4 \<le> length bs" "hd bs = (8 :: byte)"
  shows "\<exists>h. readUInt32BE (take 4 bs) = Some h \<and> MAX_FRAME_SIZE < h"
proof -
  from assms(1) obtain b0 b1 b2 b3 rest where "bs = b0 # b1 # b2 # b3 # rest"
    by (auto simp: Suc_le_length_iff numeral_eq_Suc)
  with assms(2) show ?thesis by (simp add: readUInt32BE_def MAX_FRAME_SIZE_value)
qed

subsection \<open>A call up to its wait for the reply\<close>

definition client_idle :: "nat \<Rightarrow> 'r live_client \<Rightarrow> bool" where
  "client_idle g s \<longleftrightarrow> codec (lc_client s) = Some g \<and> calls (lc_client s) = [] \<and> \<not> callInFlight (lc_client s) \<and>
     g < length (lc_links s) \<and> connected (fst (link_conn g s)) \<and> buffer (fst (link_conn g s)) = [] \<and>
     lk_writers (lc_links s ! g) = []"

definition client_waits :: "nat \<Rightarrow> 'r call_args \<Rightarrow> nat \<Rightarrow> nat \<Rightarrow> 'r client \<Rightarrow> 'r client" where
  "client_waits t a i ms c = c\<lparr>called := Suc t, nextRequestId := increment i, callInFlight := True,
     calls := [(t, Receiving a i ms)]\<rparr>"

lemma live_steps_Cons:
  "live_client_step L cfg W R e s = (s1, os1) \<Longrightarrow> run_steps (live_client_step L cfg W R) es s1 = (s2, os2) \<Longrightarrow>
    run_steps (live_client_step L cfg W R) (e # es) s = (s2, os1 @ os2)"
  by simp

lemma live_steps_append:
  "run_steps (live_client_step L cfg W R) es s = (s1, os1) \<Longrightarrow> run_steps (live_client_step L cfg W R) es' s1 = (s2, os2) \<Longrightarrow>
    run_steps (live_client_step L cfg W R) (es @ es') s = (s2, os1 @ os2)"
  by (simp add: run_steps_append del: live_client_step.simps)

lemma over_codec_timeout [simp]: "effective_timeout (over_codec cfg) a = effective_timeout cfg a"
  by (simp add: effective_timeout_def over_codec_def cong: option.case_cong)

text \<open>The three steps: the header is written, then the envelope, then the reply is awaited.\<close>

lemma call_waits:
  fixes s :: "'r live_client" and g :: nat
  defines "c \<equiv> lc_client s" and "l \<equiv> lc_links s ! g"
  assumes idle: "client_idle g s" and t: "t = called c" and i: "i = nextRequestId c" and ms: "ms = effective_timeout cfg a"
    and m: "m = request_envelope L i a" "frame_ok (encode_envelope W m)" "encode_envelope W m \<noteq> []"
  shows "\<exists>os log. run_steps (live_client_step L cfg W R) [Own (Call a), Wrote g t None, Wrote g t None] s
      = (s\<lparr>lc_client := client_waits t a i ms c, lc_links := (lc_links s)[g := \<lparr>lk_conn = ((fst (lk_conn l))
          \<lparr>waiters := waiters (fst (lk_conn l)) @ [\<lparr>need = 4, token = t\<rparr>]\<rparr>, log),
        lk_readers = lk_readers l @ [(t, AwaitHeader)], lk_writers = []\<rparr>]\<rparr>, os) \<and> settles (did os) = [] \<and> frames_in g os = []"
proof -
  let ?data = "encode_envelope W m" and ?u = "fst (lk_conn l)"
  let ?c1 = "c\<lparr>called := Suc t, nextRequestId := increment i, callInFlight := True, calls := [(t, Sending a i ms)]\<rparr>"
  let ?st = "\<lambda>c u log rs ws. s\<lparr>lc_client := c, lc_links := (lc_links s)[g := \<lparr>lk_conn = (u, log), lk_readers = rs, lk_writers = ws\<rparr>]\<rparr>"
  note I = idle [unfolded client_idle_def, folded c_def l_def]
  have call: "client_step L (over_codec cfg) (Call a) c = (?c1, [SendEnvelope t g m])"
    using I by (simp add: call_def call_go_def Let_def set_phase_def t i m ms)
  have put: "on_link g f (?st c2 u log rs ws) = s\<lparr>lc_client := c2,
      lc_links := (lc_links s)[g := f \<lparr>lk_conn = (u, log), lk_readers = rs, lk_writers = ws\<rparr>]\<rparr>"
    "on_link g f (s\<lparr>lc_client := c2, lc_links := (lc_links s)[g := \<lparr>lk_conn = lk_conn l, lk_readers = rs, lk_writers = ws\<rparr>]\<rparr>)
      = s\<lparr>lc_client := c2, lc_links := (lc_links s)[g := f \<lparr>lk_conn = lk_conn l, lk_readers = rs, lk_writers = ws\<rparr>]\<rparr>"
    for f c2 u log rs ws
    using I by (simp_all add: on_link_def)
  have start: "s\<lparr>lc_client := c2\<rparr> = ?st c2 ?u (snd (lk_conn l)) (lk_readers l) []" for c2
  proof -
    have "lc_links s = (lc_links s)[g := \<lparr>lk_conn = (?u, snd (lk_conn l)), lk_readers = lk_readers l, lk_writers = []\<rparr>]"
      using I by (metis l_def link.surjective list_update_id old.unit.exhaust prod.collapse)
    then show ?thesis by simp
  qed
  have same: "connections ?c1 = connections c" by simp
  obtain log1 where log1: "live_client_step L cfg W R (Own (Call a)) s
      = (?st ?c1 ?u log1 (lk_readers l) [(t, SentHeader ?data)], [Did (SendEnvelope t g m)])"
  proof -
    have "carry_out L cfg W R (SendEnvelope t g m) (s\<lparr>lc_client := ?c1\<rparr>)
        = (?st ?c1 ?u (snd (lk_conn l) @ [SocketWrite t (writeUInt32BE (length ?data))]) (lk_readers l) [(t, SentHeader ?data)], [])"
      using I m(2)
      by (subst start) (simp add: carry_out_def put codec_send_def sendFrame_def frame_ok_def ic_send_token await_send_def)
    then have "advance L cfg W R (Call a) s
        = (?st ?c1 ?u (snd (lk_conn l) @ [SocketWrite t (writeUInt32BE (length ?data))]) (lk_readers l) [(t, SentHeader ?data)],
           [Did (SendEnvelope t g m)])"
      by (simp add: advance_def call c_def [symmetric] del: client_step.simps)
    then show ?thesis by (intro that) (simp add: from_link_def)
  qed
  obtain log2 where log2: "live_client_step L cfg W R (Wrote g t None) (?st ?c1 ?u log1 (lk_readers l) [(t, SentHeader ?data)])
      = (?st ?c1 ?u log2 (lk_readers l) [(t, SentBody)], [])"
    using I m(3) by (simp add: wrote_def put codec_send_resume_def sendFrame_resume_def ic_send_token await_send_def)
  have sent: "client_step L (over_codec cfg) (SendSettled t None) ?c1 = (client_waits t a i ms c, [RecvEnvelope t g, StartTimer t ms])"
    using I by (simp add: send_settled_def set_phase_def client_waits_def)
  obtain log3 where log3: "live_client_step L cfg W R (Wrote g t None) (?st ?c1 ?u log2 (lk_readers l) [(t, SentBody)])
      = (?st (client_waits t a i ms c) (?u\<lparr>waiters := waiters ?u @ [\<lparr>need = 4, token = t\<rparr>]\<rparr>) log3
          (lk_readers l @ [(t, AwaitHeader)]) [], [Did (RecvEnvelope t g), Did (StartTimer t ms)])"
  proof -
    let ?s2 = "?st (client_waits t a i ms c) ?u log2 (lk_readers l) []"
    have "carry_out L cfg W R (RecvEnvelope t g) ?s2 = (?st (client_waits t a i ms c)
        (?u\<lparr>waiters := waiters ?u @ [\<lparr>need = 4, token = t\<rparr>]\<rparr>) log2 (lk_readers l @ [(t, AwaitHeader)]) [], [])"
      using I by (simp add: carry_out_def received_def recvFrame_def provider_defs recv_def put codec_received_def)
    then have "advance L cfg W R (SendSettled t None) (?st ?c1 ?u log2 (lk_readers l) []) = (?st (client_waits t a i ms c)
        (?u\<lparr>waiters := waiters ?u @ [\<lparr>need = 4, token = t\<rparr>]\<rparr>) log2 (lk_readers l @ [(t, AwaitHeader)]) [],
        [Did (RecvEnvelope t g), Did (StartTimer t ms)])"
      by (simp add: advance_def sent client_waits_def carry_out_def [of _ _ _ _ "StartTimer t ms"] del: client_step.simps)
    then show ?thesis
      using I by (intro that [of log2]) (simp add: wrote_def put codec_send_resume_def sendFrame_resume_def)
  qed
  show ?thesis
    by (rule exI, rule exI [of _ log3], rule conjI, rule live_steps_Cons [OF log1], rule live_steps_Cons [OF log2],
      rule live_steps_Cons [OF log3], rule run_steps.simps) (simp add: settles_def)
qed

text \<open>The timer of that call.\<close>

lemma waiting_times_out:
  assumes "lc_client s = client_waits t a i ms c" "calls c = []"
  shows "live_client_step L cfg W R (Own (TimerFired t)) s
    = (s\<lparr>lc_client := c\<lparr>called := Suc t, nextRequestId := increment i, callInFlight := False\<rparr>\<rparr>,
       [Did (Settle t (Inl (TimeoutError ms)))])"
  using assms
  by (simp add: from_link_def advance_def client_waits_def leave_try_def end_call_def carry_out_def)

subsection \<open>The late reply\<close>

text \<open>Two calls wait for a header, one that has given up and the next one.\<close>

lemma late_reply_arrives:
  assumes s: "lc_client s = client_waits t' b i' ms' c" "g < length (lc_links s)"
      "lc_links s ! g = \<lparr>lk_conn = (u, log), lk_readers = [(t, AwaitHeader), (t', AwaitHeader)], lk_writers = []\<rparr>" "t \<noteq> t'"
    and u: "connected u" "buffer u = []" "waiters u = [\<lparr>need = 4, token = t\<rparr>, \<lparr>need = 4, token = t'\<rparr>]"
    and c: "calls c = []"
    and data: "readUInt32BE (take 4 data) = Some h" "MAX_FRAME_SIZE < h" "frame_ok data" "4 \<le> length data"
  shows "\<exists>s' os. live_client_step L cfg W R (Incoming g (encode_frame data)) s = (s', os) \<and>
    settles (did os) = [(t', Inl (SendOrRecv (frame_too_large ''Incoming frame too large: '' h)))] \<and>
    codec (lc_client s') = codec c \<and> connected (fst (link_conn g s')) \<and> frames_in g os = []"
proof -
  let ?n = "length data"
  let ?u1 = "u\<lparr>buffer := drop 4 data, waiters := []\<rparr>"
  have d: "on_data (encode_frame data) u = (?u1, [Resolve t (writeUInt32BE ?n), Resolve t' (take 4 data)])"
    using u data(4) by (simp add: on_data_def drainWaiters_step encode_frame_def)
  have header: "readUInt32BE (writeUInt32BE ?n) = Some ?n"
    using read_writeUInt32BE [of ?n "[]"] frame_size_lt [OF data(3)] by simp
  have more: "data \<noteq> []" "\<not> ?n \<le> ?n - 4" using data(4) by auto
  define s1 where "s1 = on_link g (\<lambda>l. l\<lparr>lk_conn := (?u1, snd (lk_conn l) @ [Resolve t (writeUInt32BE ?n), Resolve t' (take 4 data)])\<rparr>) s"
  define s2 where "s2 = on_link g (\<lambda>l. l\<lparr>lk_conn := (?u1\<lparr>waiters := [\<lparr>need = ?n, token = t\<rparr>]\<rparr>, snd (lk_conn l)),
    lk_readers := [(t', AwaitHeader), (t, AwaitPayload)]\<rparr>) s1"
  have s1: "g < length (lc_links s1)" "lc_client s1 = lc_client s" "lc_links s1 ! g = \<lparr>lk_conn = (?u1, log @
      [Resolve t (writeUInt32BE ?n), Resolve t' (take 4 data)]), lk_readers = [(t, AwaitHeader), (t', AwaitHeader)], lk_writers = []\<rparr>"
    using s by (simp_all add: s1_def)
  have s2: "g < length (lc_links s2)" "lc_client s2 = lc_client s" "lc_links s2 ! g = \<lparr>lk_conn = (?u1\<lparr>waiters := [\<lparr>need = ?n, token = t\<rparr>]\<rparr>,
      log @ [Resolve t (writeUInt32BE ?n), Resolve t' (take 4 data)]), lk_readers = [(t', AwaitHeader), (t, AwaitPayload)], lk_writers = []\<rparr>"
    using s1 by (simp_all add: s2_def)
  have first: "resume L cfg W R g (Resolve t (writeUInt32BE ?n)) s1 = (s2, [])"
    using s1 u(1) s(4) data(3) header more
    by (simp add: resume_def resume_reader_def recvFrame_resume_def recv_header_def recv_payload_def provider_defs recv_def
      received_def codec_received_def frame_ok_def s2_def on_link_def)
  obtain s3 where second: "resume L cfg W R g (Resolve t' (take 4 data)) s2
      = (s3, [Did (Settle t' (Inl (SendOrRecv (frame_too_large ''Incoming frame too large: '' h))))])"
      "codec (lc_client s3) = codec c" "connected (fst (link_conn g s3))"
    using s2 u(1) s(1,4) data(1,2) c
    by (simp add: resume_def resume_reader_def recvFrame_resume_def recv_header_def received_def codec_received_def
      client_alone_def client_waits_def recv_settled_def leave_try_def end_call_def on_link_def)
  have "socket_event L cfg W R g (on_data (encode_frame data)) s
      = (s3, [Did (Settle t' (Inl (SendOrRecv (frame_too_large ''Incoming frame too large: '' h))))])"
    using s(2,3) first second(1) by (simp add: socket_event_def d by_turn_def flip: s1_def)
  with s(2) second(2,3) show ?thesis by (simp add: settles_def)
qed

subsection \<open>Two calls, the first given up\<close>

text \<open>After the second call both wait for a header, in their order.\<close>

lemma next_call_waits:
  fixes s :: "'r live_client"
  assumes "client_idle g s" "waiters (fst (link_conn g s)) = []" "lk_readers (lc_links s ! g) = []"
    and t: "t = called (lc_client s)" "i = nextRequestId (lc_client s)"
    and fits: "frame_ok (encode_envelope wire_writer (request_envelope L i a))"
      "frame_ok (encode_envelope wire_writer (request_envelope L (increment i) b))"
  shows "\<exists>os s3 c log. run_steps (live_client_step L cfg wire_writer R)
      ([Own (Call a), Wrote g t None, Wrote g t None, Own (TimerFired t)] @ [Own (Call b), Wrote g (Suc t) None, Wrote g (Suc t) None]) s
        = (s3, os) \<and>
    settles (did os) = [(t, Inl (TimeoutError (effective_timeout cfg a)))] \<and> frames_in g os = [] \<and>
    lc_client s3 = client_waits (Suc t) b (increment i) (effective_timeout cfg b) c \<and> calls c = [] \<and> codec c = Some g \<and>
    g < length (lc_links s3) \<and> lc_links s3 ! g = \<lparr>lk_conn = ((fst (link_conn g s))
        \<lparr>waiters := [\<lparr>need = 4, token = t\<rparr>, \<lparr>need = 4, token = Suc t\<rparr>]\<rparr>, log),
      lk_readers = [(t, AwaitHeader), (Suc t, AwaitHeader)], lk_writers = []\<rparr>"
proof -
  let ?c = "lc_client s" and ?u = "fst (link_conn g s)" and ?run = "run_steps (live_client_step L cfg wire_writer R)"
  let ?ms = "effective_timeout cfg a" and ?ms' = "effective_timeout cfg b" and ?wait = "\<lambda>t. \<lparr>need = 4, token = t\<rparr>"
  have start: "encode_envelope wire_writer (request_envelope L n c') \<noteq> []" for n and c' :: "'r call_args"
    using encoded_start [of "request_envelope L n c'" REQUEST "fromNumber L n"]
    by (force simp: request_envelope_def envelope_new_defs)
  note I = assms(1) [unfolded client_idle_def]
  let ?l1 = "\<lambda>log. \<lparr>lk_conn = (?u\<lparr>waiters := [?wait t]\<rparr>, log), lk_readers = [(t, AwaitHeader)], lk_writers = []\<rparr>"
  obtain os1 log where one: "?run [Own (Call a), Wrote g t None, Wrote g t None] s
      = (s\<lparr>lc_client := client_waits t a i ?ms ?c, lc_links := (lc_links s)[g := ?l1 log]\<rparr>, os1)"
      "settles (did os1) = []" "frames_in g os1 = []"
    using call_waits [OF assms(1) t refl refl fits(1) start, where cfg = cfg and R = R] assms(2,3)
    by (auto simp del: run_steps.simps live_client_step.simps)
  define s2 where "s2 = s\<lparr>lc_client := client_waits t a i ?ms ?c, lc_links := (lc_links s)[g := ?l1 log]\<rparr>
    \<lparr>lc_client := ?c\<lparr>called := Suc t, nextRequestId := increment i, callInFlight := False\<rparr>\<rparr>"
  have two: "live_client_step L cfg wire_writer R (Own (TimerFired t))
      (s\<lparr>lc_client := client_waits t a i ?ms ?c, lc_links := (lc_links s)[g := ?l1 log]\<rparr>)
      = (s2, [Did (Settle t (Inl (TimeoutError ?ms)))])"
    unfolding s2_def by (rule waiting_times_out) (use I in simp_all)
  have s2: "client_idle g s2" "called (lc_client s2) = Suc t" "nextRequestId (lc_client s2) = increment i" "lc_links s2 ! g = ?l1 log"
    "calls (lc_client s2) = []" "codec (lc_client s2) = Some g" "g < length (lc_links s2)"
    using I by (simp_all add: client_idle_def s2_def)
  let ?l3 = "\<lambda>log. \<lparr>lk_conn = (?u\<lparr>waiters := [?wait t, ?wait (Suc t)]\<rparr>, log),
    lk_readers = [(t, AwaitHeader), (Suc t, AwaitHeader)], lk_writers = []\<rparr>"
  obtain os3 log' where three: "?run [Own (Call b), Wrote g (Suc t) None, Wrote g (Suc t) None] s2
      = (s2\<lparr>lc_client := client_waits (Suc t) b (increment i) ?ms' (lc_client s2), lc_links := (lc_links s2)[g := ?l3 log']\<rparr>, os3)"
      "settles (did os3) = []" "frames_in g os3 = []"
    using call_waits [OF s2(1) s2(2,3) [symmetric] refl refl fits(2) start, where cfg = cfg and R = R] s2(4)
    by (auto simp del: run_steps.simps live_client_step.simps)
  from live_steps_append [OF one(1) live_steps_Cons [OF two three(1)]] have "?run ([Own (Call a), Wrote g t None, Wrote g t None,
      Own (TimerFired t)] @ [Own (Call b), Wrote g (Suc t) None, Wrote g (Suc t) None]) s
    = (s2\<lparr>lc_client := client_waits (Suc t) b (increment i) ?ms' (lc_client s2), lc_links := (lc_links s2)[g := ?l3 log']\<rparr>,
       os1 @ [Did (Settle t (Inl (TimeoutError ?ms)))] @ os3)"
    by (simp only: append.simps)
  with one(2,3) three(2,3) s2(5-7) show ?thesis
    by (intro exI conjI) (assumption, simp_all)
qed

subsection \<open>Properties\<close>

text \<open>
  C38. A timed-out call poisons the connection. From any state in which the client is connected and
  idle: a call is sent and times out, the next call is sent, and then the server's reply to the
  first arrives, whole and well formed. The client takes its header for the call that gave up and the
  first bytes of its body for the header of the frame the second call waits for; that header is
  over the limit, so the second call fails although its own reply could still come. No frame is
  received, and the client goes on using the connection.
\<close>

theorem late_reply_desynchronises:
  fixes s :: "'r live_client"
  assumes "client_idle g s" "waiters (fst (link_conn g s)) = []" "lk_readers (lc_links s ! g) = []"
    and "t = called (lc_client s)" "q = request_envelope L (nextRequestId (lc_client s)) a"
    and "frame_ok (encode_envelope wire_writer q)"
      "frame_ok (encode_envelope wire_writer (request_envelope L (increment (nextRequestId (lc_client s))) b))"
    and "dispatch services x (drop_proto q) = Some r" "frame_ok (encode_envelope wire_writer r)"
  shows "\<exists>s' os h. run_steps (live_client_step L cfg wire_writer R)
      ([Own (Call a), Wrote g t None, Wrote g t None, Own (TimerFired t)]
        @ [Own (Call b), Wrote g (Suc t) None, Wrote g (Suc t) None, Incoming g (reply_frame wire_writer r)]) s = (s', os) \<and>
    settles (did os) = [(t, Inl (TimeoutError (effective_timeout cfg a))),
      (Suc t, Inl (SendOrRecv (frame_too_large ''Incoming frame too large: '' h)))] \<and> MAX_FRAME_SIZE < h \<and>
    frames_in g os = [] \<and> codec (lc_client s') = Some g \<and> connected (fst (link_conn g s'))"
proof -
  let ?data = "encode_envelope wire_writer r" and ?run = "run_steps (live_client_step L cfg wire_writer R)"
  let ?calls = "[Own (Call a), Wrote g t None, Wrote g t None, Own (TimerFired t)] @ [Own (Call b), Wrote g (Suc t) None, Wrote g (Suc t) None]"
  obtain os1 s1 c log where s1: "?run ?calls s = (s1, os1)" "settles (did os1) = [(t, Inl (TimeoutError (effective_timeout cfg a)))]"
    "frames_in g os1 = []" "lc_client s1 = client_waits (Suc t) b (increment (nextRequestId (lc_client s))) (effective_timeout cfg b) c"
    "calls c = []" "codec c = Some g" "g < length (lc_links s1)" "lc_links s1 ! g = \<lparr>lk_conn = ((fst (link_conn g s))
        \<lparr>waiters := [\<lparr>need = 4, token = t\<rparr>, \<lparr>need = 4, token = Suc t\<rparr>]\<rparr>, log),
      lk_readers = [(t, AwaitHeader), (Suc t, AwaitHeader)], lk_writers = []\<rparr>"
    using next_call_waits [OF assms(1-4) refl assms(6) [unfolded assms(5)] assms(7), where cfg = cfg and R = R] by blast
  obtain ty where "e_type r = Some ty" "e_requestId r = Some (get_requestId (drop_proto q))"
    using dispatch_Some [OF assms(8)] by auto
  from encoded_start [OF this] obtain h where h: "4 \<le> length ?data" "readUInt32BE (take 4 ?data) = Some h" "MAX_FRAME_SIZE < h"
    using start_is_no_header [of ?data] by auto
  obtain s2 os2 where s2: "live_client_step L cfg wire_writer R (Incoming g (encode_frame ?data)) s1 = (s2, os2)"
    "settles (did os2) = [(Suc t, Inl (SendOrRecv (frame_too_large ''Incoming frame too large: '' h)))]"
    "codec (lc_client s2) = codec c" "connected (fst (link_conn g s2))" "frames_in g os2 = []"
    using late_reply_arrives [OF s1(4,7,8) _ _ _ _ s1(5) h(2,3) assms(9) h(1), where cfg = cfg and W = wire_writer and R = R and L = L]
      assms(1) by (auto simp: client_idle_def simp del: live_client_step.simps)
  have "?run [Incoming g (reply_frame wire_writer r)] s1 = (s2, os2)" using s2(1) by (simp add: reply_frame_def)
  from live_steps_append [OF s1(1) this]
  have "?run ([Own (Call a), Wrote g t None, Wrote g t None, Own (TimerFired t)]
        @ [Own (Call b), Wrote g (Suc t) None, Wrote g (Suc t) None, Incoming g (reply_frame wire_writer r)]) s = (s2, os1 @ os2)"
    by (simp only: append.simps append_assoc)
  moreover have "settles (did (os1 @ os2)) = [(t, Inl (TimeoutError (effective_timeout cfg a))),
      (Suc t, Inl (SendOrRecv (frame_too_large ''Incoming frame too large: '' h)))]" "frames_in g (os1 @ os2) = []"
    using s1(2,3) s2(2,5) by simp_all
  ultimately show ?thesis using s1(6) s2(3,4) h(3) by auto
qed

theorem late_reply_desynchronises_witness:
  "\<exists>s' os h. run_steps (live_client_step exact_long sample_config wire_writer wire_reader)
      ([Own (Call sample_args), Wrote 0 0 None, Wrote 0 0 None, Own (TimerFired 0)]
        @ [Own (Call sample_args), Wrote 0 1 None, Wrote 0 1 None, Incoming 0 (reply_frame wire_writer sample_wire_reply)])
      (fst (live_client_run exact_long sample_config wire_writer wire_reader [Own Connect, Own (ConnectDone None)])) = (s', os) \<and>
    settles (did os) = [(0, Inl (TimeoutError 30000)), (1, Inl (SendOrRecv (frame_too_large ''Incoming frame too large: '' h)))]"
proof -
  define s :: "bytes live_client" where
    "s = fst (live_client_run exact_long sample_config wire_writer wire_reader [Own Connect, Own (ConnectDone None)])"
  have s: "s = \<lparr>lc_client = \<lparr>codec = Some 0, nextRequestId = 1, callInFlight = False, reconnecting = False, calls = [], called = 0,
      retries = [], connecting = 0, connections = 1\<rparr>, lc_links = [new_link]\<rparr>"
    by (simp add: s_def new_live_client_def new_client_def advance_def from_link_def client_defs carry_out_def)
  have idle: "client_idle 0 s" "waiters (fst (link_conn 0 s)) = []" "lk_readers (lc_links s ! 0) = []"
    by (simp_all add: s client_idle_def new_link_def new_connection_def)
  have call: "0 = called (lc_client s)" "sample_wire_request = request_envelope exact_long (nextRequestId (lc_client s)) sample_args"
    by (simp_all add: s sample_wire_request_sent)
  have fits: "frame_ok (encode_envelope wire_writer sample_wire_request)" "frame_ok (encode_envelope wire_writer sample_wire_reply)"
    using sample_wire_fits by (simp_all add: envelope_fits_def)
  have "envelope_fits wire_writer wire_encodings (request_envelope exact_long (Suc (Suc 0)) sample_args)"
    by (rule small_envelope_fits) (simp_all add: request_envelope_def envelope_new_defs envelope_gets sample_args_def)
  then have next_fits: "frame_ok (encode_envelope wire_writer (request_envelope exact_long (increment (nextRequestId (lc_client s))) sample_args))"
    by (simp add: s envelope_fits_def increment_def to_number_def)
  have "dispatch sample_services () (drop_proto sample_wire_request) = Some sample_wire_reply"
    by (simp add: sample_wire_plain sample_wire_dispatch)
  from late_reply_desynchronises [OF idle call fits(1) next_fits this fits(2), of sample_config wire_reader]
  show ?thesis
    unfolding s_def [symmetric]
    by (auto simp: effective_timeout_def sample_config_def sample_args_def DEFAULT_TIMEOUT_MS_value simp del: run_steps.simps live_client_step.simps)
qed

end
