(* ===== verification/Example_Server.thy ===== *)
theory Example_Server
  imports Dispatch Server_Lifecycle
begin

section \<open>The example server (\<open>sdk/js/examples/echo-server.ts\<close>)\<close>

text \<open>
  The echo server of the examples: the service it registers, and its \<open>main\<close> and \<open>shutdown\<close> over
  the life cycle of the server. \<open>main\<close> is a machine over the events of the server and the
  signals; an effect of the server that settles \<open>start()\<close> or \<open>stop()\<close> continues it. What
  its handler prints is part of the handler, not of this machine's output.
\<close>

subsection \<open>The service\<close>

text \<open>
  \<open>toUpperCase\<close> of a JavaScript string: on ASCII it maps letter by letter; elsewhere it follows
  the Unicode tables, the parameter \<open>U\<close>.
\<close>

definition is_ascii :: "char \<Rightarrow> bool" where
  "is_ascii c \<longleftrightarrow> (of_char c :: nat) < 128"

definition upper_char :: "char \<Rightarrow> char" where
  "upper_char c = (let n = of_char c :: nat in if 97 \<le> n \<and> n \<le> 122 then char_of (n - 32) else c)"

definition toUpperCase :: "(string \<Rightarrow> string) \<Rightarrow> string \<Rightarrow> string" where
  "toUpperCase U s = (if list_all is_ascii s then map upper_char s else U s)"

definition request_message :: "echo_request \<Rightarrow> string" where
  "request_message m = default [] (echoreq_message m)"

text \<open>
  The handler: what it prints, and its answer. \<open>clock x\<close> is \<open>Long.fromNumber(Date.now())\<close> at the
  time of the call.
\<close>

definition echo_handler ::
    "(string \<Rightarrow> string) \<Rightarrow> ('x \<Rightarrow> u64) \<Rightarrow> 'x \<Rightarrow> echo_request \<Rightarrow> process_output list \<times> (thrown + echo_response) option" where
  "echo_handler U clock x req = (let upper = toUpperCase U (request_message req) in
     ([Print (''  Echo  <- '' @ quote (request_message req)), Print (''  Echo  -> '' @ quote upper)],
      Some (Inr (EchoResponse_create \<lparr>echoresp_message = Some upper, echoresp_timestampMs = Some (clock x)\<rparr>))))"

text \<open>The part of it that the server sees.\<close>

definition echo_reply ::
    "(string \<Rightarrow> string) \<Rightarrow> ('x \<Rightarrow> u64) \<Rightarrow> 'x \<Rightarrow> echo_request \<Rightarrow> (thrown + echo_response) option" where
  "echo_reply U clock x req = snd (echo_handler U clock x req)"

definition echo_services ::
    "'w writer_ops \<Rightarrow> reader_ops \<Rightarrow> (string \<Rightarrow> string) \<Rightarrow> ('x \<Rightarrow> u64) \<Rightarrow> 'x services" where
  "echo_services W R U clock = register ''EchoService''
     [(''Echo'', typedMethod (EchoRequest_type W R) (EchoResponse_type W R) (echo_reply U clock))]
     (new_services W R clock None)"

subsection \<open>\<open>main\<close> and \<open>shutdown\<close>\<close>

datatype server_point =
    Starting   \<comment> \<open>\<open>await server.start()\<close>\<close>
  | Serving    \<comment> \<open>\<open>main\<close> has returned, the signal handlers are set\<close>
  | Gone

record echo_server =
  es_server :: server
  es_point :: server_point

datatype echo_event = Lifecycle server_event | Signal

datatype echo_effect = Does server_effect | Says process_output

definition echo_endpoint :: "string list \<Rightarrow> string" where
  "echo_endpoint argv = argument argv 2 ''/tmp/ibridger_echo.sock''"

definition main_started :: "string \<Rightarrow> process_output list" where
  "main_started endpoint =
     [Print (''JS echo server listening on '' @ endpoint),
      Print ''Services: EchoService/Echo, ibridger.Ping/Ping'',
      Print (''Press Ctrl-C to stop.'' @ [CHR 0x0A])]"

text \<open>How \<open>main\<close> and the calls of \<open>shutdown\<close> continue on an effect of the server.\<close>

definition echo_main :: "string \<Rightarrow> server_effect \<Rightarrow> server_point \<Rightarrow> server_point \<times> process_output list" where
  "echo_main endpoint e p = (case e of
     StartSettled None \<Rightarrow> (if p = Starting then (Serving, main_started endpoint) else (p, []))
   | StartSettled (Some message) \<Rightarrow>
       (if p = Starting then (Gone, [PrintError (''Fatal: '' @ message), Exit 1]) else (p, []))
   | StopSettled \<Rightarrow> (if p = Serving then (Gone, [Print ''Server stopped.'', Exit 0]) else (p, []))
   | Uncaught message \<Rightarrow> (if p = Gone then (p, []) else (Gone, [Crash message]))
   | _ \<Rightarrow> (p, []))"

definition echo_continue :: "string \<Rightarrow> server \<times> server_effect list \<Rightarrow> server_point \<Rightarrow> echo_server \<times> echo_effect list" where
  "echo_continue endpoint r p =
     (let (p', os) = run_steps (\<lambda>e p. let (p', says) = echo_main endpoint e p in (p', Does e # map Says says)) (snd r) p
      in (\<lparr>es_server = fst r, es_point = p'\<rparr>, os))"

definition shutdown :: "string \<Rightarrow> echo_server \<Rightarrow> echo_server \<times> echo_effect list" where
  "shutdown endpoint s =
     (let (s', os) = echo_continue endpoint (stop (es_server s)) (es_point s)
      in (s', Says (Print (CHR 0x0A # ''Stopping server...'')) # os))"

text \<open>The server's own methods are called by \<open>main\<close> and \<open>shutdown\<close> only.\<close>

fun echo_step :: "string \<Rightarrow> echo_event \<Rightarrow> echo_server \<Rightarrow> echo_server \<times> echo_effect list" where
  "echo_step endpoint (Lifecycle e) s =
     (if es_point s = Gone \<or> e = Start \<or> e = Stop then (s, [])
      else echo_continue endpoint (server_step e (es_server s)) (es_point s))"
| "echo_step endpoint Signal s = (case es_point s of
       Starting \<Rightarrow> (s\<lparr>es_point := Gone\<rparr>, [Says Killed])
     | Serving \<Rightarrow> shutdown endpoint s
     | Gone \<Rightarrow> (s, []))"

definition echo_start :: "string \<Rightarrow> echo_server \<times> echo_effect list" where
  "echo_start endpoint = echo_continue endpoint (start new_server) Starting"

definition echo_run :: "string \<Rightarrow> echo_event list \<Rightarrow> echo_server \<times> echo_effect list" where
  "echo_run endpoint es =
     (let (s0, os0) = echo_start endpoint; (s, os) = run_steps (echo_step endpoint) es s0 in (s, os0 @ os))"

lemmas echo_defs = echo_continue_def echo_main_def shutdown_def main_started_def Let_def

subsection \<open>One listener, stopped once\<close>

text \<open>The effects that no \<open>await\<close> of the program waits for leave it where it is.\<close>

definition quiet :: "server_effect \<Rightarrow> bool" where
  "quiet e \<longleftrightarrow> (case e of StartSettled r \<Rightarrow> False | StopSettled \<Rightarrow> False | Uncaught m \<Rightarrow> False | _ \<Rightarrow> True)"

lemma echo_quiet: "list_all quiet os \<Longrightarrow> echo_continue endpoint (s, os) p = (\<lparr>es_server = s, es_point = p\<rparr>, map Does os)"
proof -
  have "list_all quiet os \<Longrightarrow> run_steps (\<lambda>e p. let (p', says) = echo_main endpoint e p in (p', Does e # map Says says)) os p
      = (p, map Does os)"
    by (induction os) (auto simp: quiet_def echo_main_def split: server_effect.splits)
  then show "list_all quiet os \<Longrightarrow> ?thesis" by (simp add: echo_continue_def)
qed

lemma echo_settled:
  assumes "list_all quiet os"
  shows "echo_continue endpoint (s, os @ [e]) p = (let (p', says) = echo_main endpoint e p
    in (\<lparr>es_server = s, es_point = p'\<rparr>, map Does os @ Does e # map Says says))"
proof -
  let ?f = "\<lambda>e p. let (p', says) = echo_main endpoint e p in (p', Does e # map Says says)"
  have "run_steps ?f os p = (p, map Does os)"
    using echo_quiet [OF assms, of endpoint s p] by (simp add: echo_continue_def Let_def split: prod.splits)
  then show ?thesis by (simp add: echo_continue_def run_steps_append Let_def split: prod.splits)
qed

text \<open>
  The program starts its server once, so there is one listener; while it serves, either the
  server runs or its one \<open>stop\<close> waits for that listener.
\<close>

definition echo_ok :: "echo_server \<Rightarrow> bool" where
  "echo_ok s \<longleftrightarrow> es_point s = Gone \<or>
     (\<exists>l. listeners (es_server s) = [l] \<and> hasServer l \<and> socketServer (es_server s) = Some 0 \<and>
        (case es_point s of
           Starting \<Rightarrow> \<not> running (es_server s) \<and> starting (es_server s) = [0] \<and> stopping (es_server s) = []
         | Serving \<Rightarrow> starting (es_server s) = [] \<and> stopping (es_server s) = (if running (es_server s) then [] else [0])
         | Gone \<Rightarrow> True))"

lemma stop_effects:
  assumes "socketServer s = Some i" "hasServer (listeners s ! i)" "running s"
  shows "stop s = (s\<lparr>running := False, activeConnections := [],
      listeners := (listeners s)[i := (listeners s ! i)\<lparr>isListening := False\<rparr>], stopping := stopping s @ [i]\<rparr>,
    map CloseConn (activeConnections s) @ [CloseServer i])"
  using assms by (simp add: stop_def close_listener_def)

lemma echo_ok_step:
  assumes "echo_ok s"
  shows "echo_ok (fst (echo_step endpoint e s))"
proof (cases "es_point s = Gone")
  case False
  with assms obtain l where l: "listeners (es_server s) = [l]" "hasServer l" "socketServer (es_server s) = Some 0"
    by (auto simp: echo_ok_def)
  show ?thesis
  proof (cases e)
    case Signal
    show ?thesis
    proof (cases "es_point s = Serving \<and> running (es_server s)")
      case True
      with l have "stop (es_server s) = ((es_server s)\<lparr>running := False, activeConnections := [],
          listeners := [l\<lparr>isListening := False\<rparr>], stopping := stopping (es_server s) @ [0]\<rparr>,
        map CloseConn (activeConnections (es_server s)) @ [CloseServer 0])" (is "_ = (?s, ?os)")
        by (simp add: stop_effects)
      moreover have "list_all quiet ?os" by (simp add: quiet_def list_all_iff)
      ultimately have "fst (echo_step endpoint e s) = \<lparr>es_server = ?s, es_point = Serving\<rparr>"
        using True Signal echo_quiet [of ?os endpoint ?s Serving] by (simp add: shutdown_def del: list_all_append)
      with True assms l show ?thesis by (auto simp: echo_ok_def)
    qed (use False Signal in \<open>auto simp: echo_ok_def echo_defs stop_def split: server_point.splits\<close>)
  next
    case (Lifecycle ev)
    with assms l False show ?thesis
      by (cases ev) (auto simp: echo_ok_def echo_defs server_defs split: server_point.splits)
  qed
qed (cases e; auto simp: echo_ok_def)

lemma echo_ok_run: "echo_ok (fst (echo_run endpoint es))"
proof -
  have "echo_ok (fst (echo_start endpoint))"
    by (simp add: echo_start_def echo_defs server_defs new_server_def echo_ok_def)
  from run_steps_invariant [where I = echo_ok and f = "echo_step endpoint", OF echo_ok_step this, of es]
  show ?thesis by (simp add: echo_run_def Let_def split_def)
qed

text \<open>Loops that end while the program serves: their connections are closed, nothing else happens.\<close>

lemma loops_end:
  assumes "es_point s = Serving" "distinct cs" "set cs \<subseteq> set (loops (es_server s))"
  shows "\<exists>s'. run_steps (echo_step endpoint) (map (\<lambda>c. Lifecycle (LoopEnded c)) cs) s
      = (s', map (\<lambda>c. Does (CloseConn c)) cs) \<and>
    es_point s' = Serving \<and> (\<exists>active left. es_server s' = (es_server s)\<lparr>activeConnections := active, loops := left\<rparr>)"
  using assms
proof (induction cs arbitrary: s)
  case Nil
  have "es_server s = (es_server s)\<lparr>activeConnections := activeConnections (es_server s), loops := loops (es_server s)\<rparr>"
    by simp
  with Nil show ?case by (metis list.simps(8) run_steps.simps(1))
next
  case (Cons c cs)
  let ?s = "s\<lparr>es_server := fst (loop_ended c (es_server s))\<rparr>"
  have step: "echo_step endpoint (Lifecycle (LoopEnded c)) s = (?s, [Does (CloseConn c)])"
    using Cons.prems by (simp add: echo_defs loop_ended_def)
  have "set cs \<subseteq> set (loops (es_server ?s))"
    using Cons.prems by (auto simp: loop_ended_def) (metis in_set_remove1 subsetD)
  moreover have "es_point ?s = Serving" "distinct cs" using Cons.prems by simp_all
  ultimately obtain s' active left where "run_steps (echo_step endpoint) (map (\<lambda>c. Lifecycle (LoopEnded c)) cs) ?s
      = (s', map (\<lambda>c. Does (CloseConn c)) cs)" "es_point s' = Serving"
    "es_server s' = (es_server ?s)\<lparr>activeConnections := active, loops := left\<rparr>"
    using Cons.IH [of ?s] by blast
  with step show ?case by (auto simp: loop_ended_def)
qed

subsection \<open>Properties\<close>

text \<open>
  C24. Interrupting the echo server: at any time at which it serves and its server runs, a
  signal makes it close every active connection and stop listening; when its loops have ended
  and the listener has closed, it removes the socket file, says so and exits with status 0. A
  second signal in between makes it exit at once, before the listener has closed and whether or
  not the loops have ended; the \<open>unlinkSync\<close> of the close callback is not reached. (Node's own \<open>close\<close> of a
  listener on a path, outside this code, removes the path too.)
\<close>

theorem echo_server_interrupted:
  assumes "es_point (fst (echo_run endpoint es)) = Serving" "running (es_server (fst (echo_run endpoint es)))"
    and "distinct cs" "set cs \<subseteq> set (loops (es_server (fst (echo_run endpoint es))))"
  shows "\<exists>s1 s2 s3.
    run_steps (echo_step endpoint) (Signal # map (\<lambda>c. Lifecycle (LoopEnded c)) cs) (fst (echo_run endpoint es))
      = (s1, Says (Print (CHR 0x0A # ''Stopping server...'')) #
          map (\<lambda>c. Does (CloseConn c)) (activeConnections (es_server (fst (echo_run endpoint es)))) @
          Does (CloseServer 0) # map (\<lambda>c. Does (CloseConn c)) cs) \<and>
    echo_step endpoint (Lifecycle (ServerClosed 0)) s1
      = (s2, [Does Unlink, Does StopSettled, Says (Print ''Server stopped.''), Says (Exit 0)]) \<and>
    echo_step endpoint Signal s1
      = (s3, [Says (Print (CHR 0x0A # ''Stopping server...'')), Does StopSettled,
          Says (Print ''Server stopped.''), Says (Exit 0)]) \<and>
    es_point s2 = Gone \<and> es_point s3 = Gone"
proof -
  let ?s = "fst (echo_run endpoint es)"
  from echo_ok_run [of endpoint es] assms(1,2) obtain l where
    l: "listeners (es_server ?s) = [l]" "hasServer l" "socketServer (es_server ?s) = Some 0" "stopping (es_server ?s) = []"
    by (auto simp: echo_ok_def)
  let ?closes = "map CloseConn (activeConnections (es_server ?s)) @ [CloseServer 0]"
  obtain t where t: "stop (es_server ?s) = (t, ?closes)" "stopping t = [0]" "\<not> running t"
    "loops t = loops (es_server ?s)"
    using l assms(2) by (simp add: stop_effects)
  have "list_all quiet ?closes" by (simp add: quiet_def list_all_iff)
  from echo_quiet [OF this, of endpoint t Serving] t assms(1)
  have sig: "echo_step endpoint Signal ?s = (\<lparr>es_server = t, es_point = Serving\<rparr>,
      Says (Print (CHR 0x0A # ''Stopping server...'')) # map Does ?closes)"
    by (simp add: shutdown_def)
  have "set cs \<subseteq> set (loops (es_server \<lparr>es_server = t, es_point = Serving\<rparr>))"
    using assms(4) t(4) by simp
  from loops_end [OF _ assms(3) this, of endpoint] obtain s1 active left where
    s1: "run_steps (echo_step endpoint) (map (\<lambda>c. Lifecycle (LoopEnded c)) cs) \<lparr>es_server = t, es_point = Serving\<rparr>
      = (s1, map (\<lambda>c. Does (CloseConn c)) cs)" "es_point s1 = Serving"
      "es_server s1 = t\<lparr>activeConnections := active, loops := left\<rparr>"
    by auto
  from s1(2,3) t(2,3) have
    "\<exists>s2. echo_step endpoint (Lifecycle (ServerClosed 0)) s1
      = (s2, [Does Unlink, Does StopSettled, Says (Print ''Server stopped.''), Says (Exit 0)]) \<and> es_point s2 = Gone"
    "\<exists>s3. echo_step endpoint Signal s1
      = (s3, [Says (Print (CHR 0x0A # ''Stopping server...'')), Does StopSettled,
          Says (Print ''Server stopped.''), Says (Exit 0)]) \<and> es_point s3 = Gone"
    by (simp_all add: echo_defs server_defs)
  with sig s1(1) show ?thesis by (fastforce simp: comp_def)
qed

theorem echo_server_interrupted_witness:
  "\<exists>s1 s2. run_steps (echo_step ''/s'') [Signal, Lifecycle (LoopEnded 0)]
      (fst (echo_run ''/s'' [Lifecycle (Listening 0), Lifecycle (Accept 0)]))
    = (s1, [Says (Print (CHR 0x0A # ''Stopping server...'')), Does (CloseConn 0), Does (CloseServer 0), Does (CloseConn 0)]) \<and>
    echo_step ''/s'' (Lifecycle (ServerClosed 0)) s1
      = (s2, [Does Unlink, Does StopSettled, Says (Print ''Server stopped.''), Says (Exit 0)])"
proof -
  let ?es = "[Lifecycle (Listening 0), Lifecycle (Accept 0)]"
  have r: "es_point (fst (echo_run ''/s'' ?es)) = Serving" "running (es_server (fst (echo_run ''/s'' ?es)))"
    "loops (es_server (fst (echo_run ''/s'' ?es))) = [0]"
    "activeConnections (es_server (fst (echo_run ''/s'' ?es))) = [0]"
    by (simp_all add: echo_run_def echo_start_def echo_defs server_defs new_server_def)
  from echo_server_interrupted [OF r(1,2), of "[0]"] r(3,4) show ?thesis by fastforce
qed

end
