(* ===== verification/Example_Clients.thy ===== *)
theory Example_Clients
  imports Client_Connection
begin

section \<open>The example clients (\<open>sdk/js/examples/echo-client.ts\<close>, \<open>ping-client.ts\<close>)\<close>

text \<open>
  The two client programs of the examples. Both connect, make one call, report its result and
  disconnect; an error on the way is printed and ends the process with status 1. What a program
  prints and calls is a \<open>client_program\<close>, and \<open>main\<close> is a machine over the events of its client:
  an effect of the client that settles what \<open>main\<close> awaits continues it. An event carries the
  time \<open>Date.now()\<close> at which it happens.
\<close>

subsection \<open>The programs\<close>

record 'r client_program =
  pg_opening :: "string list"                  \<comment> \<open>printed before \<open>connect\<close>\<close>
  pg_connected :: "string list"                \<comment> \<open>printed once connected\<close>
  pg_call :: "'r call_args"
  pg_report :: "int \<Rightarrow> 'r \<Rightarrow> string list"      \<comment> \<open>printed for a latency and a result\<close>

definition client_endpoint :: "string list \<Rightarrow> string" where
  "client_endpoint argv = argument argv 2 ''/tmp/ibridger_echo.sock''"

definition echo_text :: "string list \<Rightarrow> string" where
  "echo_text argv = argument argv 3 ''hello from JS''"

definition response_message :: "echo_response \<Rightarrow> string" where
  "response_message m = default [] (echoresp_message m)"

definition response_timestampMs :: "echo_response \<Rightarrow> u64" where
  "response_timestampMs m = default 0 (echoresp_timestampMs m)"

definition pong_server_id :: "pong \<Rightarrow> string" where
  "pong_server_id m = default [] (pong_serverId m)"

definition pong_timestamp :: "pong \<Rightarrow> u64" where
  "pong_timestamp m = default 0 (pong_timestampMs m)"

text \<open>\<open>show_long v\<close> is the text of \<open>Number(v)\<close> for a signed \<open>Long\<close>.\<close>

definition echo_call ::
    "'w writer_ops \<Rightarrow> reader_ops \<Rightarrow> string \<Rightarrow> echo_response call_args" where
  "echo_call W R message = typed_call ''EchoService'' ''Echo''
     (EchoRequest_create \<lparr>echoreq_message = Some message\<rparr>) (EchoRequest_type W R) (EchoResponse_type W R) None"

definition echo_program ::
    "'w writer_ops \<Rightarrow> reader_ops \<Rightarrow> (u64 \<Rightarrow> string) \<Rightarrow> string list \<Rightarrow> echo_response client_program" where
  "echo_program W R show_long argv = \<lparr>
     pg_opening = [''Connecting to '' @ client_endpoint argv @ '' ...''],
     pg_connected = [''Connected.'', ''Sending : '' @ quote (echo_text argv)],
     pg_call = echo_call W R (echo_text argv),
     pg_report = (\<lambda>latency response.
       [''Received: '' @ quote (response_message response),
        ''Server timestamp  : '' @ show_long (response_timestampMs response) @ '' ms'',
        ''Round-trip latency: '' @ show_int latency @ '' ms''])\<rparr>"

definition ping_program ::
    "'w writer_ops \<Rightarrow> reader_ops \<Rightarrow> (u64 \<Rightarrow> string) \<Rightarrow> string list \<Rightarrow> pong client_program" where
  "ping_program W R show_long argv = \<lparr>
     pg_opening = [''Connecting to '' @ client_endpoint argv @ '' ...''],
     pg_connected = [''Connected.''],
     pg_call = ping_call W R None,
     pg_report = (\<lambda>latency pong.
       [''Pong from server_id : '' @ pong_server_id pong,
        ''Server timestamp    : '' @ show_long (pong_timestamp pong) @ '' ms'',
        ''Round-trip latency  : '' @ show_int latency @ '' ms''])\<rparr>"

subsection \<open>\<open>main\<close>\<close>

text \<open>
  \<open>new IBridgerClient({ endpoint })\<close>: no default timeout, no reconnecting; the codec it creates has
  no \<open>close\<close>.
\<close>

definition program_config :: config where
  "program_config = \<lparr>defaultTimeout = None, reconnectOpts = None, codec_closes = False\<rparr>"

datatype main_point =
    Opening        \<comment> \<open>\<open>await client.connect()\<close>\<close>
  | Waiting int    \<comment> \<open>\<open>await client.call(...)\<close>, with \<open>t0\<close>\<close>
  | Returned
  | Exited

record 'r main =
  mn_client :: "'r client"
  mn_at :: main_point

datatype 'r main_effect = Makes "'r client_effect" | Writes process_output

definition prints :: "string list \<Rightarrow> 'r main_effect list" where
  "prints lines = map (\<lambda>l. Writes (Print l)) lines"

definition main_failed :: "string \<Rightarrow> 'r client \<Rightarrow> 'r main \<times> 'r main_effect list" where
  "main_failed message c = (\<lparr>mn_client = c, mn_at = Exited\<rparr>, [Writes (PrintError (''Error: '' @ message)), Writes (Exit 1)])"

text \<open>After the call has settled.\<close>

definition main_answered ::
    "'r client_program \<Rightarrow> int \<Rightarrow> int \<Rightarrow> call_error + 'r \<Rightarrow> 'r client \<Rightarrow> 'r main \<times> 'r main_effect list" where
  "main_answered P now t0 r c = (case r of
     Inl e \<Rightarrow> main_failed (error_message e) c
   | Inr response \<Rightarrow> (let (c', es) = disconnect program_config c in
       (\<lparr>mn_client = c', mn_at = Returned\<rparr>, prints (pg_report P (now - t0) response) @ map Makes es)))"

fun awaits_call ::
    "'r client_program \<Rightarrow> int \<Rightarrow> 'r client_effect \<Rightarrow> 'r main \<Rightarrow> 'r main \<times> 'r main_effect list" where
  "awaits_call P now (Settle t r) s = (case mn_at s of
     Waiting t0 \<Rightarrow> main_answered P now t0 r (mn_client s) | _ \<Rightarrow> (s, []))"
| "awaits_call P now _ s = (s, [])"

text \<open>After \<open>connect\<close> has settled.\<close>

definition main_connected ::
    "long_ops \<Rightarrow> 'r client_program \<Rightarrow> int \<Rightarrow> 'r client \<Rightarrow> 'r main \<times> 'r main_effect list" where
  "main_connected L P now c =
     (let (c1, es) = call L program_config (pg_call P) c;
          (s, os) = run_steps (awaits_call P now) es \<lparr>mn_client = c1, mn_at = Waiting now\<rparr>
      in (s, prints (pg_connected P) @ map Makes es @ os))"

fun main_continues ::
    "long_ops \<Rightarrow> 'r client_program \<Rightarrow> int \<Rightarrow> 'r client_effect \<Rightarrow> 'r main \<Rightarrow> 'r main \<times> 'r main_effect list" where
  "main_continues L P now (ConnectSettled r) s = (case mn_at s of
     Opening \<Rightarrow> (case r of None \<Rightarrow> main_connected L P now (mn_client s) | Some message \<Rightarrow> main_failed message (mn_client s))
   | _ \<Rightarrow> (s, []))"
| "main_continues L P now e s = awaits_call P now e s"

text \<open>The client's own methods are called by \<open>main\<close> only.\<close>

definition by_owner :: "'r client_event \<Rightarrow> bool" where
  "by_owner e \<longleftrightarrow> (case e of Call a \<Rightarrow> True | Connect \<Rightarrow> True | Disconnect \<Rightarrow> True | _ \<Rightarrow> False)"

fun main_step ::
    "long_ops \<Rightarrow> 'r client_program \<Rightarrow> int \<times> 'r client_event \<Rightarrow> 'r main \<Rightarrow> 'r main \<times> 'r main_effect list" where
  "main_step L P (now, e) s =
     (if mn_at s = Exited \<or> by_owner e then (s, [])
      else let (c, es) = client_step L program_config e (mn_client s);
               (s', os) = run_steps (main_continues L P now) es (s\<lparr>mn_client := c\<rparr>)
           in (s', map Makes es @ os))"

definition main_start :: "'r client_program \<Rightarrow> 'r main \<times> 'r main_effect list" where
  "main_start P = (let (c, es) = connect new_client
     in (\<lparr>mn_client = c, mn_at = Opening\<rparr>, prints (pg_opening P) @ map Makes es))"

definition main_run ::
    "long_ops \<Rightarrow> 'r client_program \<Rightarrow> (int \<times> 'r client_event) list \<Rightarrow> 'r main \<times> 'r main_effect list" where
  "main_run L P es =
     (let (s0, os0) = main_start P; (s, os) = run_steps (main_step L P) es s0 in (s, os0 @ os))"

lemmas main_defs = main_failed_def main_answered_def main_connected_def disconnect_def codecAsCloseable_def
  program_config_def Let_def

subsection \<open>What a program has written\<close>

definition written_out :: "'r main_effect list \<Rightarrow> process_output list" where
  "written_out os = concat (map (\<lambda>e. case e of Writes w \<Rightarrow> [w] | Makes m \<Rightarrow> []) os)"

lemma written_out_simps [simp]:
  "written_out [] = []" "written_out (xs @ ys) = written_out xs @ written_out ys"
  "written_out (Writes w # os) = w # written_out os" "written_out (Makes m # os) = written_out os"
  "written_out (map Makes es) = []" "written_out (prints ls) = map Print ls"
  by (simp_all add: written_out_def prints_def comp_def)

text \<open>
  What is on the console at each point of \<open>main\<close>, and why: the result or the error of a
  \<open>connect\<close> or of a call that has settled.
\<close>

definition main_ok :: "'r client_program \<Rightarrow> 'r main_effect list \<Rightarrow> 'r main \<Rightarrow> bool" where
  "main_ok P os s \<longleftrightarrow> (case mn_at s of
     Opening \<Rightarrow> written_out os = map Print (pg_opening P)
   | Waiting t0 \<Rightarrow> written_out os = map Print (pg_opening P @ pg_connected P)
   | Returned \<Rightarrow> (\<exists>t r latency. Makes (Settle t (Inr r)) \<in> set os \<and>
       written_out os = map Print (pg_opening P @ pg_connected P @ pg_report P latency r))
   | Exited \<Rightarrow>
       (\<exists>message. Makes (ConnectSettled (Some message)) \<in> set os \<and>
          written_out os = map Print (pg_opening P) @ [PrintError (''Error: '' @ message), Exit 1]) \<or>
       (\<exists>t e. Makes (Settle t (Inl e)) \<in> set os \<and>
          written_out os = map Print (pg_opening P @ pg_connected P) @
            [PrintError (''Error: '' @ error_message e), Exit 1]))"

lemma main_ok_quiet:
  assumes "main_ok P os s" "mn_at s' = mn_at s" "written_out os' = []"
  shows "main_ok P (os @ os') s'"
  using assms by (auto simp: main_ok_def split: main_point.splits)

lemma main_ok_awaits:
  assumes "main_ok P os s" "Makes e \<in> set os" "awaits_call P now e s = (s', os')"
  shows "main_ok P (os @ os') s'"
proof (cases "\<exists>t r t0. e = Settle t r \<and> mn_at s = Waiting t0")
  case True
  then obtain t r t0 where e: "e = Settle t r" and w: "mn_at s = Waiting t0" by blast
  show ?thesis
  proof (cases r)
    case (Inl err)
    with e w assms(3) have "mn_at s' = Exited"
      "os' = [Writes (PrintError (''Error: '' @ error_message err)), Writes (Exit 1)]"
      by (auto simp: main_defs)
    moreover have "written_out os = map Print (pg_opening P @ pg_connected P)"
      using assms(1) w by (simp add: main_ok_def)
    moreover have "Makes (Settle t (Inl err)) \<in> set (os @ os')" using assms(2) e Inl by simp
    ultimately show ?thesis
      unfolding main_ok_def by (simp only: main_point.case written_out_simps) blast
  next
    case (Inr v)
    with e w assms show ?thesis by (fastforce simp: main_ok_def main_defs)
  qed
next
  case False
  then have "awaits_call P now e s = (s, [])"
    by (cases e) (auto split: main_point.splits)
  with assms show ?thesis by simp
qed

lemma main_ok_awaits_run:
  assumes "main_ok P os s" "Makes ` set es \<subseteq> set os" "run_steps (awaits_call P now) es s = (s', os')"
  shows "main_ok P (os @ os') s'"
  using assms
proof (induction es arbitrary: os s os')
  case (Cons e es)
  obtain s1 o1 where s1: "awaits_call P now e s = (s1, o1)" by fastforce
  obtain o2 where o2: "run_steps (awaits_call P now) es s1 = (s', o2)" "os' = o1 @ o2"
    using Cons.prems(3) s1 by (auto split: prod.splits)
  have "main_ok P (os @ o1) s1" by (rule main_ok_awaits [OF Cons.prems(1) _ s1]) (use Cons.prems(2) in auto)
  from Cons.IH [OF this _ o2(1)] Cons.prems(2) o2(2) show ?case by auto
qed simp

lemma main_ok_continues:
  assumes "main_ok P os s" "Makes e \<in> set os" "main_continues L P now e s = (s', os')"
  shows "main_ok P (os @ os') s'"
proof (cases "\<exists>r. e = ConnectSettled r \<and> mn_at s = Opening")
  case True
  then obtain r where e: "e = ConnectSettled r" and o: "mn_at s = Opening" by blast
  have w: "written_out os = map Print (pg_opening P)" using assms(1) o by (simp add: main_ok_def)
  show ?thesis
  proof (cases r)
    case None
    obtain c1 es where c: "call L program_config (pg_call P) (mn_client s) = (c1, es)" by fastforce
    obtain o2 where r: "run_steps (awaits_call P now) es \<lparr>mn_client = c1, mn_at = Waiting now\<rparr> = (s', o2)"
      and os': "os' = prints (pg_connected P) @ map Makes es @ o2"
      using assms(3) e o None c by (auto simp: main_connected_def Let_def split: prod.splits)
    have "main_ok P (os @ prints (pg_connected P) @ map Makes es) \<lparr>mn_client = c1, mn_at = Waiting now\<rparr>"
      using w by (simp add: main_ok_def)
    from main_ok_awaits_run [OF this _ r] os' show ?thesis by auto
  next
    case (Some message)
    with e o assms(3) have "mn_at s' = Exited"
      "os' = [Writes (PrintError (''Error: '' @ message)), Writes (Exit 1)]"
      by (auto simp: main_failed_def)
    moreover have "Makes (ConnectSettled (Some message)) \<in> set (os @ os')" using assms(2) e Some by simp
    ultimately show ?thesis
      unfolding main_ok_def using w by (simp only: main_point.case written_out_simps) blast
  qed
next
  case False
  then have "main_continues L P now e s = awaits_call P now e s"
    by (cases e) (auto split: main_point.splits)
  with main_ok_awaits [OF assms(1,2)] assms(3) show ?thesis by simp
qed

lemma main_ok_continues_run:
  assumes "main_ok P os s" "Makes ` set es \<subseteq> set os" "run_steps (main_continues L P now) es s = (s', os')"
  shows "main_ok P (os @ os') s'"
  using assms
proof (induction es arbitrary: os s os')
  case (Cons e es)
  obtain s1 o1 where s1: "main_continues L P now e s = (s1, o1)" by fastforce
  obtain o2 where o2: "run_steps (main_continues L P now) es s1 = (s', o2)" "os' = o1 @ o2"
    using Cons.prems(3) s1 by (auto split: prod.splits)
  have "main_ok P (os @ o1) s1" by (rule main_ok_continues [OF Cons.prems(1) _ s1]) (use Cons.prems(2) in auto)
  from Cons.IH [OF this _ o2(1)] Cons.prems(2) o2(2) show ?case by auto
qed simp

lemma main_ok_step:
  assumes "main_ok P os s" "main_step L P e s = (s', os')"
  shows "main_ok P (os @ os') s'"
proof -
  obtain now ev where e: "e = (now, ev)" by fastforce
  show ?thesis
  proof (cases "mn_at s = Exited \<or> by_owner ev")
    case False
    obtain c es where c: "client_step L program_config ev (mn_client s) = (c, es)" by fastforce
    obtain o2 where r: "run_steps (main_continues L P now) es (s\<lparr>mn_client := c\<rparr>) = (s', o2)"
      and os': "os' = map Makes es @ o2"
      using assms(2) e False c by (auto split: prod.splits)
    have "main_ok P (os @ map Makes es) (s\<lparr>mn_client := c\<rparr>)"
      by (rule main_ok_quiet [OF assms(1)]) simp_all
    from main_ok_continues_run [OF this _ r] os' show ?thesis by auto
  qed (use assms e in auto)
qed

lemma main_ok_run: "main_ok P (snd (main_run L P es)) (fst (main_run L P es))"
proof -
  obtain s0 os0 where s0: "main_start P = (s0, os0)" by fastforce
  then have "main_ok P os0 s0"
    by (auto simp: main_start_def main_ok_def connect_def new_client_def)
  from run_steps_log [where P = "\<lambda>es. main_ok P" and f = "main_step L P", OF main_ok_step this]
  show ?thesis using s0 by (simp add: main_run_def Let_def split_def)
qed

subsection \<open>A program never closes its connection\<close>

definition keeps_open :: "'r main_effect list \<Rightarrow> bool" where
  "keeps_open os \<longleftrightarrow> (\<forall>g. Makes (CloseCodec g) \<notin> set os)"

lemma client_step_keeps_open: "CloseCodec g \<notin> set (snd (client_step L program_config e c))"
  by (cases e) (auto simp: client_defs program_config_def codecAsCloseable_def
    split: option.splits sum.splits phase.splits)

lemma answered_keeps_open: "keeps_open (snd (main_answered P now t0 r c))"
  by (auto simp: keeps_open_def main_defs prints_def split: sum.splits)

lemma awaits_keeps_open: "keeps_open (snd (awaits_call P now e s))"
  by (cases e) (auto simp: keeps_open_def answered_keeps_open [unfolded keeps_open_def] split: main_point.splits)

lemma run_steps_keeps_open:
  assumes "\<And>e s. keeps_open (snd (f e s))"
  shows "keeps_open (snd (run_steps f es s))"
proof (induction es arbitrary: s)
  case (Cons e es)
  with assms [of e s] show ?case by (auto simp: keeps_open_def Let_def split_def)
qed (simp add: keeps_open_def)

lemma continues_keeps_open: "keeps_open (snd (main_continues L P now e s))"
proof -
  have "keeps_open (snd (main_connected L P now c))" for c
    using run_steps_keeps_open [of "awaits_call P now", OF awaits_keeps_open] client_step_keeps_open [of _ L "Call (pg_call P)" c]
    by (auto simp: keeps_open_def main_connected_def Let_def split_def prints_def)
  then show ?thesis
    by (cases e) (auto simp: main_failed_def keeps_open_def answered_keeps_open [unfolded keeps_open_def]
      split: main_point.splits option.splits)
qed

lemma main_keeps_open: "keeps_open (snd (main_run L P es))"
proof -
  have "keeps_open (snd (main_step L P e s))" for e s
    using run_steps_keeps_open [of "main_continues L P (fst e)", OF continues_keeps_open]
      client_step_keeps_open [of _ L "snd e" "mn_client s"]
    by (cases e) (auto simp: keeps_open_def Let_def split_def)
  from run_steps_keeps_open [of "main_step L P", OF this] show ?thesis
    by (auto simp: main_run_def main_start_def connect_def new_client_def keeps_open_def prints_def Let_def split_def)
qed

subsection \<open>Properties\<close>

text \<open>
  C22. A client program reports faithfully, whatever its client goes through: while it connects
  and while it waits it has printed its opening lines; once \<open>main\<close> has returned, exactly one
  report, of a result with which the call settled, and no exit status; and a process that has
  exited has printed the message of the error of \<open>connect\<close> or of the call, then exited with
  status 1, once. In no run does it close its connection, so the process outlives \<open>main\<close>.
\<close>

theorem client_program_reports:
  "(case mn_at (fst (main_run L P es)) of
     Opening \<Rightarrow> written_out (snd (main_run L P es)) = map Print (pg_opening P)
   | Waiting t0 \<Rightarrow> written_out (snd (main_run L P es)) = map Print (pg_opening P @ pg_connected P)
   | Returned \<Rightarrow> (\<exists>t r latency. Makes (Settle t (Inr r)) \<in> set (snd (main_run L P es)) \<and>
       written_out (snd (main_run L P es)) = map Print (pg_opening P @ pg_connected P @ pg_report P latency r))
   | Exited \<Rightarrow>
       (\<exists>message. Makes (ConnectSettled (Some message)) \<in> set (snd (main_run L P es)) \<and>
          written_out (snd (main_run L P es)) =
            map Print (pg_opening P) @ [PrintError (''Error: '' @ message), Exit 1]) \<or>
       (\<exists>t e. Makes (Settle t (Inl e)) \<in> set (snd (main_run L P es)) \<and>
          written_out (snd (main_run L P es)) = map Print (pg_opening P @ pg_connected P) @
            [PrintError (''Error: '' @ error_message e), Exit 1])) \<and>
   Makes (CloseCodec g) \<notin> set (snd (main_run L P es))"
  using main_ok_run [of P L es] main_keeps_open [of L P es] by (simp only: main_ok_def keeps_open_def) blast

end
