(* ===== verification/Example_Exchange.thy ===== *)
theory Example_Exchange
  imports Rpc_Exchange Example_Server Example_Clients
begin

section \<open>The examples together\<close>

text \<open>
  The client programs of the examples against the echo server: the composition of \<open>main\<close>, the
  client, the two streams, the dispatch loop and the registered handlers.
\<close>

lemma call_outcome_found:
  assumes "find_handler services s m = Some h"
  shows "call_outcome services x s m p = map_option settled_outcome (h x p)"
  using assms by (simp add: call_outcome_def)

lemma echo_services_handlers:
  "find_handler (echo_services W R U clock) ''EchoService'' ''Echo''
    = Some (typedMethod (EchoRequest_type W R) (EchoResponse_type W R) (echo_reply U clock))"
  "find_handler (echo_services W R U clock) ''ibridger.Ping'' ''Ping''
    = Some (typedMethod (Ping_type W R) (Pong_type W R) (ping_reply clock))"
  by (simp_all add: echo_services_def find_register new_services_def registerBuiltinPing_def
    PING_SERVICE_NAME_def PING_METHOD_NAME_def)

text \<open>What a call to a typed handler returns.\<close>

lemma typed_call_result:
  assumes "typed_rpc P req_ok req_shown Q resp_ok resp_shown"
    and "find_handler services s m = Some (typedMethod P Q f)"
    and "req_ok v" "f x (req_shown v) = Some (Inr r)" "resp_ok r"
  shows "\<exists>outcome. call_outcome services x s m (payload (typed_call s m v P Q opts)) = Some outcome \<and>
    result_of (typed_call s m v P Q opts) outcome = Some (Inr (resp_shown r))"
proof -
  from typed_rpc.typed_served [where f = f and x = x, OF assms(1,3,4,5)] obtain b where
    "typedMethod P Q f x (pt_encode P v) = Some (Inr b)" "pt_decode Q b = Some (Inr (resp_shown r))" by blast
  then show ?thesis
    by (simp add: call_outcome_found [OF assms(2)] typed_call_def result_of_def)
qed

text \<open>A program whose call is answered in time.\<close>

lemma program_answered:
  assumes "call_result L 1 (pg_call P) reply = Some (Inr v)"
  shows "\<exists>c. main_run L P [(t1, ConnectDone None), (t2, SendSettled 0 None), (t3, RecvSettled 0 (Inr reply))]
    = (\<lparr>mn_client = c, mn_at = Returned\<rparr>,
       prints (pg_opening P) @ Makes OpenSocket # Makes (ConnectSettled None) # prints (pg_connected P) @
       Makes (SendEnvelope 0 0 (request_envelope L 1 (pg_call P))) # Makes (RecvEnvelope 0 0) #
       Makes (StartTimer 0 (effective_timeout program_config (pg_call P))) # Makes (Settle 0 (Inr v)) #
       prints (pg_report P (t3 - t1) v))"
  using assms
  by (simp add: main_run_def main_start_def main_defs client_defs by_owner_def new_client_def
    set_phase_def end_call_def)

text \<open>A program, its call served by the echo server, from \<open>main\<close> to \<open>main\<close>.\<close>

lemma program_exchange:
  fixes P :: "'r client_program"
  defines "q \<equiv> (\<lambda>L. request_envelope L 1 (pg_call P))"
  assumes "protobuf_runtime W R E sections" "long_numbers L"
    and "servable W E services (x, q L)"
    and "\<forall>r. dispatch services x (drop_proto (q L)) = Some r \<longrightarrow> envelope_fits W E r"
    and "call_outcome services x (serviceName (pg_call P)) (methodName (pg_call P)) (payload (pg_call P)) = Some outcome"
    and "result_of (pg_call P) outcome = Some (Inr v)"
  shows "\<exists>reply s os. exchanged W R services x (q L) reply \<and>
    main_run L P [(t1, ConnectDone None), (t2, SendSettled 0 None), (t3, RecvSettled 0 (Inr reply))] = (s, os) \<and>
    mn_at s = Returned \<and> Makes (SendEnvelope 0 0 (q L)) \<in> set os \<and>
    written_out os = map Print (pg_opening P @ pg_connected P @ pg_report P (t3 - t1) v)"
proof -
  from call_exchanged [OF assms(2,3) _ assms(4-7) [unfolded q_def]] obtain reply where
    r: "exchanged W R services x (q L) reply" "call_result L 1 (pg_call P) reply = Some (Inr v)"
    by (auto simp: q_def)
  from program_answered [OF r(2), of t1 t2 t3] r(1) show ?thesis
    by (auto simp: q_def)
qed

text \<open>A request that the registry answers, and whose answers fit a frame, is servable.\<close>

lemma servable_request:
  assumes "envelope_fits W E (request_envelope L n a)"
    and "\<forall>r. dispatch services x (drop_proto (request_envelope L n a)) = Some r \<longrightarrow> envelope_fits W E r"
    and "call_outcome services x (serviceName a) (methodName a) (payload a) = Some outcome"
  shows "servable W E services (x, request_envelope L n a)"
proof -
  have "dispatch services x (drop_proto (request_envelope L n a)) \<noteq> None"
    using reply_outcome_dispatch [of services x "drop_proto (request_envelope L n a)"] assms(3)
    by (auto simp: request_fields)
  with assms(1,2) show ?thesis by (auto simp: servable_def envelope_fits_def)
qed

text \<open>On the wire format, requests and replies with texts of up to four million characters fit.\<close>

lemma typed_dispatch:
  assumes "find_handler services (get_serviceName q) (get_methodName q) = Some (typedMethod P Q f)"
    and "pt_decode P (get_payload q) = Some (Inr v)" "f x v = Some (Inr r)"
  shows "dispatch services x q = Some (okEnvelope q (pt_encode Q r))"
  using assms by (auto simp: find_handler_def dispatch_def typedMethod_def okEnvelope_def split: option.splits)

lemma okEnvelope_small:
  "length b \<le> 16000000 \<Longrightarrow> envelope_fits wire_writer wire_encodings (okEnvelope q b)"
  by (rule small_envelope_fits) (simp_all add: envelope_gets)

lemma request_small:
  assumes "Option.bind (options a) metadata = None"
    and "2 * (length (serviceName a) + length (methodName a)) + length (payload a) \<le> 16000000"
  shows "envelope_fits wire_writer wire_encodings (request_envelope L n a)"
  by (rule small_envelope_fits)
    (use assms in \<open>simp_all add: request_envelope_def envelope_gets envelope_new_defs\<close>)

lemma echo_lengths:
  assumes "length s \<le> 4000000"
  shows "length (pt_encode (EchoRequest_type wire_writer wire_reader) \<lparr>echoreq_message = Some s\<rparr>) \<le> 8000010"
    and "length (pt_encode (EchoResponse_type wire_writer wire_reader) \<lparr>echoresp_message = Some s, echoresp_timestampMs = Some t\<rparr>)
      \<le> 8000025"
proof -
  have s: "short (Some s)" using assms by (simp add: short_def)
  have msg: "length (wire_bytes wire_encodings (opt_field 10 (enc_string wire_encodings) u (Some s))) \<le> 8000010" for u :: "string \<Rightarrow> 'm \<Rightarrow> 'm"
    using length_opt_string [OF s, of 10 u] assms by simp
  show "length (pt_encode (EchoRequest_type wire_writer wire_reader) \<lparr>echoreq_message = Some s\<rparr>) \<le> 8000010"
    using msg by (simp add: EchoRequest_type_def wire.finish wire.EchoRequest_sections EchoRequest_fields_def)
  show "length (pt_encode (EchoResponse_type wire_writer wire_reader) \<lparr>echoresp_message = Some s, echoresp_timestampMs = Some t\<rparr>)
      \<le> 8000025"
    using add_mono [OF msg length_opt_number(3)]
    by (simp add: EchoResponse_type_def wire.finish wire.EchoResponse_sections EchoResponse_fields_def)
qed

lemma echo_request_fits:
  assumes "length s \<le> 4000000"
  shows "envelope_fits wire_writer wire_encodings (request_envelope L n (echo_call wire_writer wire_reader s))"
  using echo_lengths(1) [OF assms]
  by (intro request_small) (simp_all add: echo_call_def typed_call_def EchoRequest_create_def EchoRequest_new_def)

lemma echo_dispatch:
  assumes "protobuf_runtime W R E sections" "length s < 2 ^ 30"
  shows "dispatch (echo_services W R U clock) x (drop_proto (request_envelope L n (echo_call W R s)))
    = Some (okEnvelope (drop_proto (request_envelope L n (echo_call W R s)))
        (pt_encode (EchoResponse_type W R)
          \<lparr>echoresp_message = Some (toUpperCase U s), echoresp_timestampMs = Some (clock x)\<rparr>))"
proof (rule typed_dispatch [where v = "\<lparr>echoreq_message = Some s\<rparr>" and f = "echo_reply U clock"])
  have "EchoRequest_sendable \<lparr>echoreq_message = Some s\<rparr>"
    using assms(2) by (simp add: EchoRequest_sendable_def short_def)
  from proto_class.decode_encode [OF protobuf_runtime.EchoRequest_class [OF assms(1)] this]
  show "pt_decode (EchoRequest_type W R) (get_payload (drop_proto (request_envelope L n (echo_call W R s))))
      = Some (Inr \<lparr>echoreq_message = Some s\<rparr>)"
    by (simp add: request_fields) (simp add: echo_call_def typed_call_def EchoRequest_create_def EchoRequest_new_def)
  show "find_handler (echo_services W R U clock)
      (get_serviceName (drop_proto (request_envelope L n (echo_call W R s))))
      (get_methodName (drop_proto (request_envelope L n (echo_call W R s))))
    = Some (typedMethod (EchoRequest_type W R) (EchoResponse_type W R) (echo_reply U clock))"
    by (simp only: request_fields) (simp add: echo_call_def typed_call_def echo_services_handlers(1))
qed (simp add: echo_reply_def echo_handler_def Let_def request_message_def EchoResponse_create_def EchoResponse_new_def)

lemma echo_reply_fits:
  assumes "length s \<le> 4000000" "length (toUpperCase U s) \<le> 4000000"
    and "dispatch (echo_services wire_writer wire_reader U clock) x
      (drop_proto (request_envelope L n (echo_call wire_writer wire_reader s))) = Some r"
  shows "envelope_fits wire_writer wire_encodings r"
proof -
  have "length s < 2 ^ 30" using assms(1) by simp
  from echo_dispatch [OF wire.protobuf_runtime_axioms this, of U clock x L n] assms(3)
    echo_lengths(2) [OF assms(2), of "clock x"]
  show ?thesis by (auto intro!: okEnvelope_small)
qed

lemma ping_dispatch:
  assumes "protobuf_runtime W R E sections"
  shows "dispatch (echo_services W R U clock) x (drop_proto (request_envelope L n (ping_call W R None)))
    = Some (okEnvelope (drop_proto (request_envelope L n (ping_call W R None)))
        (pt_encode (Pong_type W R) \<lparr>pong_serverId = Some PING_SERVER_ID, pong_timestampMs = Some (clock x)\<rparr>))"
proof (rule typed_dispatch [where v = no_ping_properties and f = "ping_reply clock"])
  have "Ping_sendable no_ping_properties" by (simp add: Ping_sendable_def no_ping_properties_def short_def)
  from proto_class.decode_encode [OF protobuf_runtime.Ping_class [OF assms(1)] this]
  show "pt_decode (Ping_type W R) (get_payload (drop_proto (request_envelope L n (ping_call W R None))))
      = Some (Inr no_ping_properties)"
    by (simp add: request_fields) (simp add: ping_call_def typed_call_def Ping_create_def Ping_new_def)
  show "find_handler (echo_services W R U clock)
      (get_serviceName (drop_proto (request_envelope L n (ping_call W R None))))
      (get_methodName (drop_proto (request_envelope L n (ping_call W R None))))
    = Some (typedMethod (Ping_type W R) (Pong_type W R) (ping_reply clock))"
    by (simp only: request_fields) (simp add: ping_call_def typed_call_def echo_services_handlers(2))
qed (simp add: ping_reply_def Pong_create_def Pong_new_def)

lemma ping_fits:
  "envelope_fits wire_writer wire_encodings (request_envelope L n (ping_call wire_writer wire_reader None))"
  "dispatch (echo_services wire_writer wire_reader U clock) x
      (drop_proto (request_envelope L n (ping_call wire_writer wire_reader None))) = Some r \<Longrightarrow>
    envelope_fits wire_writer wire_encodings r"
proof -
  let ?r = "\<lparr>pong_serverId = Some PING_SERVER_ID, pong_timestampMs = Some (clock x)\<rparr>"
  have "length (pt_encode (Ping_type wire_writer wire_reader) no_ping_properties) \<le> 10"
    by (simp add: Ping_type_def wire.finish wire.Ping_sections Ping_fields_def no_ping_properties_def opt_field_def)
  then show "envelope_fits wire_writer wire_encodings (request_envelope L n (ping_call wire_writer wire_reader None))"
    by (intro request_small) (simp_all add: ping_call_def typed_call_def Ping_create_def Ping_new_def)
  have "length (wire_bytes wire_encodings (opt_field 10 (enc_string wire_encodings) u (Some PING_SERVER_ID))) \<le> 40"
    for u :: "string \<Rightarrow> pong \<Rightarrow> pong"
    using length_opt_string [of "Some PING_SERVER_ID" 10 u] by (simp add: short_def PING_SERVER_ID_def)
  from add_mono [OF this length_opt_number(3)] have "length (pt_encode (Pong_type wire_writer wire_reader) ?r) \<le> 55"
    by (simp add: Pong_type_def wire.finish wire.Pong_sections Pong_fields_def)
  then show "dispatch (echo_services wire_writer wire_reader U clock) x
      (drop_proto (request_envelope L n (ping_call wire_writer wire_reader None))) = Some r \<Longrightarrow>
    envelope_fits wire_writer wire_encodings r"
    using ping_dispatch [OF wire.protobuf_runtime_axioms, of U clock x L n] by (auto intro!: okEnvelope_small)
qed

subsection \<open>Properties\<close>

text \<open>
  C7. The echo example works: when the program's request and the server's reply fit a frame, the
  client sends the request of its message, the server writes one reply, a reader of those bytes
  in any chunks receives exactly it, and the program prints the message in upper case, with the
  server's time and the time the call took, and returns.
\<close>

theorem echo_example_end_to_end:
  assumes "protobuf_runtime W R E sections" "long_numbers L"
    and "length (echo_text argv) < 2 ^ 30" "length (toUpperCase U (echo_text argv)) < 2 ^ 30"
    and "envelope_fits W E (request_envelope L 1 (echo_call W R (echo_text argv)))"
    and "\<forall>r. dispatch (echo_services W R U clock) x
        (drop_proto (request_envelope L 1 (echo_call W R (echo_text argv)))) = Some r \<longrightarrow> envelope_fits W E r"
  shows "\<exists>reply s os.
    exchanged W R (echo_services W R U clock) x (request_envelope L 1 (echo_call W R (echo_text argv))) reply \<and>
    main_run L (echo_program W R show_long argv)
      [(t1, ConnectDone None), (t2, SendSettled 0 None), (t3, RecvSettled 0 (Inr reply))] = (s, os) \<and>
    mn_at s = Returned \<and>
    Makes (SendEnvelope 0 0 (request_envelope L 1 (echo_call W R (echo_text argv)))) \<in> set os \<and>
    written_out os = map Print
      [''Connecting to '' @ client_endpoint argv @ '' ...'', ''Connected.'',
       ''Sending : '' @ quote (echo_text argv),
       ''Received: '' @ quote (toUpperCase U (echo_text argv)),
       ''Server timestamp  : '' @ show_long (clock x) @ '' ms'',
       ''Round-trip latency: '' @ show_int (t3 - t1) @ '' ms'']"
proof -
  let ?m = "\<lparr>echoreq_message = Some (echo_text argv)\<rparr>" and ?services = "echo_services W R U clock"
  let ?r = "\<lparr>echoresp_message = Some (toUpperCase U (echo_text argv)), echoresp_timestampMs = Some (clock x)\<rparr>"
  let ?P = "echo_program W R show_long argv"
  have call: "pg_call ?P = typed_call ''EchoService'' ''Echo'' ?m (EchoRequest_type W R) (EchoResponse_type W R) None"
    "echo_call W R (echo_text argv) = pg_call ?P"
    by (simp_all add: echo_program_def echo_call_def EchoRequest_create_def EchoRequest_new_def)
  have ok: "EchoRequest_sendable ?m" "EchoResponse_sendable ?r"
    using assms(3,4) by (simp_all add: EchoRequest_sendable_def EchoResponse_sendable_def short_def)
  have "echo_reply U clock x (id ?m) = Some (Inr ?r)"
    by (simp add: echo_reply_def echo_handler_def Let_def request_message_def EchoResponse_create_def EchoResponse_new_def)
  from typed_call_result [where opts = None, OF protobuf_runtime.echo_typed_rpc [OF assms(1)] echo_services_handlers(1) ok(1) this ok(2)]
  obtain outcome where
    o: "call_outcome ?services x ''EchoService'' ''Echo'' (payload (pg_call ?P)) = Some outcome"
      "result_of (pg_call ?P) outcome = Some (Inr (id ?r))"
    unfolding call(1) by blast
  have names: "serviceName (pg_call ?P) = ''EchoService''" "methodName (pg_call ?P) = ''Echo''"
    by (simp_all add: call(1) typed_call_def)
  have served: "servable W E ?services (x, request_envelope L 1 (pg_call ?P))"
    using servable_request [of W E L 1 "pg_call ?P" ?services x outcome] assms(5,6) o(1) names by (simp add: call(2))
  from program_exchange [OF assms(1,2) served assms(6) [unfolded call(2)] o(1) [folded names] o(2)]
  show ?thesis
    unfolding call(2) by (simp add: echo_program_def response_message_def response_timestampMs_def)
qed

theorem echo_example_end_to_end_witness:
  "\<exists>reply s os. exchanged wire_writer wire_reader (echo_services wire_writer wire_reader (\<lambda>s. s) (\<lambda>now. now)) 1700
      (request_envelope exact_long 1 (echo_call wire_writer wire_reader ''Hi!'')) reply \<and>
    main_run exact_long (echo_program wire_writer wire_reader (\<lambda>v. show_int (sint v)) [''node'', ''echo-client'', ''/s'', ''Hi!''])
      [(100, ConnectDone None), (101, SendSettled 0 None), (142, RecvSettled 0 (Inr reply))] = (s, os) \<and>
    mn_at s = Returned \<and>
    written_out os = map Print [''Connecting to /s ...'', ''Connected.'', ''Sending : '' @ quote ''Hi!'',
      ''Received: '' @ quote ''HI!'', ''Server timestamp  : 1700 ms'', ''Round-trip latency: 42 ms'']"
proof -
  let ?argv = "[''node'', ''echo-client'', ''/s'', ''Hi!'']"
  have argv: "echo_text ?argv = ''Hi!''" "client_endpoint ?argv = ''/s''"
    by (simp_all add: echo_text_def client_endpoint_def argument_def)
  have upper: "toUpperCase (\<lambda>s. s) ''Hi!'' = ''HI!''"
    by code_simp
  have fits: "envelope_fits wire_writer wire_encodings (request_envelope exact_long 1 (echo_call wire_writer wire_reader (echo_text ?argv)))"
    by (rule echo_request_fits) (simp add: argv)
  have replies: "\<forall>r. dispatch (echo_services wire_writer wire_reader (\<lambda>s. s) (\<lambda>now. now)) 1700
      (drop_proto (request_envelope exact_long 1 (echo_call wire_writer wire_reader (echo_text ?argv)))) = Some r \<longrightarrow>
      envelope_fits wire_writer wire_encodings r"
    by (intro allI impI, rule echo_reply_fits [of "echo_text ?argv" "\<lambda>s. s"]) (simp_all add: argv upper)
  have shown: "show_int (sint (1700 :: u64)) = ''1700''" "show_int (142 - 100) = ''42''" by code_simp+
  have "length (echo_text ?argv) < 2 ^ 30" "length (toUpperCase (\<lambda>s. s) (echo_text ?argv)) < 2 ^ 30"
    by (simp_all add: argv upper)
  note run = echo_example_end_to_end [OF wire.protobuf_runtime_axioms exact.long_numbers_axioms this fits replies,
      where show_long = "\<lambda>v. show_int (sint v)" and ?t1.0 = 100 and ?t2.0 = 101 and ?t3.0 = 142]
  from run [unfolded argv upper shown] show ?thesis by (elim exE conjE) (intro exI conjI, assumption+, simp)
qed

text \<open>
  The ping example works: against the echo server, whose constructor registers the built-in
  service, \<open>client.ping()\<close> is answered, and the program prints the server's name, its time and
  the latency, and returns.
\<close>

lemma ping_example_end_to_end:
  assumes "protobuf_runtime W R E sections" "long_numbers L"
    and "envelope_fits W E (request_envelope L 1 (ping_call W R None))"
    and "\<forall>r. dispatch (echo_services W R U clock) x
        (drop_proto (request_envelope L 1 (ping_call W R None))) = Some r \<longrightarrow> envelope_fits W E r"
  shows "\<exists>reply s os.
    exchanged W R (echo_services W R U clock) x (request_envelope L 1 (ping_call W R None)) reply \<and>
    main_run L (ping_program W R show_long argv)
      [(t1, ConnectDone None), (t2, SendSettled 0 None), (t3, RecvSettled 0 (Inr reply))] = (s, os) \<and>
    mn_at s = Returned \<and>
    Makes (SendEnvelope 0 0 (request_envelope L 1 (ping_call W R None))) \<in> set os \<and>
    written_out os = map Print
      [''Connecting to '' @ client_endpoint argv @ '' ...'', ''Connected.'',
       ''Pong from server_id : ibridger-server'',
       ''Server timestamp    : '' @ show_long (clock x) @ '' ms'',
       ''Round-trip latency  : '' @ show_int (t3 - t1) @ '' ms'']"
proof -
  let ?r = "\<lparr>pong_serverId = Some PING_SERVER_ID, pong_timestampMs = Some (clock x)\<rparr>"
  let ?P = "ping_program W R show_long argv" and ?services = "echo_services W R U clock"
  have call: "pg_call ?P = typed_call ''ibridger.Ping'' ''Ping'' no_ping_properties (Ping_type W R) (Pong_type W R) None"
    "ping_call W R None = pg_call ?P"
    by (simp_all add: ping_program_def ping_call_def Ping_create_def Ping_new_def)
  have ok: "Ping_sendable no_ping_properties" "Pong_sendable ?r"
    by (simp_all add: Ping_sendable_def Pong_sendable_def no_ping_properties_def short_def PING_SERVER_ID_def)
  have "ping_reply clock x (id no_ping_properties) = Some (Inr ?r)"
    by (simp add: ping_reply_def Pong_create_def Pong_new_def)
  from typed_call_result [where opts = None, OF protobuf_runtime.ping_typed_rpc [OF assms(1)] echo_services_handlers(2) ok(1) this ok(2)]
  obtain outcome where
    o: "call_outcome ?services x ''ibridger.Ping'' ''Ping'' (payload (pg_call ?P)) = Some outcome"
      "result_of (pg_call ?P) outcome = Some (Inr (id ?r))"
    unfolding call(1) by blast
  have names: "serviceName (pg_call ?P) = ''ibridger.Ping''" "methodName (pg_call ?P) = ''Ping''"
    by (simp_all add: call(1) typed_call_def)
  have served: "servable W E ?services (x, request_envelope L 1 (pg_call ?P))"
    using servable_request [of W E L 1 "pg_call ?P" ?services x outcome] assms(3,4) o(1) names by (simp add: call(2))
  from program_exchange [OF assms(1,2) served assms(4) [unfolded call(2)] o(1) [folded names] o(2)]
  show ?thesis
    unfolding call(2) by (simp add: ping_program_def pong_server_id_def pong_timestamp_def PING_SERVER_ID_def)
qed

end
