(* ===== verification/Spec2Isabelle.thy ===== *)
theory Spec2Isabelle
  imports Prelude Transport Framing JS_Object Wire_Format Decoding Envelope Service_Messages
    Envelope_Codec Dispatch Dispatch_Loop Client Client_Calls Client_Connection Server_Lifecycle
    Client_Callbacks Live_Client Link_Invariants Link_Frames Loop_Shutdown Live_Server Object_Conversion Object_Roundtrip
    Object_Properties Object_Schema Object_Safety Rpc_Exchange Whole_System Link_Liveness Late_Reply
    Example_Server Example_Clients Example_Exchange
begin

text \<open>
  A verification library for the JavaScript SDK of iBridger (\<open>src/sdk/js\<close>), a request/response
  RPC over a Unix domain socket. Theories and definitions follow the code; line numbers and
  symbols of each definition are in the manifest.

  \<^bold>\<open>The program.\<close> A client (\<open>rpc/client.ts\<close>) turns a call into an \<open>Envelope\<close>, which
  \<open>protocol/envelope-codec.ts\<close> encodes with the generated code (\<open>generated/proto.js\<close>) and
  \<open>protocol/framing.ts\<close> sends behind a four-byte length over a connection
  (\<open>transport/unix-socket.ts\<close>). A server (\<open>rpc/server.ts\<close>, \<open>transport/unix-socket-server.ts\<close>)
  accepts connections and runs one dispatch loop on each: receive an envelope, dispatch it to a
  registered handler, send the reply. Everything runs on one thread; what is awaited may settle
  in any order.

  \<^bold>\<open>How it is modelled.\<close> A class is a record of its fields. A method, or the part of an
  \<open>async\<close> method between two \<open>await\<close>s, is a function from the state to the next state and to the
  effects it has (writes, timers, settled promises). The events a component reacts to (socket
  events, timers, settled promises of what it called) are a datatype, its reaction a step
  function, and a run is \<open>run_steps\<close> over any list of events (\<open>Prelude\<close>); so an invariant of runs
  holds for every interleaving. An error is a value: \<open>Inl\<close> of a sum, or \<open>None\<close> where the code
  would not return. Words have the width of their field; a JavaScript number that holds an id is
  a natural number rounded as a double is (\<open>to_number\<close>).

  \<^bold>\<open>Theories, in the order of the code.\<close>
  \<^item> \<open>Prelude\<close>: types, decimal rendering, runs of step functions and their invariants.
  \<^item> \<open>Connection_Interface\<close>: the interface \<open>IConnection\<close> (\<open>transport/types.ts\<close>), its contract as
    the locale \<open>stream_connection\<close> over an abstract byte stream.
  \<^item> \<open>Transport\<close>: \<open>UnixSocketConnection\<close>: buffer, queue of waiters, the socket's events. The
    interpretation \<open>unix\<close> shows that it keeps the contract for one reader. Lemmas: bytes are
    neither lost nor reordered, each \<open>recv\<close> settles once, chunking is irrelevant.
  \<^item> \<open>Wire_Constants\<close>, \<open>Framing\<close>: the enums; \<open>FramedConnection\<close> over any connection. A call that
    waits is a point (\<open>recv_point\<close>, \<open>send_point\<close>) from which it is resumed. Lemmas: whole frames,
    in order, under any chunking; no partial frame; no frame over \<open>MAX_FRAME_SIZE\<close>.
  \<^item> \<open>JS_Object\<close>: plain objects in the order of \<open>Object.keys\<close>, with the setter of \<open>__proto__\<close>.
  \<^item> \<open>Wire_Runtime\<close>, \<open>Wire_Format\<close>: \<open>Reader\<close> and \<open>Writer\<close> of \<open>protobufjs\<close> are parameters; the locale
    \<open>protobuf_runtime\<close> states what is documented of them, and the proto3 wire format is an instance.
  \<^item> \<open>Decoding\<close>, \<open>Envelope\<close>, \<open>Service_Messages\<close>: the generated constructors, encoders and decoders
    of the six message classes. Lemmas: decoding returns on any bytes, and reads back what was
    encoded. The interface \<open>ProtoType\<close> of the client is the locale \<open>proto_class\<close>, interpreted on
    the five messages of the services.
  \<^item> \<open>Envelope_Codec\<close>: the codec; a decoding error is an \<open>EBADMSG\<close> transport error.
  \<^item> \<open>Dispatch\<close>: the registry, typed handlers (locale \<open>typed_rpc\<close>), the built-in ping, \<open>dispatch\<close>.
    \<open>call_outcome\<close> is not code but a specification: what a call comes to, from the registry alone.
  \<^item> \<open>Dispatch_Loop\<close>: the loop of a connection as a machine, its invariant over every schedule,
    and progress for a schedule in which handlers and writes settle. \<open>Loop_Shutdown\<close> shows that a
    loop whose connection the server has closed ends, whatever it awaited.
  \<^item> \<open>Server_Lifecycle\<close>: \<open>start\<close>, \<open>stop\<close>, accepting and closing connections, the listener objects.
  \<^item> \<open>Live_Server\<close>: the life cycle and the loops of all connections as one machine. Lemmas: it is
    an interleaving of runs of its parts, so connections do not interfere; a stopped server is
    silent and its loops end.
  \<^item> \<open>Client\<close>, \<open>Client_Calls\<close>, \<open>Client_Connection\<close>: the client. \<open>Client_Calls\<close> abstracts it to an
    inductive machine of calls and shows, by simulation, one call in flight, each call settled
    once, consecutive ids, correlated answers. \<open>Client_Connection\<close> is about connecting, the
    reconnect loop and \<open>disconnect\<close>. The class \<open>Long\<close> of the package \<open>long\<close> is the parameter of the
    locale \<open>long_numbers\<close>, interpreted on 64-bit words. \<open>Client_Callbacks\<close> adds callbacks of the owner
    that throw.
  \<^item> \<open>Live_Client\<close>: the client with the codec, the framing and the socket under each connection it
    opens, as one machine. \<open>Link_Invariants\<close> shows that the client in it goes through a run of its
    own; \<open>Link_Frames\<close> what goes over each connection: whole frames out, in the order of the
    requests, and, while no call times out, the frames that arrived in, in their order.
    \<open>Link_Liveness\<close> shows that no call is lost: whatever a call awaits, a connection will settle,
    and what fails a connection fails its calls; \<open>Late_Reply\<close> what a call that timed out leaves behind.
  \<^item> \<open>JS_Value\<close>, \<open>Object_Conversion\<close>, \<open>Object_Roundtrip\<close>, \<open>Object_Properties\<close>: values of any
    JavaScript type; \<open>verify\<close>, \<open>fromObject\<close>, \<open>toObject\<close>, \<open>toJSON\<close> of the six classes; the round
    trips, over the locale \<open>conversions\<close> of the packages they call, with an instance that has
    base64 and decimal 64-bit integers. \<open>Object_Schema\<close> has the properties of the classes as schemas
    and shows that \<open>verify\<close> accepts exactly the objects that conform, and which property it reports
    of any other. \<open>Object_Safety\<close> shows on which objects \<open>fromObject\<close> does
    not throw: those \<open>verify\<close> accepts, if their \<open>bytes\<close> that are strings are base64.
  \<^item> \<open>Rpc_Exchange\<close>, \<open>Whole_System\<close> and this theory: client and server together. \<open>Rpc_Exchange\<close> joins
    the two streams of one connection and shows that \<open>dispatch\<close> and the client implement
    \<open>call_outcome\<close>; \<open>Whole_System\<close> joins any run of \<open>Live_Client\<close> with any run of
    \<open>Live_Server\<close>, over any number of connections (\<open>wired\<close>).
  \<^item> \<open>Example_Server\<close>, \<open>Example_Clients\<close>, \<open>Example_Exchange\<close>: the programs of \<open>sdk/js/examples\<close> as
    machines around the server and the client, what they print and when they exit, and both
    exchanges from end to end with the bounds that make their messages fit a frame
    (\<open>Envelope_Codec\<close> has the sizes).

  \<^bold>\<open>Loops and bounds.\<close> Structural recursion where the code walks a list; \<open>drainWaiters\<close> terminates
  by the number of waiters. The generated decoders loop on a reader that a parameter advances, so
  they are partial functions into \<open>option\<close>; that they return on any bytes is proved
  (\<open>Envelope_decode_returns\<close>). There is no fuel. A handler that never settles is the value \<open>None\<close>.

  \<^bold>\<open>Not modelled.\<close> The internals of \<open>protobufjs\<close> and \<open>long\<close>, Node's sockets, timers and file
  system (parameters, events and effects); the branches of \<open>proto.js\<close> for a missing \<open>Long\<close>;
  encoders that throw, because the typed callers give well-typed messages; timeouts that are not
  natural numbers; numbers in error texts above \<open>2 ^ 53\<close>, which JavaScript prints rounded; how the
  lines the echo handler prints mix with the server's other output; the Unicode tables of
  \<open>toUpperCase\<close> and the decimal text of \<open>Number\<close> of a \<open>Long\<close> (parameters); the re-exports of
  \<open>index.ts\<close>, the type declarations beyond the message interfaces, and the C++ SDK.
\<close>

section \<open>Properties of the whole\<close>

text \<open>
  C3. A call gets its answer, end to end: clients' calls \<open>as\<close>, with their ids, are sent as the
  frames of their request envelopes; the server's loop, on any cutting of those bytes and any
  timing of handlers and writes, writes its replies; the client's reader, on any cutting of
  what the server wrote, receives at most one frame per call. The \<open>k\<close>-th decodes, and the
  client's checks turn it into the result that the service registry determines for the
  \<open>k\<close>-th call: the decoded payload of the handler's answer, or an \<open>RpcError\<close> with the status and
  message of the failure.
\<close>

theorem end_to_end_calls:
  assumes "protobuf_runtime W R E sections" "long_numbers L"
    and "\<forall>(n, a) \<in> set as. n \<le> 2 ^ 53 \<and> envelope_fits W E (request_envelope L n a) \<and>
      (\<forall>x r. dispatch services x (drop_proto (request_envelope L n a)) = Some r \<longrightarrow> envelope_fits W E r)"
    and "concat (map event_data es) @ unsent = concat (map (\<lambda>(n, a). reply_frame W (request_envelope L n a)) as)"
    and "concat (map arrived res) @ underway = written (snd (ss_conn (fst (unix_session W R services x0 es))))"
    and "k < length (got_frames (snd (unix_reader res)))"
  shows "k < length as \<and> (\<exists>x response outcome.
    decode_envelope R (got_frames (snd (unix_reader res)) ! k) = Some (Inr response) \<and>
    call_outcome services x (serviceName (snd (as ! k))) (methodName (snd (as ! k))) (payload (snd (as ! k)))
      = Some outcome \<and>
    call_result L (fst (as ! k)) (snd (as ! k)) response = result_of (snd (as ! k)) outcome)"
proof -
  let ?ms = "map (\<lambda>(n, a). request_envelope L n a) as"
  have fits: "list_all (envelope_fits W E) ?ms" using assms(3) by (auto simp: list_all_iff)
  have replies: "\<forall>m \<in> set ?ms. \<forall>x r. dispatch services x (drop_proto m) = Some r \<longrightarrow> envelope_fits W E r"
    using assms(3) by auto
  have sent: "concat (map event_data es) @ unsent = concat (map (reply_frame W) ?ms)"
    using assms(4) by (simp add: comp_def split_def)
  from exchange [OF assms(1) fits replies sent assms(5,6)] obtain x r where
    k: "k < length as" and r: "dispatch services x (drop_proto (?ms ! k)) = Some r"
      "decode_envelope R (got_frames (snd (unix_reader res)) ! k) = Some (Inr r)" by auto
  obtain n a where a: "as ! k = (n, a)" by fastforce
  with k have "(n, a) \<in> set as" by (metis nth_mem)
  with assms(3) have n: "n \<le> 2 ^ 53" by auto
  from r(1) k a have "dispatch services x (drop_proto (request_envelope L n a)) = Some r" by simp
  from result_of_reply [OF assms(2) n this] r(2) k a show ?thesis by auto
qed

theorem end_to_end_calls_witness:
  "\<exists>x response outcome. decode_envelope wire_reader (got_frames (snd (unix_reader sample_reader)) ! 0) = Some (Inr response) \<and>
     call_outcome sample_services x ''S'' ''m'' [1] = Some outcome \<and>
     call_result exact_long 1 sample_args response = result_of sample_args outcome"
proof -
  let ?as = "[(1, sample_args)]" and ?es = "serve_events wire_writer sample_services [((), sample_wire_request)]"
  have calls: "\<forall>(n, a) \<in> set ?as. n \<le> 2 ^ 53 \<and>
      envelope_fits wire_writer wire_encodings (request_envelope exact_long n a) \<and>
      (\<forall>x r. dispatch sample_services x (drop_proto (request_envelope exact_long n a)) = Some r \<longrightarrow>
        envelope_fits wire_writer wire_encodings r)"
    using sample_wire_fits by (simp add: sample_wire_request_sent sample_wire_plain sample_wire_dispatch)
  have sent: "concat (map event_data ?es) @ []
      = concat (map (\<lambda>(n, a). reply_frame wire_writer (request_envelope exact_long n a)) ?as)"
    by (simp add: event_data_def serve_events_def sample_wire_plain sample_wire_dispatch sample_wire_request_sent
      sample_wire_bytes)
  have returned: "concat (map arrived sample_reader) @ []
      = written (snd (ss_conn (fst (unix_session wire_writer wire_reader sample_services () ?es))))"
    using served_bytes [OF wire.protobuf_runtime_axioms sample_wire_servable]
    by (auto simp: sample_wire_plain sample_wire_dispatch reply_frame_def encode_frame_def writeUInt32BE_def
      sample_wire_bytes sample_reader_def arrived_def)
  have "0 < length (got_frames (snd (unix_reader sample_reader)))" by (simp add: sample_reader_gets)
  from end_to_end_calls [OF wire.protobuf_runtime_axioms exact.long_numbers_axioms calls sent returned this]
  show ?thesis by (simp add: sample_args_def)
qed

text \<open>
  C2. A call completes, end to end: on a free, connected client, when the handler of the call
  settles and request and reply fit a frame, the client writes the request's frame, the server
  writes a reply's frame, a client that has read it all has received exactly that reply, and
  the call returns what the registry determines, leaving the client free for the next call.
\<close>

theorem call_completes_end_to_end:
  assumes "protobuf_runtime W R E sections" "long_numbers L" "nextRequestId c \<le> 2 ^ 53"
    and "codec c = Some g" "\<not> callInFlight c" "map_of (calls c) (called c) = None"
    and "servable W E services (x, request_envelope L (nextRequestId c) a)"
    and "\<forall>r. dispatch services x (drop_proto (request_envelope L (nextRequestId c) a)) = Some r \<longrightarrow> envelope_fits W E r"
    and "call_outcome services x (serviceName a) (methodName a) (payload a) = Some outcome"
    and "result_of a outcome = Some result"
  shows "\<exists>reply conn.
    unix_send [None, None] (encode_envelope W (request_envelope L (nextRequestId c) a)) (new_connection, []) = (conn, SDone) \<and>
    written (snd conn) = reply_frame W (request_envelope L (nextRequestId c) a) \<and>
    written (snd (ss_conn (fst (unix_session W R services x
      (serve_events W services [(x, request_envelope L (nextRequestId c) a)]))))) = reply_frame W reply \<and>
    (\<forall>res. concat (map arrived res) = reply_frame W reply \<and> rd_point (fst (unix_reader res)) \<noteq> None \<longrightarrow>
      map (decode_envelope R) (got_frames (snd (unix_reader res))) = [Some (Inr reply)]) \<and>
    run_steps (client_step L cfg) [Call a, SendSettled (called c) None, RecvSettled (called c) (Inr reply)] c
      = (c\<lparr>called := Suc (called c), nextRequestId := increment (nextRequestId c)\<rparr>,
         [SendEnvelope (called c) g (request_envelope L (nextRequestId c) a), RecvEnvelope (called c) g,
          StartTimer (called c) (effective_timeout cfg a), Settle (called c) result])"
proof -
  from call_exchanged [OF assms(1-3,7-10)] obtain reply where
    r: "exchanged W R services x (request_envelope L (nextRequestId c) a) reply"
      "call_result L (nextRequestId c) a reply = Some result" by blast
  from call_answered [OF assms(4-6) r(2), of cfg] r(1) show ?thesis
    unfolding exchanged_def by blast
qed

theorem call_completes_end_to_end_witness:
  "\<exists>reply. snd (run_steps (client_step exact_long sample_config)
      [Call sample_args, SendSettled 0 None, RecvSettled 0 (Inr reply)]
      (new_client\<lparr>codec := Some 0, connections := 1\<rparr>))
    = [SendEnvelope 0 0 (request_envelope exact_long 1 sample_args), RecvEnvelope 0 0,
       StartTimer 0 (effective_timeout sample_config sample_args), Settle 0 (Inr [1])]"
proof -
  let ?c = "new_client\<lparr>codec := Some 0, connections := 1\<rparr> :: bytes client"
  have c: "nextRequestId ?c = 1" "codec ?c = Some 0" "\<not> callInFlight ?c" "calls ?c = []" "called ?c = 0"
    by (simp_all add: new_client_def)
  have q: "request_envelope exact_long (nextRequestId ?c) sample_args = sample_wire_request"
    using sample_wire_request_sent by (simp add: new_client_def)
  have served: "servable wire_writer wire_encodings sample_services
      ((), request_envelope exact_long (nextRequestId ?c) sample_args)"
    "\<forall>r. dispatch sample_services () (drop_proto (request_envelope exact_long (nextRequestId ?c) sample_args)) = Some r \<longrightarrow>
      envelope_fits wire_writer wire_encodings r"
    unfolding q using sample_wire_servable sample_wire_fits(2) by (simp_all add: sample_wire_plain sample_wire_dispatch)
  have outcome: "call_outcome sample_services () (serviceName sample_args) (methodName sample_args) (payload sample_args)
      = Some (Served [1])"
    "result_of sample_args (Served [1]) = Some (Inr [1])"
    by (simp_all add: call_outcome_def find_handler_def sample_services_def sample_args_def result_of_def)
  have "nextRequestId ?c \<le> 2 ^ 53" "map_of (calls ?c) (called ?c) = None" by (simp_all add: new_client_def)
  from call_completes_end_to_end [OF wire.protobuf_runtime_axioms exact.long_numbers_axioms this(1) c(2,3) this(2)
      served outcome, of sample_config]
  obtain reply where "snd (run_steps (client_step exact_long sample_config)
      [Call sample_args, SendSettled (called ?c) None, RecvSettled (called ?c) (Inr reply)] ?c)
    = [SendEnvelope (called ?c) 0 (request_envelope exact_long (nextRequestId ?c) sample_args), RecvEnvelope (called ?c) 0,
       StartTimer (called ?c) (effective_timeout sample_config sample_args), Settle (called ?c) (Inr [1])]"
    by (metis snd_conv)
  then show ?thesis unfolding c(1,5) by blast
qed

end
